(* ===== verification/Prelude.thy ===== *)
theory Prelude
  imports Complex_Main "HOL-Library.Word" "HOL-Library.Sublist" "HOL-Library.Multiset"
    "HOL-Library.List_Lexorder" "HOL-Library.Product_Lexorder"
    "HOL-Library.AList"
begin

text \<open>
  Shared vocabulary of the development.

  \<^item> \<open>('e, 'a) res\<close> is what a Python call can do: return a value (\<open>Ok\<close>), raise an exception
    (\<open>Err\<close>), or never return (\<open>Diverge\<close>). \<open>bind_res\<close> sequences two calls.
  \<^item> \<open>('s, 'e, 'a) action\<close> is a method that may change an object: it maps the object's state to
    a result and the state left behind. A mutation made before an exception is kept, as in Python.
  \<^item> \<open>exn\<close> names the exceptions the modelled code can raise.
  \<^item> \<open>'a gen\<close> is a finite unrolling of a Python generator. \<open>GForever\<close> marks a generator that was
    still running when the unrolling stopped.
  \<^item> bytes are lists of \<open>8 word\<close>, \<open>to_bytes\<close> is \<open>int.to_bytes(..., byteorder="big")\<close>.
  \<^item> \<open>keeps P m\<close>: the method \<open>m\<close> keeps the property \<open>P\<close> of its object; the rules of
    \<open>keeps_intros\<close> follow how a method is composed.
  \<^item> the locales \<open>invariant_system\<close> and \<open>monotone_system\<close> carry the induction over runs of a
    component: an invariant kept by every step, a preorder that every step respects.
\<close>

section \<open>Collections\<close>

named_theorems res_simps \<open>rewriting of calls that may raise or not return\<close>
named_theorems act_simps \<open>rewriting of methods that change state\<close>

declare map_of_append [simp del]

section \<open>Results of calls\<close>

datatype exn =
    AssertionError | ValueError | KeyError | IndexError | TypeError | AttributeError
  | OverflowError | ZeroDivisionError | RecursionError | RuntimeError | NotImplementedError
  | ParentNotFound | InvalidLeaderProof | ImmutableFork | UnknownHeaderTypeError

datatype ('e, 'a) res = Ok 'a | Err 'e | Diverge

fun bind_res :: "('e, 'a) res \<Rightarrow> ('a \<Rightarrow> ('e, 'b) res) \<Rightarrow> ('e, 'b) res" where
  "bind_res (Ok x) f = f x"
| "bind_res (Err e) f = Err e"
| "bind_res Diverge f = Diverge"

definition assert_res :: "bool \<Rightarrow> 'e \<Rightarrow> ('e, unit) res" where
  "assert_res b e = (if b then Ok () else Err e)"

lemma assert_res_simps [simp]: "assert_res True e = Ok ()" "assert_res False e = Err e"
  by (simp_all add: assert_res_def)

lemma bind_res_Ok_iff [res_simps]: "bind_res m f = Ok y \<longleftrightarrow> (\<exists>x. m = Ok x \<and> f x = Ok y)"
  by (cases m) auto

lemma bind_res_Err_iff [res_simps]:
  "bind_res m f = Err e \<longleftrightarrow> m = Err e \<or> (\<exists>x. m = Ok x \<and> f x = Err e)"
  by (cases m) auto

lemma bind_res_Diverge_iff [res_simps]:
  "bind_res m f = Diverge \<longleftrightarrow> m = Diverge \<or> (\<exists>x. m = Ok x \<and> f x = Diverge)"
  by (cases m) auto

lemma assert_res_Ok_iff [res_simps]: "assert_res b e = Ok u \<longleftrightarrow> b"
  by (cases b) auto

lemma bind_res_assoc: "bind_res (bind_res m f) g = bind_res m (\<lambda>x. bind_res (f x) g)"
  by (cases m) auto

lemma bind_res_Ok_right [simp]: "bind_res m Ok = m"
  by (cases m) auto

lemma bind_res_cong [fundef_cong]:
  "m = m' \<Longrightarrow> (\<And>x. m' = Ok x \<Longrightarrow> f x = g x) \<Longrightarrow> bind_res m f = bind_res m' g"
  by (cases m') auto

fun filter_res :: "('a \<Rightarrow> ('e, bool) res) \<Rightarrow> 'a list \<Rightarrow> ('e, 'a list) res" where
  "filter_res P [] = Ok []"
| "filter_res P (x # xs) =
     bind_res (P x) (\<lambda>b. bind_res (filter_res P xs) (\<lambda>ys. Ok (if b then x # ys else ys)))"

lemma filter_res_Ok: "(\<And>x. x \<in> set xs \<Longrightarrow> P x = Ok (Q x)) \<Longrightarrow> filter_res P xs = Ok (filter Q xs)"
  by (induction xs) auto

text \<open>A list comprehension whose element may raise.\<close>

fun map_res :: "('a \<Rightarrow> ('e, 'b) res) \<Rightarrow> 'a list \<Rightarrow> ('e, 'b list) res" where
  "map_res f [] = Ok []"
| "map_res f (x # xs) = bind_res (f x) (\<lambda>y. bind_res (map_res f xs) (\<lambda>ys. Ok (y # ys)))"

lemma map_res_Ok: "(\<And>x. x \<in> set xs \<Longrightarrow> f x = Ok (g x)) \<Longrightarrow> map_res f xs = Ok (map g xs)"
  by (induction xs) auto

lemma map_res_Ok_iff: "map_res f xs = Ok ys \<longleftrightarrow> list_all2 (\<lambda>x y. f x = Ok y) xs ys"
  by (induction xs arbitrary: ys) (auto simp: bind_res_Ok_iff list_all2_Cons1)

lemma map_res_cong [fundef_cong]:
  "xs = ys \<Longrightarrow> (\<And>x. x \<in> set ys \<Longrightarrow> f x = g x) \<Longrightarrow> map_res f xs = map_res g ys"
  by (induction ys arbitrary: xs) auto

definition or_res :: "('e, bool) res \<Rightarrow> ('e, bool) res \<Rightarrow> ('e, bool) res" where
  "or_res a b = bind_res a (\<lambda>x. if x then Ok True else b)"

lemma or_res_Ok [simp]: "or_res (Ok x) (Ok y) = Ok (x \<or> y)"
  by (simp add: or_res_def)

text \<open>\<open>xs.remove(x)\<close> removes the first occurrence and raises when there is none.\<close>

definition list_remove :: "'a \<Rightarrow> 'a list \<Rightarrow> (exn, 'a list) res" where
  "list_remove x xs = (if x \<in> set xs then Ok (remove1 x xs) else Err ValueError)"

text \<open>\<open>d[k]\<close> on a dict in insertion order.\<close>

definition get_item :: "('k \<times> 'v) list \<Rightarrow> 'k \<Rightarrow> (exn, 'v) res" where
  "get_item d k = (case map_of d k of None \<Rightarrow> Err KeyError | Some v \<Rightarrow> Ok v)"

text \<open>\<open>xs[lo:hi]\<close> and \<open>xs[i]\<close>, where a negative index counts from the end.\<close>

definition clip_index :: "int \<Rightarrow> 'a list \<Rightarrow> nat" where
  "clip_index i xs = (if i < 0 then nat (int (length xs) + i) else min (nat i) (length xs))"

definition py_slice :: "int \<Rightarrow> int \<Rightarrow> 'a list \<Rightarrow> 'a list" where
  "py_slice lo hi xs = drop (clip_index lo xs) (take (clip_index hi xs) xs)"

definition py_index :: "'a list \<Rightarrow> int \<Rightarrow> (exn, 'a) res" where
  "py_index xs i =
     (let j = (if i < 0 then int (length xs) + i else i)
      in if 0 \<le> j \<and> j < int (length xs) then Ok (xs ! nat j) else Err IndexError)"

lemma py_slice_nonneg: "0 \<le> lo \<Longrightarrow> 0 \<le> hi \<Longrightarrow> py_slice lo hi xs = take (nat hi - nat lo) (drop (nat lo) xs)"
proof -
  assume "0 \<le> lo" and "0 \<le> hi"
  then have "py_slice lo hi xs = drop (min (nat lo) (length xs)) (take (nat hi) xs)"
    by (cases "nat hi \<le> length xs") (simp_all add: py_slice_def clip_index_def)
  also have "\<dots> = drop (nat lo) (take (nat hi) xs)"
    by (cases "nat lo \<le> length xs") auto
  finally show ?thesis by (simp only: drop_take)
qed

lemma py_slice_butlast: "py_slice 0 (- 1) xs = butlast xs"
  by (cases xs) (simp_all add: py_slice_def clip_index_def butlast_conv_take)

lemma upto_int: "[0..int n - 1] = map int [0..<n]"
  by (rule nth_equalityI) (simp_all add: nth_upto)

lemma py_index_last: "xs \<noteq> [] \<Longrightarrow> py_index xs (- 1) = Ok (last xs)"
  by (cases xs) (simp_all add: py_index_def last_conv_nth nat_diff_distrib)

lemma py_index_Nil [simp]: "py_index [] i = Err IndexError"
  by (simp add: py_index_def)

section \<open>Methods that change state\<close>

type_synonym ('s, 'e, 'a) action = "'s \<Rightarrow> ('e, 'a) res \<times> 's"

definition ret :: "'a \<Rightarrow> ('s, 'e, 'a) action" where
  "ret x = (\<lambda>s. (Ok x, s))"

definition raise :: "'e \<Rightarrow> ('s, 'e, 'a) action" where
  "raise e = (\<lambda>s. (Err e, s))"

definition call :: "('s \<Rightarrow> ('e, 'a) res) \<Rightarrow> ('s, 'e, 'a) action" where
  "call g = (\<lambda>s. (g s, s))"

definition modify :: "('s \<Rightarrow> 's) \<Rightarrow> ('s, 'e, unit) action" where
  "modify g = (\<lambda>s. (Ok (), g s))"

definition bind_act :: "('s, 'e, 'a) action \<Rightarrow> ('a \<Rightarrow> ('s, 'e, 'b) action) \<Rightarrow> ('s, 'e, 'b) action" where
  "bind_act m f = (\<lambda>s. case m s of
       (Ok x, s') \<Rightarrow> f x s'
     | (Err e, s') \<Rightarrow> (Err e, s')
     | (Diverge, s') \<Rightarrow> (Diverge, s'))"

lemma ret_apply [simp]: "ret x s = (Ok x, s)"
  by (simp add: ret_def)

lemma raise_apply [simp]: "raise e s = (Err e, s)"
  by (simp add: raise_def)

lemma call_apply [simp]: "call g s = (g s, s)"
  by (simp add: call_def)

lemma modify_apply [simp]: "modify g s = (Ok (), g s)"
  by (simp add: modify_def)

lemma bind_act_Ok: "m s = (Ok x, s') \<Longrightarrow> bind_act m f s = f x s'"
  by (simp add: bind_act_def)

lemma bind_act_Err: "m s = (Err e, s') \<Longrightarrow> bind_act m f s = (Err e, s')"
  by (simp add: bind_act_def)

lemma bind_act_Diverge: "m s = (Diverge, s') \<Longrightarrow> bind_act m f s = (Diverge, s')"
  by (simp add: bind_act_def)

lemma bind_act_call [act_simps]:
  "bind_act (call g) f s = (case g s of Ok x \<Rightarrow> f x s | Err e \<Rightarrow> (Err e, s) | Diverge \<Rightarrow> (Diverge, s))"
  by (simp add: bind_act_def)

lemma bind_act_modify [act_simps]: "bind_act (modify g) f s = f () (g s)"
  by (simp add: bind_act_def)

lemma bind_act_ret [act_simps]: "bind_act (ret x) f s = f x s"
  by (simp add: bind_act_def)

lemma bind_act_cases:
  assumes "bind_act m f s = (r, t)"
  obtains (ok) x s' where "m s = (Ok x, s')" and "f x s' = (r, t)"
  | (err) e where "m s = (Err e, t)" and "r = Err e"
  | (diverge) "m s = (Diverge, t)" and "r = Diverge"
  using assms by (auto simp: bind_act_def split: prod.splits res.splits)

text \<open>
  A relation between the object before and after that every part of a method keeps is kept by
  the method, whatever the outcome.
\<close>

lemma bind_act_post:
  assumes "bind_act m f s = (r, t)"
    and "\<And>r s'. m s = (r, s') \<Longrightarrow> P s'"
    and "\<And>x s' r t. m s = (Ok x, s') \<Longrightarrow> P s' \<Longrightarrow> f x s' = (r, t) \<Longrightarrow> P t"
  shows "P t"
  using assms(1) by (rule bind_act_cases) (use assms(2,3) in blast)+

text \<open>\<open>try: m except Exception as e: h(e)\<close>, and a loop over a list.\<close>

definition try_act :: "('s, 'e, 'a) action \<Rightarrow> ('e \<Rightarrow> ('s, 'e, 'a) action) \<Rightarrow> ('s, 'e, 'a) action" where
  "try_act m h = (\<lambda>s. case m s of (Err e, s') \<Rightarrow> h e s' | x \<Rightarrow> x)"

fun for_each :: "('a \<Rightarrow> ('s, 'e, unit) action) \<Rightarrow> 'a list \<Rightarrow> ('s, 'e, unit) action" where
  "for_each m [] = ret ()"
| "for_each m (x # xs) = bind_act (m x) (\<lambda>_. for_each m xs)"

fun lift_err :: "('e \<Rightarrow> 'd) \<Rightarrow> ('e, 'a) res \<Rightarrow> ('d, 'a) res" where
  "lift_err h (Ok x) = Ok x"
| "lift_err h (Err e) = Err (h e)"
| "lift_err h Diverge = Diverge"

lemma lift_err_iff [res_simps]:
  "lift_err h m = Ok x \<longleftrightarrow> m = Ok x" "lift_err h m = Err d \<longleftrightarrow> (\<exists>e. m = Err e \<and> d = h e)"
  "lift_err h m = Diverge \<longleftrightarrow> m = Diverge"
  by (cases m; auto)+

text \<open>A property of the object that a method keeps, whatever its outcome.\<close>

definition keeps :: "('s \<Rightarrow> bool) \<Rightarrow> ('s, 'e, 'a) action \<Rightarrow> bool" where
  "keeps P m \<longleftrightarrow> (\<forall>s r t. P s \<longrightarrow> m s = (r, t) \<longrightarrow> P t)"

lemma keepsD: "keeps P m \<Longrightarrow> P s \<Longrightarrow> m s = (r, t) \<Longrightarrow> P t"
  by (auto simp: keeps_def)

named_theorems keeps_intros \<open>methods built from methods that keep a property keep it\<close>

lemma keeps_ret [keeps_intros]: "keeps P (ret x)"
  by (simp add: keeps_def)

lemma keeps_raise [keeps_intros]: "keeps P (raise e)"
  by (simp add: keeps_def)

lemma keeps_call [keeps_intros]: "keeps P (call g)"
  by (simp add: keeps_def)

lemma keeps_modify: "(\<And>s. P s \<Longrightarrow> P (g s)) \<Longrightarrow> keeps P (modify g)"
  by (auto simp: keeps_def)

lemma keeps_bind [keeps_intros]: "keeps P m \<Longrightarrow> (\<And>x. keeps P (f x)) \<Longrightarrow> keeps P (bind_act m f)"
  unfolding keeps_def
proof (intro allI impI)
  fix s r t
  assume m: "\<forall>s r t. P s \<longrightarrow> m s = (r, t) \<longrightarrow> P t" and f: "\<And>x. \<forall>s r t. P s \<longrightarrow> f x s = (r, t) \<longrightarrow> P t"
    and s: "P s" and run: "bind_act m f s = (r, t)"
  from run show "P t"
  proof (rule bind_act_cases)
    fix x s'
    assume "m s = (Ok x, s')" and "f x s' = (r, t)"
    with m f s show ?thesis by blast
  qed (use m s in blast)+
qed

lemma keeps_try [keeps_intros]: "keeps P m \<Longrightarrow> (\<And>e. keeps P (h e)) \<Longrightarrow> keeps P (try_act m h)"
  unfolding keeps_def
proof (intro allI impI)
  fix s r t
  assume m: "\<forall>s r t. P s \<longrightarrow> m s = (r, t) \<longrightarrow> P t" and h: "\<And>e. \<forall>s r t. P s \<longrightarrow> h e s = (r, t) \<longrightarrow> P t"
    and s: "P s" and run: "try_act m h s = (r, t)"
  obtain r1 s1 where m1: "m s = (r1, s1)" by (cases "m s")
  then have s1: "P s1" using m s by blast
  show "P t"
  proof (cases r1)
    case (Err e)
    with run m1 have "h e s1 = (r, t)" by (simp add: try_act_def)
    then show ?thesis using h s1 by blast
  qed (use run m1 s1 in \<open>simp_all add: try_act_def\<close>)
qed

lemma keeps_if [keeps_intros]: "keeps P m \<Longrightarrow> keeps P m' \<Longrightarrow> keeps P (if b then m else m')"
  by simp

lemma keeps_for_each: "(\<And>x. x \<in> set xs \<Longrightarrow> keeps P (m x)) \<Longrightarrow> keeps P (for_each m xs)"
  by (induction xs) (auto intro: keeps_intros)

section \<open>Assertions and outcomes\<close>

definition assert_act :: "('s \<Rightarrow> (exn, bool) res) \<Rightarrow> ('s, exn, unit) action" where
  "assert_act P = bind_act (call P) (\<lambda>b. if b then ret () else raise AssertionError)"

fun all_res :: "('a \<Rightarrow> ('e, bool) res) \<Rightarrow> 'a list \<Rightarrow> ('e, bool) res" where
  "all_res P [] = Ok True"
| "all_res P (x # xs) = bind_res (P x) (\<lambda>b. if b then all_res P xs else Ok False)"

text \<open>
  \<open>outcome I T\<close> holds of what a method did when \<open>I\<close> holds of the object it left and \<open>T\<close> of the value
  it returned, if any. The rules execute a method symbolically: every exit has to satisfy \<open>I\<close>.
\<close>

definition outcome :: "('s \<Rightarrow> bool) \<Rightarrow> ('a \<Rightarrow> bool) \<Rightarrow> ('e, 'a) res \<times> 's \<Rightarrow> bool" where
  "outcome I T rt \<longleftrightarrow> I (snd rt) \<and> (\<forall>x. fst rt = Ok x \<longrightarrow> T x)"

named_theorems outcome_intros \<open>symbolic execution of methods\<close>

lemma outcomeD: "outcome I T (m s) \<Longrightarrow> m s = (r, t) \<Longrightarrow> I t \<and> (\<forall>x. r = Ok x \<longrightarrow> T x)"
  by (simp add: outcome_def)

lemma outcome_ret [outcome_intros]: "I s \<Longrightarrow> T x \<Longrightarrow> outcome I T (ret x s)"
  by (simp add: outcome_def)

lemma outcome_raise [outcome_intros]: "I s \<Longrightarrow> outcome I T (raise e s)"
  by (simp add: outcome_def)

lemma outcome_modify [outcome_intros]: "I (g s) \<Longrightarrow> T () \<Longrightarrow> outcome I T (modify g s)"
  by (simp add: outcome_def)

lemma outcome_if [outcome_intros]:
  "(b \<Longrightarrow> outcome I T p) \<Longrightarrow> (\<not> b \<Longrightarrow> outcome I T q) \<Longrightarrow> outcome I T (if b then p else q)"
  by simp

lemma outcome_if_method [outcome_intros]:
  "(b \<Longrightarrow> outcome I T (m s)) \<Longrightarrow> (\<not> b \<Longrightarrow> outcome I T (n s)) \<Longrightarrow> outcome I T ((if b then m else n) s)"
  by simp

lemma outcome_bind_call [outcome_intros]:
  "I s \<Longrightarrow> (\<And>x. g s = Ok x \<Longrightarrow> outcome I T (f x s)) \<Longrightarrow> outcome I T (bind_act (call g) f s)"
  by (cases "g s") (simp_all add: bind_act_def outcome_def)

lemma outcome_bind_modify [outcome_intros]: "outcome I T (f () (g s)) \<Longrightarrow> outcome I T (bind_act (modify g) f s)"
  by (simp add: bind_act_def)

lemma outcome_bind_assert [outcome_intros]:
  "I s \<Longrightarrow> (P s = Ok True \<Longrightarrow> outcome I T (f () s)) \<Longrightarrow> outcome I T (bind_act (assert_act P) f s)"
  by (cases "P s") (simp_all add: bind_act_def outcome_def assert_act_def)

lemma outcome_bind:
  "outcome I U (m s) \<Longrightarrow> (\<And>x t. I t \<Longrightarrow> U x \<Longrightarrow> outcome I T (f x t)) \<Longrightarrow> outcome I T (bind_act m f s)"
  by (cases "m s") (auto simp: bind_act_def outcome_def split: res.splits)

lemma assert_act_pass: "P s = Ok True \<Longrightarrow> bind_act (assert_act P) f s = f () s"
  by (simp add: bind_act_def assert_act_def)

lemma assert_act_fail: "P s = Ok False \<Longrightarrow> bind_act (assert_act P) f s = (Err AssertionError, s)"
  by (simp add: bind_act_def assert_act_def)

section \<open>Generators\<close>

datatype 'a gen = GStop | GYield 'a "'a gen" | GForever

fun gen_list :: "'a gen \<Rightarrow> 'a list" where
  "gen_list GStop = []"
| "gen_list (GYield x g) = x # gen_list g"
| "gen_list GForever = []"

fun gen_of :: "'a list \<Rightarrow> 'a gen" where
  "gen_of [] = GStop"
| "gen_of (x # xs) = GYield x (gen_of xs)"

text \<open>\<open>next(islice(g, n, None), d)\<close>: the element at index \<open>n\<close>, or the default.\<close>

fun gen_nth :: "nat \<Rightarrow> 'a \<Rightarrow> 'a gen \<Rightarrow> ('e, 'a) res" where
  "gen_nth n d GStop = Ok d"
| "gen_nth 0 d (GYield x g) = Ok x"
| "gen_nth (Suc n) d (GYield x g) = gen_nth n d g"
| "gen_nth n d GForever = Diverge"

lemma gen_nth_gen_of: "gen_nth n d (gen_of xs) = Ok (if n < length xs then xs ! n else d)"
  by (induction xs arbitrary: n) (auto simp: nth_Cons split: nat.splits elim: gen_nth.elims)

lemma gen_list_gen_of [simp]: "gen_list (gen_of xs) = xs"
  by (induction xs) auto

lemma map_gen_gen_of [simp]: "map_gen f (gen_of xs) = gen_of (map f xs)"
  by (induction xs) auto

section \<open>Bytes\<close>

type_synonym byte = "8 word"
type_synonym bytes = "8 word list"

fun be_bytes :: "nat \<Rightarrow> nat \<Rightarrow> bytes" where
  "be_bytes 0 n = []"
| "be_bytes (Suc l) n = be_bytes l (n div 256) @ [word_of_nat (n mod 256)]"

definition to_bytes :: "nat \<Rightarrow> int \<Rightarrow> (exn, bytes) res" where
  "to_bytes l n = (if 0 \<le> n \<and> n < 256 ^ l then Ok (be_bytes l (nat n)) else Err OverflowError)"

definition from_bytes :: "bytes \<Rightarrow> int" where
  "from_bytes bs = foldl (\<lambda>a b. a * 256 + uint b) 0 bs"

lemma length_be_bytes [simp]: "length (be_bytes l n) = l"
  by (induction l arbitrary: n) auto

lemma from_bytes_snoc: "from_bytes (bs @ [b]) = from_bytes bs * 256 + uint b"
  by (simp add: from_bytes_def)

lemma from_be_bytes: "n < 256 ^ l \<Longrightarrow> from_bytes (be_bytes l n) = int n"
proof (induction l arbitrary: n)
  case 0
  then show ?case by (simp add: from_bytes_def)
next
  case (Suc l)
  then have "from_bytes (be_bytes l (n div 256)) = int (n div 256)"
    by (simp add: less_mult_imp_div_less mult.commute)
  moreover have "uint (word_of_nat (n mod 256) :: byte) = int (n mod 256)"
    by (simp add: unsigned_of_nat take_bit_eq_mod flip: uint_nat)
  moreover have "int (n div 256) * 256 + int (n mod 256) = int n"
    by (metis div_mult_mod_eq of_nat_add of_nat_mult of_nat_numeral)
  ultimately show ?case by (simp add: from_bytes_snoc)
qed

lemma to_bytes_Ok_iff: "to_bytes l n = Ok bs \<longleftrightarrow> 0 \<le> n \<and> n < 256 ^ l \<and> bs = be_bytes l (nat n)"
  by (auto simp: to_bytes_def)

lemma length_to_bytes: "to_bytes l n = Ok bs \<Longrightarrow> length bs = l"
  by (auto simp: to_bytes_Ok_iff)

lemma from_to_bytes: "to_bytes l n = Ok bs \<Longrightarrow> from_bytes bs = n"
  by (auto simp: to_bytes_Ok_iff from_be_bytes nat_less_iff)

lemma to_bytes_inj: "to_bytes l n = Ok bs \<Longrightarrow> to_bytes l m = Ok bs \<Longrightarrow> n = m"
  by (metis from_to_bytes)

lemma to_bytes_not_Diverge [simp]: "to_bytes l n \<noteq> Diverge"
  by (simp add: to_bytes_def)

section \<open>Suffixes of lists\<close>

lemma suffix_of_suffix:
  "suffix xs zs \<Longrightarrow> suffix ys zs \<Longrightarrow> length xs \<le> length ys \<Longrightarrow> suffix xs ys"
  using suffix_length_suffix by blast

lemma suffix_drop_le: "suffix xs ys \<Longrightarrow> length xs + n \<le> length ys \<Longrightarrow> suffix xs (drop n ys)"
  by (rule suffix_of_suffix [of xs ys]) (auto intro: suffix_drop)

lemma distinct_map_splitI:
  "(\<And>us a ys b zs. xs = us @ a # ys @ b # zs \<Longrightarrow> f a \<noteq> f b) \<Longrightarrow> distinct (map f xs)"
proof (induction xs)
  case (Cons x xs)
  have "f x \<noteq> f b" if "b \<in> set xs" for b
  proof -
    from that obtain ys zs where "xs = ys @ b # zs" by (meson split_list)
    then show ?thesis using Cons.prems [of "[]" x ys b zs] by simp
  qed
  moreover have "distinct (map f xs)"
    by (rule Cons.IH) (use Cons.prems [of "x # _"] in auto)
  ultimately show ?case by auto
qed simp

section \<open>Runs of a component\<close>

locale invariant_system =
  fixes step :: "'s \<Rightarrow> 's \<Rightarrow> bool"
    and inv :: "'s \<Rightarrow> bool"
  assumes step_inv: "inv s \<Longrightarrow> step s t \<Longrightarrow> inv t"
begin

lemma run_inv: "step\<^sup>*\<^sup>* s t \<Longrightarrow> inv s \<Longrightarrow> inv t"
  by (induction rule: rtranclp_induct) (auto intro: step_inv)

end

locale monotone_system = invariant_system +
  fixes rel :: "'s \<Rightarrow> 's \<Rightarrow> bool"
  assumes rel_refl: "inv s \<Longrightarrow> rel s s"
    and rel_trans: "inv s \<Longrightarrow> rel s t \<Longrightarrow> rel t u \<Longrightarrow> rel s u"
    and step_rel: "inv s \<Longrightarrow> step s t \<Longrightarrow> rel s t"
begin

lemma run_rel: "step\<^sup>*\<^sup>* s t \<Longrightarrow> inv s \<Longrightarrow> rel s t"
proof (induction rule: rtranclp_induct)
  case base
  then show ?case by (rule rel_refl)
next
  case (step t u)
  then have "inv t" by (blast intro: run_inv)
  with step show ?case by (blast intro: rel_trans step_rel)
qed

end

end
