(* ===== verification/Py_Float.thy ===== *)
theory Py_Float
  imports Prelude
begin

text \<open>
  Python floats. A finite float is the rational number it denotes; every arithmetic operation
  rounds its exact result to 53 significant bits, ties to even, which is \<open>fl\<close>. The exponent range
  is not bounded here: overflow to infinity and subnormal numbers are outside the model.
  The constant and configuration values of the modelled code are far inside that range.
\<close>

fun bit_count :: "nat \<Rightarrow> nat" where
  "bit_count n = (if n = 0 then 0 else Suc (bit_count (n div 2)))"

declare bit_count.simps [simp del]

definition pow2 :: "int \<Rightarrow> rat" where
  "pow2 e = (if 0 \<le> e then 2 ^ nat e else 1 / 2 ^ nat (- e))"

definition round_half_even :: "int \<Rightarrow> int \<Rightarrow> int" where
  "round_half_even p q =
     (let d = p div q; r = p mod q
      in if 2 * r < q \<or> (2 * r = q \<and> even d) then d else d + 1)"

definition fl_pos :: "int \<Rightarrow> int \<Rightarrow> rat" where
  "fl_pos p q =
     (let e0 = int (bit_count (nat p)) - int (bit_count (nat q));
          ge = (if 0 \<le> e0 then q * 2 ^ nat e0 \<le> p else q \<le> p * 2 ^ nat (- e0));
          e = (if ge then e0 else e0 - 1);
          s = 52 - e;
          m = (if 0 \<le> s then round_half_even (p * 2 ^ nat s) q
               else round_half_even p (q * 2 ^ nat (- s)))
      in of_int m * pow2 (- s))"

definition fl :: "rat \<Rightarrow> rat" where
  "fl x = (if x = 0 then 0
           else let (p, q) = quotient_of \<bar>x\<bar> in sgn x * fl_pos p q)"

definition float_div :: "rat \<Rightarrow> rat \<Rightarrow> (exn, rat) res" where
  "float_div a b = (if b = 0 then Err ZeroDivisionError else Ok (fl (a / b)))"

text \<open>\<open>int(x)\<close> truncates towards zero.\<close>

definition int_of_float :: "rat \<Rightarrow> int" where
  "int_of_float x = (if 0 \<le> x then \<lfloor>x\<rfloor> else \<lceil>x\<rceil>)"

text \<open>\<open>a // b\<close> on integers.\<close>

definition floor_div :: "int \<Rightarrow> int \<Rightarrow> (exn, int) res" where
  "floor_div a b = (if b = 0 then Err ZeroDivisionError else Ok (a div b))"

lemma floor_div_Ok_iff [res_simps]: "floor_div a b = Ok c \<longleftrightarrow> b \<noteq> 0 \<and> c = a div b"
  by (auto simp: floor_div_def)

lemma floor_div_not_Diverge [simp]: "floor_div a b \<noteq> Diverge"
  by (simp add: floor_div_def)

lemma float_div_not_Diverge [simp]: "float_div a b \<noteq> Diverge"
  by (simp add: float_div_def)

lemma fl_zero [simp]: "fl 0 = 0"
  by (simp add: fl_def)

end
