(* ===== verification/Ledger.thy ===== *)
theory Ledger
  imports Py_Float
begin

text \<open>
  The data of cryptarchia/cryptarchia.py: configuration, slots and epochs, notes, leader proofs,
  block headers and ledger states.

  \<open>Env\<close> collects what is not code of the repository: the SHA-256 digest, numpy's logarithm, the
  power function of floats, and how many nested calls of \<open>compute_epoch_state\<close> the interpreter
  still allows. Every definition that uses one takes the environment as an argument, so each
  theorem holds for whatever these are, under the hypotheses it names.

  Integers are Python's unbounded ones. Encoding one into a fixed number of bytes raises
  \<open>OverflowError\<close> when it does not fit, so \<open>block_id\<close> and every other hash can raise.
\<close>

record Env =
  sha256 :: "bytes \<Rightarrow> bytes"
  np_log :: "rat \<Rightarrow> rat option"
  float_pow :: "rat \<Rightarrow> rat \<Rightarrow> rat"
  recursion_limit :: nat

type_synonym hash = bytes

definition ascii :: "string \<Rightarrow> bytes" where
  "ascii s = map of_char s"

definition Hash :: "Env \<Rightarrow> string \<Rightarrow> bytes list \<Rightarrow> hash" where
  "Hash E dst data = sha256 E (ascii dst @ concat data)"

section \<open>Epochs, configuration, slots\<close>

datatype Epoch = Epoch (epoch: int)

definition prev :: "Epoch \<Rightarrow> Epoch" where
  "prev e = Epoch (epoch e - 1)"

record TimeConfig =
  slot_duration :: int
  chain_start_time :: int

record Config =
  cfg_k :: int
  active_slot_coeff :: rat
  epoch_stake_distribution_stabilization :: int
  epoch_period_nonce_buffer :: int
  epoch_period_nonce_stabilization :: int
  initial_total_active_stake :: int
  total_active_stake_learning_rate :: rat
  cfg_time :: TimeConfig

definition cryptarchia_v0_0_1 :: "int \<Rightarrow> Config" where
  "cryptarchia_v0_0_1 stake =
     \<lparr>cfg_k = 2160, active_slot_coeff = fl (5 / 100),
      epoch_stake_distribution_stabilization = 3, epoch_period_nonce_buffer = 3,
      epoch_period_nonce_stabilization = 4, initial_total_active_stake = stake,
      total_active_stake_learning_rate = fl (8 / 10),
      cfg_time = \<lparr>slot_duration = 1, chain_start_time = 0\<rparr>\<rparr>"

definition base_period_length :: "Config \<Rightarrow> (exn, int) res" where
  "base_period_length c =
     bind_res (float_div (fl (of_int (cfg_k c))) (active_slot_coeff c)) (\<lambda>x. Ok \<lfloor>x\<rfloor>)"

definition epoch_relative_nonce_slot :: "Config \<Rightarrow> (exn, int) res" where
  "epoch_relative_nonce_slot c =
     bind_res (base_period_length c) (\<lambda>b.
       Ok ((epoch_stake_distribution_stabilization c + epoch_period_nonce_buffer c) * b))"

definition epoch_length :: "Config \<Rightarrow> (exn, int) res" where
  "epoch_length c =
     bind_res (epoch_relative_nonce_slot c) (\<lambda>r.
     bind_res (base_period_length c) (\<lambda>b.
       Ok (r + epoch_period_nonce_stabilization c * b)))"

definition security_param :: "Config \<Rightarrow> (exn, int) res" where
  "security_param c = bind_res (base_period_length c) (\<lambda>b. Ok (b * 3))"

datatype Slot = Slot (absolute_slot: int)

definition slot_lt :: "Slot \<Rightarrow> Slot \<Rightarrow> bool" where
  "slot_lt a b = (absolute_slot a < absolute_slot b)"

instantiation Slot :: linorder
begin

definition less_eq_Slot :: "Slot \<Rightarrow> Slot \<Rightarrow> bool" where
  "less_eq_Slot a b = (absolute_slot a \<le> absolute_slot b)"

definition less_Slot :: "Slot \<Rightarrow> Slot \<Rightarrow> bool" where
  "less_Slot a b = slot_lt a b"

instance
  by standard (auto simp: less_eq_Slot_def less_Slot_def slot_lt_def Slot.expand)

end

lemma slot_less: "a < b \<longleftrightarrow> absolute_slot a < absolute_slot b"
  by (simp add: less_Slot_def slot_lt_def)

definition from_unix_timestamp_s :: "TimeConfig \<Rightarrow> int \<Rightarrow> (exn, Slot) res" where
  "from_unix_timestamp_s c t =
     bind_res (floor_div (t - chain_start_time c) (slot_duration c)) (\<lambda>n. Ok (Slot n))"

definition slot_epoch :: "Config \<Rightarrow> Slot \<Rightarrow> (exn, Epoch) res" where
  "slot_epoch c s =
     bind_res (epoch_length c) (\<lambda>l.
     bind_res (floor_div (absolute_slot s) l) (\<lambda>n. Ok (Epoch n)))"

definition slot_encode :: "Slot \<Rightarrow> (exn, bytes) res" where
  "slot_encode s = to_bytes 8 (absolute_slot s)"

section \<open>Notes and leader proofs\<close>

record Note =
  note_value :: int
  note_sk :: int
  note_nonce :: hash
  note_unit :: hash
  note_state :: hash
  note_zone_id :: hash

definition mk_Note :: "Env \<Rightarrow> int \<Rightarrow> int \<Rightarrow> (exn, Note) res" where
  "mk_Note E v sk =
     (if 0 \<le> v \<and> v \<le> 2 ^ 64
      then Ok \<lparr>note_value = v, note_sk = sk, note_nonce = Hash E ''nonce'' [],
               note_unit = Hash E ''NMO'' [], note_state = Hash E ''state'' [],
               note_zone_id = Hash E ''ZoneID'' []\<rparr>
      else Err AssertionError)"

definition note_pk :: "Note \<Rightarrow> int" where
  "note_pk n = note_sk n"

definition encode_sk :: "Note \<Rightarrow> (exn, bytes) res" where
  "encode_sk n = to_bytes 32 (note_sk n)"

definition encode_pk :: "Note \<Rightarrow> (exn, bytes) res" where
  "encode_pk n = to_bytes 32 (note_pk n)"

definition commitment :: "Env \<Rightarrow> Note \<Rightarrow> (exn, hash) res" where
  "commitment E n =
     bind_res (to_bytes 32 (note_value n)) (\<lambda>value_bytes.
     bind_res (encode_pk n) (\<lambda>pk.
       Ok (Hash E ''NOMOS_NOTE_CM''
             [note_state n, value_bytes, note_unit n, note_nonce n, pk, note_zone_id n])))"

definition nullifier :: "Env \<Rightarrow> Note \<Rightarrow> (exn, hash) res" where
  "nullifier E n =
     bind_res (commitment E n) (\<lambda>cm.
     bind_res (encode_sk n) (\<lambda>sk.
       Ok (Hash E ''NOMOS_NOTE_NF'' [cm, sk])))"

record MockLeaderProof =
  lp_note :: Note
  lp_slot :: Slot
  lp_parent :: hash

definition epoch_nonce_contribution :: "Env \<Rightarrow> MockLeaderProof \<Rightarrow> (exn, hash) res" where
  "epoch_nonce_contribution E p =
     bind_res (slot_encode (lp_slot p)) (\<lambda>s.
     bind_res (commitment E (lp_note p)) (\<lambda>cm.
     bind_res (encode_sk (lp_note p)) (\<lambda>sk.
       Ok (Hash E ''NOMOS_NONCE_CONTRIB'' [s, cm, sk]))))"

definition verify_leader_proof ::
    "Env \<Rightarrow> MockLeaderProof \<Rightarrow> Slot \<Rightarrow> hash \<Rightarrow> hash set \<Rightarrow> hash set \<Rightarrow> (exn, bool) res" where
  "verify_leader_proof E p s par cms nfs =
     (if s = lp_slot p \<and> par = lp_parent p
      then bind_res (commitment E (lp_note p)) (\<lambda>cm.
             if cm \<in> cms
             then bind_res (nullifier E (lp_note p)) (\<lambda>nf. Ok (nf \<notin> nfs))
             else Ok False)
      else Ok False)"

section \<open>Block headers\<close>

record BlockHeader =
  bh_slot :: Slot
  bh_parent :: hash
  content_size :: int
  content_id :: bytes
  leader_proof :: MockLeaderProof

definition block_id :: "Env \<Rightarrow> BlockHeader \<Rightarrow> (exn, hash) res" where
  "block_id E b =
     bind_res (to_bytes 4 (content_size b)) (\<lambda>size.
     bind_res (slot_encode (bh_slot b)) (\<lambda>s.
     bind_res (epoch_nonce_contribution E (leader_proof b)) (\<lambda>c.
       Ok (Hash E ''BLOCK_ID'' [[1], size, content_id b, s, bh_parent b, c]))))"

section \<open>Ledger states\<close>

record LedgerState =
  ls_block :: BlockHeader
  ls_nonce :: "hash option"
  commitments :: "hash set"
  nullifiers :: "hash set"
  leader_count :: int

definition apply_block :: "Env \<Rightarrow> LedgerState \<Rightarrow> BlockHeader \<Rightarrow> (exn, LedgerState) res" where
  "apply_block E st b =
     bind_res (block_id E (ls_block st)) (\<lambda>i.
     bind_res (assert_res (bh_parent b = i) AssertionError) (\<lambda>_.
     bind_res (epoch_nonce_contribution E (leader_proof b)) (\<lambda>c.
     bind_res (slot_encode (bh_slot b)) (\<lambda>s.
     case ls_nonce st of
       None \<Rightarrow> Err TypeError
     | Some n \<Rightarrow> Ok (st\<lparr>ls_nonce := Some (Hash E ''EPOCH_NONCE'' [n, c, s]),
                       leader_count := leader_count st + 1, ls_block := b\<rparr>)))))"

record EpochState =
  es_stake_distribution_snapshot :: LedgerState
  es_nonce_snapshot :: LedgerState
  inferred_total_active_stake :: int

definition total_active_stake :: "EpochState \<Rightarrow> int" where
  "total_active_stake e = inferred_total_active_stake e"

definition es_nonce :: "EpochState \<Rightarrow> hash option" where
  "es_nonce e = ls_nonce (es_nonce_snapshot e)"

section \<open>Facts about encodings and identifiers\<close>

lemma slot_encode_not_Diverge [simp]: "slot_encode s \<noteq> Diverge"
  by (simp add: slot_encode_def)

lemma commitment_not_Diverge [simp]: "commitment E n \<noteq> Diverge"
  by (simp add: commitment_def encode_pk_def res_simps)

lemma nullifier_not_Diverge [simp]: "nullifier E n \<noteq> Diverge"
  by (simp add: nullifier_def encode_sk_def res_simps)

lemma verify_leader_proof_not_Diverge [simp]: "verify_leader_proof E p s par cms nfs \<noteq> Diverge"
  by (auto simp: verify_leader_proof_def res_simps)

lemma epoch_nonce_contribution_not_Diverge [simp]: "epoch_nonce_contribution E p \<noteq> Diverge"
  by (simp add: epoch_nonce_contribution_def encode_sk_def res_simps)

lemma block_id_not_Diverge [simp]: "block_id E b \<noteq> Diverge"
  by (simp add: block_id_def res_simps)

lemma apply_block_not_Diverge [simp]: "apply_block E st b \<noteq> Diverge"
  by (auto simp: apply_block_def assert_res_def res_simps split: option.splits)

text \<open>An applied block only changes the tip, the nonce and the leader count.\<close>

lemma apply_block_fields:
  assumes "apply_block E st b = Ok st'"
  shows "ls_block st' = b" and "commitments st' = commitments st"
    and "nullifiers st' = nullifiers st" and "leader_count st' = leader_count st + 1"
    and "ls_nonce st' \<noteq> None" and "block_id E (ls_block st) = Ok (bh_parent b)"
  using assms by (auto simp: apply_block_def res_simps split: option.splits)

text \<open>
  Applying a block whose parent is the state's own block fails only when the state has no nonce:
  the block's identifier was computable, so its parts are.
\<close>

lemma apply_block_Ok:
  assumes "block_id E b = Ok i" and "block_id E (ls_block st) = Ok (bh_parent b)"
    and "ls_nonce st \<noteq> None"
  shows "\<exists>st'. apply_block E st b = Ok st'"
  using assms by (auto simp: apply_block_def block_id_def[of E b] res_simps)

end
