(* ===== verification/Block_Tree.thy ===== *)
theory Block_Tree
  imports Ledger
begin

text \<open>
  The block tree of cryptarchia/cryptarchia.py: the dictionary \<open>states\<close> from block identifiers to
  ledger states, and the queries on it (\<open>height\<close>, \<open>iter_chain\<close>, \<open>is_ancestor\<close>,
  \<open>common_prefix_depth\<close>, \<open>chain_density\<close>, \<open>block_children\<close>).

  A Python dict keeps insertion order, and \<open>blocks_by_slot\<close> shows that order, so the dictionary is
  an association list in insertion order. \<open>iter_chain\<close> walks parent links until it leaves the
  dictionary; on a cycle it would walk forever. Unrolling it \<open>length S + 1\<close> times sees every state
  of the dictionary, so a consumer that has not stopped by then never stops: its result is
  \<open>Diverge\<close>.

  \<open>wf_states\<close> is what insertion by \<open>on_block\<close> guarantees (keys are the blocks' identifiers, no
  state's parent is its own or a later key); \<open>tree_ok\<close> adds the root. Under them the walks
  terminate, \<open>chain S tip\<close> is the list of states from the tip to the root, and the queries are
  characterised by it.
\<close>

section \<open>The dictionary and its queries\<close>

type_synonym states = "(hash \<times> LedgerState) list"

abbreviation parent_of :: "LedgerState \<Rightarrow> hash" where
  "parent_of st \<equiv> bh_parent (ls_block st)"

fun iter_chain :: "nat \<Rightarrow> hash \<Rightarrow> states \<Rightarrow> LedgerState gen" where
  "iter_chain 0 tip S = (case map_of S tip of None \<Rightarrow> GStop | Some _ \<Rightarrow> GForever)"
| "iter_chain (Suc n) tip S =
     (case map_of S tip of None \<Rightarrow> GStop
      | Some st \<Rightarrow> GYield st (iter_chain n (parent_of st) S))"

definition chain_bound :: "states \<Rightarrow> nat" where
  "chain_bound S = Suc (length S)"

definition iter_chain_blocks :: "nat \<Rightarrow> hash \<Rightarrow> states \<Rightarrow> BlockHeader gen" where
  "iter_chain_blocks n tip S = map_gen ls_block (iter_chain n tip S)"

fun height_loop :: "nat \<Rightarrow> int \<Rightarrow> hash \<Rightarrow> states \<Rightarrow> (exn, int) res" where
  "height_loop 0 h b S = (case map_of S b of None \<Rightarrow> Ok h | Some _ \<Rightarrow> Diverge)"
| "height_loop (Suc n) h b S =
     (case map_of S b of None \<Rightarrow> Ok h | Some st \<Rightarrow> height_loop n (h + 1) (parent_of st) S)"

definition height :: "hash \<Rightarrow> states \<Rightarrow> (exn, int) res" where
  "height b S =
     (case map_of S b of None \<Rightarrow> Err ValueError | Some _ \<Rightarrow> height_loop (chain_bound S) 0 b S)"

fun is_ancestor_gen :: "Env \<Rightarrow> hash \<Rightarrow> LedgerState gen \<Rightarrow> (exn, bool) res" where
  "is_ancestor_gen E a GStop = Ok False"
| "is_ancestor_gen E a (GYield st g) =
     bind_res (block_id E (ls_block st)) (\<lambda>i. if i = a then Ok True else is_ancestor_gen E a g)"
| "is_ancestor_gen E a GForever = Diverge"

definition is_ancestor :: "Env \<Rightarrow> hash \<Rightarrow> hash \<Rightarrow> states \<Rightarrow> (exn, bool) res" where
  "is_ancestor E a b S = is_ancestor_gen E a (iter_chain (chain_bound S) b S)"

type_synonym prefix_depth = "nat \<times> BlockHeader list \<times> nat \<times> BlockHeader list"

text \<open>
  The loop of \<open>common_prefix_depth\<close>: \<open>cpd_a\<close> is the turn of the first chain, \<open>cpd_b\<close> that of the
  second. Once both generators are exhausted without a common block nothing changes any more and
  the \<open>while True\<close> runs forever.
\<close>

function cpd_a ::
    "Env \<Rightarrow> BlockHeader gen \<Rightarrow> BlockHeader gen \<Rightarrow> (hash \<Rightarrow> nat option) \<Rightarrow>
     BlockHeader list \<Rightarrow> BlockHeader list \<Rightarrow> nat \<Rightarrow> (exn, prefix_depth) res"
  and cpd_b ::
    "Env \<Rightarrow> BlockHeader gen \<Rightarrow> BlockHeader gen \<Rightarrow> (hash \<Rightarrow> nat option) \<Rightarrow>
     BlockHeader list \<Rightarrow> BlockHeader list \<Rightarrow> nat \<Rightarrow> (exn, prefix_depth) res" where
  "cpd_a E ga gb seen as bs d =
     (case ga of
        GForever \<Rightarrow> Diverge
      | GStop \<Rightarrow> (case gb of GStop \<Rightarrow> Diverge | _ \<Rightarrow> cpd_b E GStop gb seen as bs d)
      | GYield a ga' \<Rightarrow>
          bind_res (block_id E a) (\<lambda>i.
            case seen i of
              Some n \<Rightarrow> Ok (d, rev (take (d + 1) (as @ [a])), n, rev (take (n + 1) bs))
            | None \<Rightarrow> cpd_b E ga' gb (seen(i \<mapsto> d)) (as @ [a]) bs d))"
| "cpd_b E ga gb seen as bs d =
     (case gb of
        GForever \<Rightarrow> Diverge
      | GStop \<Rightarrow> cpd_a E ga GStop seen as bs (d + 1)
      | GYield b gb' \<Rightarrow>
          bind_res (block_id E b) (\<lambda>i.
            case seen i of
              Some n \<Rightarrow> Ok (n, rev (take (n + 1) as), d, rev (take (d + 1) (bs @ [b])))
            | None \<Rightarrow> cpd_a E ga gb' (seen(i \<mapsto> d)) as (bs @ [b]) (d + 1)))"
  by pat_completeness auto
termination
  by (relation "measure (\<lambda>x. case x of
        Inl (E, ga, gb, seen, as, bs, d) \<Rightarrow> 3 * (size ga + size gb) + 1
      | Inr (E, ga, gb, seen, as, bs, d) \<Rightarrow>
          3 * (size ga + size gb) + (case gb of GStop \<Rightarrow> 2 | _ \<Rightarrow> 0))")
     (auto split: gen.splits)

declare cpd_a.simps [simp del] cpd_b.simps [simp del]

definition common_prefix_depth :: "Env \<Rightarrow> hash \<Rightarrow> hash \<Rightarrow> states \<Rightarrow> (exn, prefix_depth) res" where
  "common_prefix_depth E a b S =
     cpd_a E (iter_chain_blocks (chain_bound S) a S) (iter_chain_blocks (chain_bound S) b S)
       Map.empty [] [] 0"

definition chain_density :: "BlockHeader list \<Rightarrow> Slot \<Rightarrow> nat" where
  "chain_density chain s = length (filter (\<lambda>b. bh_slot b < s) chain)"

definition block_children :: "states \<Rightarrow> hash \<Rightarrow> hash set" where
  "block_children S =
     foldl (\<lambda>ch (c, st). ch(parent_of st := insert c (ch (parent_of st)))) (\<lambda>_. {}) S"

section \<open>Well-formed dictionaries\<close>

definition keys :: "states \<Rightarrow> hash set" where
  "keys S = fst ` set S"

fun wf_rev :: "Env \<Rightarrow> states \<Rightarrow> bool" where
  "wf_rev E [] = True"
| "wf_rev E ((k, st) # S) =
     (block_id E (ls_block st) = Ok k \<and> k \<notin> fst ` set S \<and> parent_of st \<noteq> k \<and>
      list_all (\<lambda>(_, st'). parent_of st' \<noteq> k) S \<and> wf_rev E S)"

definition wf_states :: "Env \<Rightarrow> states \<Rightarrow> bool" where
  "wf_states E S = wf_rev E (rev S)"

definition rooted :: "hash \<Rightarrow> states \<Rightarrow> bool" where
  "rooted g S = list_all (\<lambda>(k, st). k = g \<or> parent_of st \<in> keys S) S"

definition tree_ok :: "Env \<Rightarrow> hash \<Rightarrow> states \<Rightarrow> bool" where
  "tree_ok E g S \<longleftrightarrow> wf_states E S \<and> g \<in> keys S \<and> rooted g S"

definition chain :: "states \<Rightarrow> hash \<Rightarrow> LedgerState list" where
  "chain S tip = gen_list (iter_chain (chain_bound S) tip S)"

definition the_id :: "Env \<Rightarrow> BlockHeader \<Rightarrow> hash" where
  "the_id E b = (case block_id E b of Ok i \<Rightarrow> i | _ \<Rightarrow> [])"

definition chain_ids :: "Env \<Rightarrow> states \<Rightarrow> hash \<Rightarrow> hash list" where
  "chain_ids E S tip = map (\<lambda>st. the_id E (ls_block st)) (chain S tip)"

lemma wf_states_Nil [simp]: "wf_states E []"
  by (simp add: wf_states_def)

lemma wf_states_snoc:
  "wf_states E (S @ [(k, st)]) \<longleftrightarrow>
     block_id E (ls_block st) = Ok k \<and> k \<notin> keys S \<and> parent_of st \<noteq> k \<and>
     (\<forall>(k', st') \<in> set S. parent_of st' \<noteq> k) \<and> wf_states E S"
  by (auto simp: wf_states_def list_all_iff keys_def)

lemma keys_dom: "map_of S k \<noteq> None \<longleftrightarrow> k \<in> keys S"
  by (auto simp: keys_def map_of_eq_None_iff)

lemma keys_None: "map_of S k = None \<longleftrightarrow> k \<notin> keys S"
  by (auto simp: keys_def map_of_eq_None_iff)

lemma keys_Some: "map_of S k = Some st \<Longrightarrow> k \<in> keys S"
  by (metis keys_dom option.distinct(1))

lemma keysE: "k \<in> keys S \<Longrightarrow> (\<And>st. map_of S k = Some st \<Longrightarrow> thesis) \<Longrightarrow> thesis"
  by (metis keys_dom not_None_eq)

lemma keys_snoc [simp]: "keys (S @ [(k, st)]) = insert k (keys S)"
  by (auto simp: keys_def)

lemma map_of_snoc: "k \<notin> keys S \<Longrightarrow> map_of (S @ [(k, st)]) = (map_of S)(k \<mapsto> st)"
  by (auto simp: fun_eq_iff map_of_append map_add_def dest: keys_Some split: option.splits)

lemma wf_block_id: "wf_states E S \<Longrightarrow> (k, st) \<in> set S \<Longrightarrow> block_id E (ls_block st) = Ok k"
  by (induction S rule: rev_induct) (auto simp: wf_states_snoc)

lemma wf_map_of_id: "wf_states E S \<Longrightarrow> map_of S k = Some st \<Longrightarrow> block_id E (ls_block st) = Ok k"
  by (blast intro: wf_block_id map_of_SomeD)

lemma wf_distinct: "wf_states E S \<Longrightarrow> distinct (map fst S)"
  by (induction S rule: rev_induct) (force simp: wf_states_snoc keys_def)+

lemma wf_the_id: "wf_states E S \<Longrightarrow> map_of S k = Some st \<Longrightarrow> the_id E (ls_block st) = k"
  by (simp add: the_id_def wf_map_of_id)

section \<open>Chains\<close>

inductive chain_of :: "states \<Rightarrow> hash \<Rightarrow> LedgerState list \<Rightarrow> bool" for S where
  chain_stop: "map_of S tip = None \<Longrightarrow> chain_of S tip []"
| chain_step: "map_of S tip = Some st \<Longrightarrow> chain_of S (parent_of st) cs \<Longrightarrow> chain_of S tip (st # cs)"

inductive_simps chain_of_Nil: "chain_of S tip []"
inductive_simps chain_of_Cons: "chain_of S tip (st # cs)"

lemma chain_of_det: "chain_of S tip cs \<Longrightarrow> chain_of S tip ds \<Longrightarrow> cs = ds"
proof (induction arbitrary: ds rule: chain_of.induct)
  case (chain_stop tip)
  from chain_stop.prems chain_stop.hyps show ?case
    by cases auto
next
  case (chain_step tip st cs)
  from chain_step.prems chain_step.hyps(1) obtain ds' where "ds = st # ds'" "chain_of S (parent_of st) ds'"
    by cases auto
  with chain_step.IH show ?case by simp
qed

lemma iter_chain_chain_of: "chain_of S tip cs \<Longrightarrow> length cs \<le> n \<Longrightarrow> iter_chain n tip S = gen_of cs"
proof (induction arbitrary: n rule: chain_of.induct)
  case (chain_stop tip)
  then show ?case by (cases n) auto
next
  case (chain_step tip st cs)
  then show ?case by (cases n) auto
qed

lemma chain_of_snoc:
  assumes "chain_of S tip cs" and "k \<notin> keys S" and "\<forall>(k', st') \<in> set S. parent_of st' \<noteq> k"
    and "tip \<noteq> k"
  shows "chain_of (S @ [(k, st)]) tip cs"
  using assms
proof (induction rule: chain_of.induct)
  case (chain_stop tip)
  then show ?case by (auto intro!: chain_of.chain_stop simp: map_of_snoc)
next
  case (chain_step tip st' cs)
  from chain_step.hyps(1) have "(tip, st') \<in> set S" by (rule map_of_SomeD)
  with chain_step.prems have "parent_of st' \<noteq> k" by auto
  with chain_step show ?case
    by (auto intro!: chain_of.chain_step simp: map_of_snoc)
qed

lemma wf_chain_of: "wf_states E S \<Longrightarrow> \<exists>cs. chain_of S tip cs \<and> length cs \<le> length S"
proof (induction S arbitrary: tip rule: rev_induct)
  case Nil
  then show ?case by (auto intro: chain_of.chain_stop)
next
  case (snoc x S)
  obtain k st where x: "x = (k, st)" by (cases x)
  from snoc.prems have wf: "wf_states E S" and k: "k \<notin> keys S" "parent_of st \<noteq> k"
      "\<forall>(k', st') \<in> set S. parent_of st' \<noteq> k"
    by (auto simp: x wf_states_snoc)
  have lift: "chain_of (S @ [(k, st)]) t cs" if "chain_of S t cs" "t \<noteq> k" for t cs
    using that k by (blast intro: chain_of_snoc)
  show ?case
  proof (cases "tip = k")
    case True
    from snoc.IH [OF wf] obtain cs where cs: "chain_of S (parent_of st) cs" "length cs \<le> length S"
      by blast
    with k have "chain_of (S @ [(k, st)]) (parent_of st) cs" by (blast intro: lift)
    then have "chain_of (S @ [(k, st)]) k (st # cs)"
      by (rule chain_of.chain_step [rotated]) (simp add: map_of_snoc k)
    with cs True show ?thesis by (auto simp: x)
  next
    case False
    from snoc.IH [OF wf] obtain cs where "chain_of S tip cs" "length cs \<le> length S"
      by blast
    with False show ?thesis by (auto simp: x intro: lift)
  qed
qed

lemma wf_chain:
  assumes "wf_states E S"
  shows chain_of_chain: "chain_of S tip (chain S tip)" and length_chain: "length (chain S tip) \<le> length S"
proof -
  from wf_chain_of [OF assms] obtain cs where cs: "chain_of S tip cs" "length cs \<le> length S" by blast
  then have "iter_chain (chain_bound S) tip S = gen_of cs"
    by (intro iter_chain_chain_of) (auto simp: chain_bound_def)
  then have "chain S tip = cs" by (simp add: chain_def)
  with cs show "chain_of S tip (chain S tip)" "length (chain S tip) \<le> length S" by auto
qed

lemma chain_eqI: "wf_states E S \<Longrightarrow> chain_of S tip cs \<Longrightarrow> chain S tip = cs"
  using chain_of_chain chain_of_det by blast

lemma iter_chain_eq: "wf_states E S \<Longrightarrow> length S \<le> n \<Longrightarrow> iter_chain n tip S = gen_of (chain S tip)"
  by (meson chain_of_chain iter_chain_chain_of le_trans length_chain)

lemma iter_chain_bound_eq: "wf_states E S \<Longrightarrow> iter_chain (chain_bound S) tip S = gen_of (chain S tip)"
  by (rule iter_chain_eq) (auto simp: chain_bound_def)

lemma iter_chain_blocks_eq:
  "wf_states E S \<Longrightarrow> iter_chain_blocks (chain_bound S) tip S = gen_of (map ls_block (chain S tip))"
  by (simp add: iter_chain_blocks_def iter_chain_bound_eq)

lemma chain_None: "wf_states E S \<Longrightarrow> tip \<notin> keys S \<Longrightarrow> chain S tip = []"
  by (rule chain_eqI) (auto intro: chain_of.chain_stop simp: keys_None)

lemma chain_Some:
  "wf_states E S \<Longrightarrow> map_of S tip = Some st \<Longrightarrow> chain S tip = st # chain S (parent_of st)"
  by (rule chain_eqI) (auto intro: chain_of.chain_step chain_of_chain)

lemma chain_Nil_iff: "wf_states E S \<Longrightarrow> chain S tip = [] \<longleftrightarrow> tip \<notin> keys S"
  by (metis chain_None chain_Some keysE list.distinct(1))

text \<open>Every state on a chain is stored under its block's identifier, and starts a suffix of the chain.\<close>

lemma chain_of_suffix:
  "chain_of S tip cs \<Longrightarrow> cs = us @ st # rest \<Longrightarrow> \<exists>k. map_of S k = Some st \<and> chain_of S k (st # rest)"
proof (induction arbitrary: us rule: chain_of.induct)
  case (chain_step tip st' cs)
  then show ?case
    by (cases us) (auto intro: chain_of.chain_step)
qed simp

lemma chain_split:
  assumes "wf_states E S" and "chain S tip = us @ st # rest"
  shows "map_of S (the_id E (ls_block st)) = Some st"
    and "chain S (the_id E (ls_block st)) = st # rest"
proof -
  from chain_of_suffix [OF chain_of_chain [OF assms(1)] assms(2)]
  obtain k where k: "map_of S k = Some st" "chain_of S k (st # rest)" by blast
  moreover from k assms(1) have "the_id E (ls_block st) = k" by (simp add: wf_the_id)
  ultimately show "map_of S (the_id E (ls_block st)) = Some st"
      and "chain S (the_id E (ls_block st)) = st # rest"
    using assms(1) by (auto intro: chain_eqI)
qed

lemma chain_mem:
  assumes "wf_states E S" and "st \<in> set (chain S tip)"
  shows "map_of S (the_id E (ls_block st)) = Some st"
    and "block_id E (ls_block st) = Ok (the_id E (ls_block st))"
proof -
  from assms(2) obtain us rest where "chain S tip = us @ st # rest" by (meson split_list)
  then show m: "map_of S (the_id E (ls_block st)) = Some st"
    by (rule chain_split(1) [OF assms(1)])
  then show "block_id E (ls_block st) = Ok (the_id E (ls_block st))"
    by (rule wf_map_of_id [OF assms(1)])
qed

lemma chain_ids_subset: "wf_states E S \<Longrightarrow> set (chain_ids E S tip) \<subseteq> keys S"
  by (auto simp: chain_ids_def dest: chain_mem keys_Some)

lemma chain_ids_Some:
  "wf_states E S \<Longrightarrow> map_of S tip = Some st \<Longrightarrow> chain_ids E S tip = tip # chain_ids E S (parent_of st)"
  by (simp add: chain_ids_def chain_Some wf_the_id)

lemma tip_in_chain_ids: "wf_states E S \<Longrightarrow> tip \<in> keys S \<Longrightarrow> tip \<in> set (chain_ids E S tip)"
  by (auto elim: keysE simp: chain_ids_Some)

text \<open>\<open>a\<close> is on the chain of \<open>b\<close> exactly when the chain of \<open>a\<close> ends the chain of \<open>b\<close>.\<close>

lemma in_chain_ids_split:
  assumes "wf_states E S" and "a \<in> set (chain_ids E S b)"
  shows "\<exists>us. chain S b = us @ chain S a"
proof -
  from assms(2) obtain st where st: "st \<in> set (chain S b)" "a = the_id E (ls_block st)"
    by (auto simp: chain_ids_def)
  then obtain us rest where "chain S b = us @ st # rest" by (meson split_list)
  with chain_split(2) [OF assms(1) this] st show ?thesis by auto
qed

lemma anc_iff_suffix:
  assumes "wf_states E S" and "a \<in> keys S"
  shows "a \<in> set (chain_ids E S b) \<longleftrightarrow> suffix (chain S a) (chain S b)"
proof
  assume "a \<in> set (chain_ids E S b)"
  from in_chain_ids_split [OF assms(1) this] show "suffix (chain S a) (chain S b)"
    by (auto simp: suffix_def)
next
  assume "suffix (chain S a) (chain S b)"
  then have "set (chain_ids E S a) \<subseteq> set (chain_ids E S b)"
    by (auto simp: chain_ids_def suffix_def)
  with tip_in_chain_ids [OF assms] show "a \<in> set (chain_ids E S b)" by blast
qed

lemma distinct_chain_ids:
  assumes "wf_states E S"
  shows "distinct (chain_ids E S tip)"
  unfolding chain_ids_def
proof (rule distinct_map_splitI)
  fix us a ys b zs
  assume c: "chain S tip = us @ a # ys @ b # zs"
  show "the_id E (ls_block a) \<noteq> the_id E (ls_block b)"
  proof
    assume eq: "the_id E (ls_block a) = the_id E (ls_block b)"
    have "chain S (the_id E (ls_block a)) = a # ys @ b # zs"
      using chain_split(2) [OF assms c] .
    moreover have "chain S (the_id E (ls_block b)) = b # zs"
      using chain_split(2) [OF assms, of tip "us @ a # ys" b zs] c by simp
    ultimately have "length (a # ys @ b # zs) = length (b # zs)" using eq by metis
    then show False by simp
  qed
qed

end
