(* ===== verification/Chain_Queries.thy ===== *)
theory Chain_Queries
  imports Block_Tree
begin

text \<open>
  What the queries on the block tree compute, in terms of \<open>chain\<close>: \<open>height\<close> is its length,
  \<open>is_ancestor\<close> is membership, and \<open>common_prefix_depth\<close> finds the deepest common block with the
  two branches above it. The locale \<open>fork_tree\<close> is the contract the fork choice rules rely on,
  interpreted here on the block tree.
\<close>

section \<open>Height and ancestry\<close>

lemma height_loop_chain_of:
  "chain_of S b cs \<Longrightarrow> length cs \<le> n \<Longrightarrow> height_loop n h b S = Ok (h + int (length cs))"
proof (induction arbitrary: n h rule: chain_of.induct)
  case (chain_stop tip)
  then show ?case by (cases n) auto
next
  case (chain_step tip st cs)
  then show ?case by (cases n) auto
qed

lemma height_eq:
  "wf_states E S \<Longrightarrow> b \<in> keys S \<Longrightarrow> height b S = Ok (int (length (chain S b)))"
  using height_loop_chain_of [OF chain_of_chain, of E S b "chain_bound S" 0]
  by (auto simp: height_def chain_bound_def le_SucI length_chain elim!: keysE)

lemma is_ancestor_gen_of:
  "(\<And>st. st \<in> set cs \<Longrightarrow> block_id E (ls_block st) = Ok (the_id E (ls_block st))) \<Longrightarrow>
   is_ancestor_gen E a (gen_of cs) = Ok (a \<in> (\<lambda>st. the_id E (ls_block st)) ` set cs)"
  by (induction cs) auto

lemma is_ancestor_eq:
  assumes "wf_states E S"
  shows "is_ancestor E a b S = Ok (a \<in> set (chain_ids E S b))"
proof -
  have "is_ancestor_gen E a (gen_of (chain S b)) = Ok (a \<in> set (chain_ids E S b))"
    unfolding chain_ids_def set_map using chain_mem(2) [OF assms]
    by (intro is_ancestor_gen_of) auto
  then show ?thesis
    using assms by (simp add: is_ancestor_def iter_chain_bound_eq)
qed

lemma distinct_chain: "wf_states E S \<Longrightarrow> distinct (chain S tip)"
  using distinct_chain_ids [of E S tip] by (simp add: chain_ids_def distinct_map)

lemma chain_of_root:
  assumes "chain_of S b cs" and "b \<in> keys S" and "rooted g S" and "g \<in> keys S"
  shows "\<exists>us. \<exists>gs. cs = us @ gs \<and> chain_of S g gs"
  using assms
proof (induction rule: chain_of.induct)
  case (chain_step tip st cs)
  from chain_step.hyps(1) have "(tip, st) \<in> set S" by (rule map_of_SomeD)
  with chain_step.prems have "tip = g \<or> parent_of st \<in> keys S"
    by (auto simp: rooted_def list_all_iff)
  then show ?case
  proof
    assume "tip = g"
    with chain_step.hyps have "chain_of S g (st # cs)" by (auto intro: chain_of.chain_step)
    then show ?thesis by (metis append_Nil)
  next
    assume "parent_of st \<in> keys S"
    with chain_step.IH chain_step.prems obtain us gs where "cs = us @ gs" "chain_of S g gs" by blast
    then show ?thesis by (metis append_Cons)
  qed
qed (simp add: keys_None)

lemma chain_root:
  assumes "tree_ok E g S" and "b \<in> keys S"
  shows "suffix (chain S g) (chain S b)"
proof -
  from assms have wf: "wf_states E S" "rooted g S" "g \<in> keys S" by (auto simp: tree_ok_def)
  from chain_of_root [OF chain_of_chain [OF wf(1)] assms(2) wf(2,3)]
  show ?thesis by (auto simp: suffix_def dest: chain_eqI [OF wf(1)])
qed

section \<open>The common prefix\<close>

text \<open>
  Two lists of headers fork at \<open>c\<close>: above it they have no block in common, from it on they agree.
\<close>

definition forked ::
    "(BlockHeader \<Rightarrow> hash) \<Rightarrow> BlockHeader list \<Rightarrow> BlockHeader list \<Rightarrow>
     BlockHeader list \<Rightarrow> BlockHeader list \<Rightarrow> BlockHeader \<Rightarrow> BlockHeader list \<Rightarrow> bool" where
  "forked f A B us vs c rest \<longleftrightarrow>
     A = us @ c # rest \<and> B = vs @ c # rest \<and> distinct (map f A) \<and> distinct (map f B) \<and>
     f ` set us \<inter> f ` set B = {} \<and> f ` set vs \<inter> f ` set A = {}"

definition seen_inv ::
    "(BlockHeader \<Rightarrow> hash) \<Rightarrow> BlockHeader list \<Rightarrow> BlockHeader list \<Rightarrow>
     (hash \<Rightarrow> nat option) \<Rightarrow> nat \<Rightarrow> nat \<Rightarrow> bool" where
  "seen_inv f A B seen n m \<longleftrightarrow>
     (\<forall>i j. seen i = Some j \<longleftrightarrow>
        (j < n \<and> j < length A \<and> f (A ! j) = i) \<or> (j < m \<and> j < length B \<and> f (B ! j) = i))"

lemma gen_of_drop:
  "gen_of (drop d xs) = (if d < length xs then GYield (xs ! d) (gen_of (drop (Suc d) xs)) else GStop)"
  by (simp add: Cons_nth_drop_Suc [symmetric])

lemma forked_A_new:
  assumes "forked f A B us vs c rest" and "d \<le> max (length us) (length vs)" and "d < length A"
    and "\<not> (d = length us \<and> length vs < d)" and "j < d"
  shows "f (A ! j) \<noteq> f (A ! d)" and "j < length B \<Longrightarrow> f (B ! j) \<noteq> f (A ! d)"
proof -
  from assms(1) have A: "A = us @ c # rest" and B: "B = vs @ c # rest" and dA: "distinct (map f A)"
      and us: "f ` set us \<inter> f ` set B = {}" and vs: "f ` set vs \<inter> f ` set A = {}"
    by (auto simp: forked_def)
  from dA assms(3,5) show "f (A ! j) \<noteq> f (A ! d)"
    using nth_eq_iff_index_eq [OF dA, of j d] by (auto simp: nth_map)
  assume j: "j < length B"
  show "f (B ! j) \<noteq> f (A ! d)"
  proof (cases "d < length us")
    case True
    then have "A ! d \<in> set us" by (simp add: A nth_append)
    moreover from j have "B ! j \<in> set B" by simp
    ultimately show ?thesis using us by (metis IntI empty_iff imageI)
  next
    case False
    with assms(2,4,5) have "j < length vs" by linarith
    then have "B ! j \<in> set vs" by (simp add: B nth_append)
    moreover from assms(3) have "A ! d \<in> set A" by simp
    ultimately show ?thesis using vs by (metis IntI empty_iff imageI)
  qed
qed

lemma forked_sym: "forked f A B us vs c rest \<Longrightarrow> forked f B A vs us c rest"
  by (auto simp: forked_def)

lemma seen_inv_sym: "seen_inv f A B seen n m \<Longrightarrow> seen_inv f B A seen m n"
  by (auto simp: seen_inv_def)

lemma forked_B_new:
  assumes "forked f A B us vs c rest" and "d \<le> max (length us) (length vs)" and "d < length B"
    and "\<not> (d = length vs \<and> length us \<le> d)" and "\<not> (d = length us \<and> length vs < d)"
  shows "j < d \<Longrightarrow> f (B ! j) \<noteq> f (B ! d)" and "j < Suc d \<Longrightarrow> j < length A \<Longrightarrow> f (A ! j) \<noteq> f (B ! d)"
proof -
  from assms(1) have A: "A = us @ c # rest" and B: "B = vs @ c # rest" and dB: "distinct (map f B)"
      and us: "f ` set us \<inter> f ` set B = {}" and vs: "f ` set vs \<inter> f ` set A = {}"
    by (auto simp: forked_def)
  show "f (B ! j) \<noteq> f (B ! d)" if "j < d"
    using nth_eq_iff_index_eq [OF dB, of j d] assms(3) that by (auto simp: nth_map)
  show "f (A ! j) \<noteq> f (B ! d)" if j: "j < Suc d" "j < length A"
  proof (cases "d < length vs")
    case True
    then have "B ! d \<in> set vs" by (simp add: B nth_append)
    moreover from j have "A ! j \<in> set A" by simp
    ultimately show ?thesis using vs by (metis IntI empty_iff imageI)
  next
    case False
    with assms(2,4,5) j have "j < length us" by linarith
    then have "A ! j \<in> set us" by (simp add: A nth_append)
    moreover from assms(3) have "B ! d \<in> set B" by simp
    ultimately show ?thesis using us by (metis IntI empty_iff imageI)
  qed
qed

lemma seen_inv_None:
  assumes "seen_inv f A B seen n m"
    and "\<And>j. j < n \<Longrightarrow> j < length A \<Longrightarrow> f (A ! j) \<noteq> i"
    and "\<And>j. j < m \<Longrightarrow> j < length B \<Longrightarrow> f (B ! j) \<noteq> i"
  shows "seen i = None"
proof (cases "seen i")
  case (Some j)
  with assms(1) have "(j < n \<and> j < length A \<and> f (A ! j) = i) \<or> (j < m \<and> j < length B \<and> f (B ! j) = i)"
    unfolding seen_inv_def by blast
  with assms(2,3) show ?thesis by blast
qed simp

lemma seen_inv_add:
  assumes "seen_inv f A B seen n m" and "n < length A" and "seen (f (A ! n)) = None"
  shows "seen_inv f A B (seen(f (A ! n) \<mapsto> n)) (Suc n) m"
  unfolding seen_inv_def
proof (intro allI)
  fix i j
  have old: "seen i = Some j \<longleftrightarrow>
      (j < n \<and> j < length A \<and> f (A ! j) = i) \<or> (j < m \<and> j < length B \<and> f (B ! j) = i)"
    using assms(1) by (simp add: seen_inv_def)
  show "(seen(f (A ! n) \<mapsto> n)) i = Some j \<longleftrightarrow>
      (j < Suc n \<and> j < length A \<and> f (A ! j) = i) \<or> (j < m \<and> j < length B \<and> f (B ! j) = i)"
    using old assms(2,3) by (cases "i = f (A ! n)") (auto simp: less_Suc_eq)
qed

lemma cpd_a_GYield:
  "block_id E a = Ok i \<Longrightarrow> cpd_a E (GYield a ga) gb seen as bs d =
     (case seen i of
        Some n \<Rightarrow> Ok (d, rev (take (d + 1) (as @ [a])), n, rev (take (n + 1) bs))
      | None \<Rightarrow> cpd_b E ga gb (seen(i \<mapsto> d)) (as @ [a]) bs d)"
  by (subst cpd_a.simps) simp

lemma cpd_a_GStop: "cpd_a E GStop (GYield b gb) seen as bs d = cpd_b E GStop (GYield b gb) seen as bs d"
  by (subst cpd_a.simps) simp

lemma cpd_b_GYield:
  "block_id E b = Ok i \<Longrightarrow> cpd_b E ga (GYield b gb) seen as bs d =
     (case seen i of
        Some n \<Rightarrow> Ok (n, rev (take (n + 1) as), d, rev (take (d + 1) (bs @ [b])))
      | None \<Rightarrow> cpd_a E ga gb (seen(i \<mapsto> d)) as (bs @ [b]) (d + 1))"
  by (subst cpd_b.simps) simp

lemma cpd_b_GStop: "cpd_b E ga GStop seen as bs d = cpd_a E ga GStop seen as bs (d + 1)"
  by (subst cpd_b.simps) simp

lemmas cpd_steps = cpd_a_GYield cpd_a_GStop cpd_b_GYield cpd_b_GStop

text \<open>One turn of each chain that finds no known block.\<close>

lemma cpd_a_skip:
  assumes fk: "forked f A B us vs c rest" and ids: "\<forall>x \<in> set A. block_id E x = Ok (f x)"
    and d: "d \<le> max (length us) (length vs)" and no: "\<not> (d = length us \<and> length vs < d)"
    and inv: "seen_inv f A B seen d d"
  shows "\<exists>seen'. seen_inv f A B seen' (Suc d) d \<and>
     cpd_a E (gen_of (drop d A)) (gen_of (drop d B)) seen (take d A) bs d =
     cpd_b E (gen_of (drop (Suc d) A)) (gen_of (drop d B)) seen' (take (Suc d) A) bs d"
proof (cases "d < length A")
  case True
  have "seen (f (A ! d)) = None"
    by (rule seen_inv_None [OF inv]) (use forked_A_new [OF fk d True no] in auto)
  moreover from this inv True have "seen_inv f A B (seen(f (A ! d) \<mapsto> d)) (Suc d) d"
    by (intro seen_inv_add)
  ultimately show ?thesis
    using True ids by (auto simp: cpd_steps gen_of_drop [of d A] take_Suc_conv_app_nth)
next
  case False
  with d fk have "d < length B" by (auto simp: forked_def)
  moreover from False inv have "seen_inv f A B seen (Suc d) d"
    by (auto simp: seen_inv_def less_Suc_eq)
  ultimately show ?thesis
    using False by (auto simp: cpd_steps gen_of_drop [of d A] gen_of_drop [of d B])
qed

lemma cpd_b_skip:
  assumes fk: "forked f A B us vs c rest" and ids: "\<forall>x \<in> set B. block_id E x = Ok (f x)"
    and d: "d \<le> max (length us) (length vs)"
    and no: "\<not> (d = length us \<and> length vs < d)" "\<not> (d = length vs \<and> length us \<le> d)"
    and inv: "seen_inv f A B seen (Suc d) d"
  shows "\<exists>seen'. seen_inv f A B seen' (Suc d) (Suc d) \<and>
     cpd_b E ga (gen_of (drop d B)) seen as (take d B) d =
     cpd_a E ga (gen_of (drop (Suc d) B)) seen' as (take (Suc d) B) (Suc d)"
proof (cases "d < length B")
  case True
  have "seen (f (B ! d)) = None"
    by (rule seen_inv_None [OF inv]) (use forked_B_new [OF fk d True no(2,1)] in auto)
  moreover from this seen_inv_sym [OF inv] True
  have "seen_inv f A B (seen(f (B ! d) \<mapsto> d)) (Suc d) (Suc d)"
    by (intro seen_inv_sym [of f B A]) (rule seen_inv_add)
  ultimately show ?thesis
    using True ids by (auto simp: cpd_steps gen_of_drop [of d B] take_Suc_conv_app_nth)
next
  case False
  with inv have "seen_inv f A B seen (Suc d) (Suc d)"
    by (auto simp: seen_inv_def less_Suc_eq)
  with False show ?thesis
    by (auto simp: cpd_steps gen_of_drop [of d B])
qed

text \<open>The turn that finds the common block.\<close>

lemma cpd_a_hit:
  assumes fk: "forked f A B us vs c rest" and ids: "\<forall>x \<in> set A. block_id E x = Ok (f x)"
    and d: "d = length us" "length vs < d" and inv: "seen_inv f A B seen d d"
  shows "cpd_a E (gen_of (drop d A)) gb seen (take d A) (take d B) d =
     Ok (length us, rev (us @ [c]), length vs, rev (vs @ [c]))"
proof -
  from fk have A: "A = us @ c # rest" and B: "B = vs @ c # rest" by (auto simp: forked_def)
  with d have "seen (f c) = Some (length vs)"
    using inv by (auto simp: seen_inv_def nth_append)
  with A B d ids show ?thesis
    by (simp add: cpd_steps min_def Suc_diff_le)
qed

lemma cpd_b_hit:
  assumes fk: "forked f A B us vs c rest" and ids: "\<forall>x \<in> set B. block_id E x = Ok (f x)"
    and d: "d = length vs" "length us \<le> d" and inv: "seen_inv f A B seen (Suc d) d"
  shows "cpd_b E ga (gen_of (drop d B)) seen (take (Suc d) A) (take d B) d =
     Ok (length us, rev (us @ [c]), length vs, rev (vs @ [c]))"
proof -
  from fk have A: "A = us @ c # rest" and B: "B = vs @ c # rest" by (auto simp: forked_def)
  with d have "seen (f c) = Some (length us)"
    using inv by (auto simp: seen_inv_def nth_append)
  with A B d ids show ?thesis
    by (simp add: cpd_steps min_def Suc_diff_le)
qed

lemma cpd_loop:
  assumes fk: "forked f A B us vs c rest"
    and ids: "\<forall>x \<in> set A. block_id E x = Ok (f x)" "\<forall>x \<in> set B. block_id E x = Ok (f x)"
  shows "d \<le> max (length us) (length vs) \<Longrightarrow> seen_inv f A B seen d d \<Longrightarrow>
     cpd_a E (gen_of (drop d A)) (gen_of (drop d B)) seen (take d A) (take d B) d =
     Ok (length us, rev (us @ [c]), length vs, rev (vs @ [c]))"
proof (induction "max (length us) (length vs) - d" arbitrary: d seen rule: less_induct)
  case less
  show ?case
  proof (cases "d = length us \<and> length vs < d")
    case True
    with less.prems show ?thesis by (intro cpd_a_hit [OF fk ids(1)]) auto
  next
    case no: False
    from cpd_a_skip [OF fk ids(1) less.prems(1) no less.prems(2)] obtain seen' where
      s': "seen_inv f A B seen' (Suc d) d" and a: "cpd_a E (gen_of (drop d A)) (gen_of (drop d B)) seen (take d A) (take d B) d =
       cpd_b E (gen_of (drop (Suc d) A)) (gen_of (drop d B)) seen' (take (Suc d) A) (take d B) d"
      by blast
    show ?thesis
    proof (cases "d = length vs \<and> length us \<le> d")
      case True
      then show ?thesis unfolding a using s' by (intro cpd_b_hit [OF fk ids(2)]) auto
    next
      case no2: False
      from cpd_b_skip [OF fk ids(2) less.prems(1) no no2 s'] obtain seen'' where
        s'': "seen_inv f A B seen'' (Suc d) (Suc d)"
        and b: "cpd_b E (gen_of (drop (Suc d) A)) (gen_of (drop d B)) seen' (take (Suc d) A) (take d B) d =
          cpd_a E (gen_of (drop (Suc d) A)) (gen_of (drop (Suc d) B)) seen'' (take (Suc d) A) (take (Suc d) B) (Suc d)"
        by blast
      from no no2 less.prems(1) have "d < max (length us) (length vs)" by linarith
      then show ?thesis unfolding a b using s'' by (intro less.hyps) auto
    qed
  qed
qed

text \<open>In a rooted tree any two chains fork somewhere, at the latest at the root.\<close>

lemma map_ls_block_ids:
  "wf_states E S \<Longrightarrow> x \<in> set (map ls_block (chain S a)) \<Longrightarrow> block_id E x = Ok (the_id E x)"
  by (auto dest: chain_mem(2))

lemma chains_fork:
  assumes ok: "tree_ok E g S" and a: "a \<in> keys S" and b: "b \<in> keys S"
  shows "\<exists>us vs c rest. chain S a = us @ c # rest \<and> chain S b = vs @ c # rest \<and>
     forked (the_id E) (map ls_block (chain S a)) (map ls_block (chain S b))
       (map ls_block us) (map ls_block vs) (ls_block c) (map ls_block rest)"
proof -
  from ok have wf: "wf_states E S" and g: "g \<in> keys S" by (auto simp: tree_ok_def)
  have "chain S g \<noteq> []" using g wf by (simp add: chain_Nil_iff)
  moreover have "suffix (chain S g) (chain S a)" "suffix (chain S g) (chain S b)"
    using chain_root [OF ok] a b by auto
  ultimately have "\<exists>st \<in> set (chain S a). st \<in> set (chain S b)"
    by (auto simp: suffix_def neq_Nil_conv)
  then obtain us c rest where A: "chain S a = us @ c # rest" and c: "c \<in> set (chain S b)"
      and us: "\<forall>x \<in> set us. x \<notin> set (chain S b)"
    using split_list_first_prop [of "chain S a" "\<lambda>x. x \<in> set (chain S b)"] by auto
  from c obtain vs rest' where "chain S b = vs @ c # rest'" by (meson split_list)
  moreover from chain_split(2) [OF wf A] chain_split(2) [OF wf this] have "rest' = rest" by simp
  ultimately have B: "chain S b = vs @ c # rest" by simp
  from distinct_chain [OF wf, of b] us B have vs: "\<forall>x \<in> set vs. x \<notin> set (chain S a)"
    by (auto simp: A)
  let ?f = "\<lambda>st. the_id E (ls_block st)"
  have inj: "inj_on ?f (set (chain S a) \<union> set (chain S b))"
    by (rule inj_on_inverseI [of _ "\<lambda>k. the (map_of S k)"]) (auto dest: chain_mem(1) [OF wf])
  have "?f ` set us \<inter> ?f ` set (chain S b) = ?f ` (set us \<inter> set (chain S b))"
    by (rule inj_on_image_Int [OF inj, symmetric]) (auto simp: A)
  moreover have "set us \<inter> set (chain S b) = {}" using us by auto
  moreover have "?f ` set vs \<inter> ?f ` set (chain S a) = ?f ` (set vs \<inter> set (chain S a))"
    by (rule inj_on_image_Int [OF inj, symmetric]) (auto simp: B)
  moreover have "set vs \<inter> set (chain S a) = {}" using vs by auto
  ultimately have "forked (the_id E) (map ls_block (chain S a)) (map ls_block (chain S b))
      (map ls_block us) (map ls_block vs) (ls_block c) (map ls_block rest)"
    using distinct_chain_ids [OF wf, of a] distinct_chain_ids [OF wf, of b]
    by (simp add: forked_def chain_ids_def A B comp_def image_image image_Un)
  with A B show ?thesis by blast
qed

lemma common_prefix_depth_eq:
  assumes wf: "wf_states E S"
    and fk: "forked (the_id E) (map ls_block (chain S a)) (map ls_block (chain S b)) us vs c rest"
  shows "common_prefix_depth E a b S = Ok (length us, rev (us @ [c]), length vs, rev (vs @ [c]))"
proof -
  have "seen_inv (the_id E) (map ls_block (chain S a)) (map ls_block (chain S b)) Map.empty 0 0"
    by (simp add: seen_inv_def)
  then show ?thesis
    using cpd_loop [OF fk, of E 0 Map.empty] map_ls_block_ids [OF wf]
    by (simp add: common_prefix_depth_def iter_chain_blocks_eq [OF wf])
qed

section \<open>The contract of the block tree\<close>

text \<open>
  What a client may rely on: on a valid tree, the common-prefix query of two of its nodes returns
  the depths of their deepest common state below the two tips, and the branches from that state up
  to each tip, oldest block first.
\<close>

locale fork_tree =
  fixes valid :: "'s \<Rightarrow> bool"
    and nodes :: "'s \<Rightarrow> 'h set"
    and path :: "'s \<Rightarrow> 'h \<Rightarrow> 'n list"
    and header :: "'n \<Rightarrow> 'b"
    and prefix_query :: "'s \<Rightarrow> 'h \<Rightarrow> 'h \<Rightarrow> ('e, nat \<times> 'b list \<times> nat \<times> 'b list) res"
  assumes prefix_query_forks: "valid s \<Longrightarrow> a \<in> nodes s \<Longrightarrow> b \<in> nodes s \<Longrightarrow>
     \<exists>us vs c rest. path s a = us @ c # rest \<and> path s b = vs @ c # rest \<and> set us \<inter> set (path s b) = {} \<and>
       prefix_query s a b =
         Ok (length us, rev (map header (us @ [c])), length vs, rev (map header (vs @ [c])))"
begin

lemma prefix_query_total:
  "valid s \<Longrightarrow> a \<in> nodes s \<Longrightarrow> b \<in> nodes s \<Longrightarrow> \<exists>r. prefix_query s a b = Ok r"
  using prefix_query_forks by blast

text \<open>Comparing the depths of the two tips below the fork compares the lengths of the chains.\<close>

lemma prefix_query_lengths:
  assumes "valid s" and "a \<in> nodes s" and "b \<in> nodes s" and "prefix_query s a b = Ok (da, sa, db, sb)"
  shows "length (path s a) + db = length (path s b) + da"
  using prefix_query_forks [OF assms(1-3)] assms(4) by auto

text \<open>
  Moving to the other branch undoes at most \<open>da\<close> states of the first one: everything deeper than
  \<open>da\<close> on the old chain is still on the new one.
\<close>

lemma prefix_query_keeps:
  assumes "valid s" and "a \<in> nodes s" and "b \<in> nodes s" and "prefix_query s a b = Ok (da, sa, db, sb)"
    and "da \<le> k"
  shows "suffix (drop k (path s a)) (path s b)"
proof -
  from prefix_query_forks [OF assms(1-3)] assms(4)
  obtain us vs c rest where "path s a = us @ c # rest" "path s b = vs @ c # rest" "da = length us"
    by auto
  moreover have "suffix (drop (k - length us) (c # rest)) (vs @ c # rest)"
    by (intro suffix_appendI suffix_drop)
  ultimately show ?thesis using assms(5) by simp
qed

end

interpretation block_tree: fork_tree "tree_ok E g" keys chain ls_block
    "\<lambda>S a b. common_prefix_depth E a b S" for E g
proof
  fix S a b
  assume ok: "tree_ok E g S" and ab: "a \<in> keys S" "b \<in> keys S"
  from ok have wf: "wf_states E S" by (simp add: tree_ok_def)
  from chains_fork [OF ok ab] obtain us vs c rest where
    A: "chain S a = us @ c # rest" and B: "chain S b = vs @ c # rest"
    and fk: "forked (the_id E) (map ls_block (chain S a)) (map ls_block (chain S b))
       (map ls_block us) (map ls_block vs) (ls_block c) (map ls_block rest)"
    by blast
  have "common_prefix_depth E a b S =
      Ok (length us, rev (map ls_block (us @ [c])), length vs, rev (map ls_block (vs @ [c])))"
    using common_prefix_depth_eq [OF wf fk] by simp
  moreover have "set us \<inter> set (chain S b) = {}"
    using fk by (fastforce simp: forked_def)
  ultimately show "\<exists>us vs c rest. chain S a = us @ c # rest \<and> chain S b = vs @ c # rest \<and>
      set us \<inter> set (chain S b) = {} \<and> common_prefix_depth E a b S =
        Ok (length us, rev (map ls_block (us @ [c])), length vs, rev (map ls_block (vs @ [c])))"
    using A B by blast
qed

end
