(* ===== verification/Fork_Choice.thy ===== *)
theory Fork_Choice
  imports Chain_Queries
begin

text \<open>
  The fork choice rules of cryptarchia/cryptarchia.py: \<open>maxvalid_bg\<close> (Ouroboros Genesis, used while
  bootstrapping) and \<open>maxvalid_mc\<close> (Ouroboros Praos, used online). Both fold over the forks and
  keep the best tip so far. The asserts on the Python type of the arguments have no counterpart:
  every argument is a \<open>hash\<close> here.

  The locale \<open>fork_selection\<close> holds what such a fold gives once the decision for one fork is
  known; both rules are interpreted in it through the contract \<open>fork_tree\<close>.
\<close>

section \<open>The rules\<close>

fun maxvalid_bg :: "Env \<Rightarrow> hash \<Rightarrow> hash list \<Rightarrow> int \<Rightarrow> int \<Rightarrow> states \<Rightarrow> (exn, hash) res" where
  "maxvalid_bg E cmax [] k s S = Ok cmax"
| "maxvalid_bg E cmax (fork # forks) k s S =
     bind_res (common_prefix_depth E cmax fork S)
       (\<lambda>(cmax_depth, cmax_suffix, fork_depth, fork_suffix).
         if int cmax_depth \<le> k
         then maxvalid_bg E (if cmax_depth < fork_depth then fork else cmax) forks k s S
         else (case cmax_suffix of
                 [] \<Rightarrow> Err IndexError
               | cmax_divergent_block # _ \<Rightarrow>
                   let forking_slot = Slot (absolute_slot (bh_slot cmax_divergent_block) + s);
                       cmax_density = chain_density cmax_suffix forking_slot;
                       fork_density = chain_density fork_suffix forking_slot
                   in maxvalid_bg E (if cmax_density < fork_density then fork else cmax) forks k s S))"

fun maxvalid_mc :: "Env \<Rightarrow> hash \<Rightarrow> hash list \<Rightarrow> int \<Rightarrow> states \<Rightarrow> (exn, hash) res" where
  "maxvalid_mc E cmax [] k S = Ok cmax"
| "maxvalid_mc E cmax (fork # forks) k S =
     bind_res (common_prefix_depth E cmax fork S)
       (\<lambda>(cmax_depth, _, fork_depth, _).
         if int cmax_depth \<le> k
         then maxvalid_mc E (if cmax_depth < fork_depth then fork else cmax) forks k S
         else maxvalid_mc E cmax forks k S)"

text \<open>The decision each rule takes on one fork, read off the query's answer.\<close>

definition mc_better :: "Env \<Rightarrow> int \<Rightarrow> states \<Rightarrow> hash \<Rightarrow> hash \<Rightarrow> bool" where
  "mc_better E k S a b =
     (case common_prefix_depth E a b S of Ok (da, _, db, _) \<Rightarrow> int da \<le> k \<and> da < db | _ \<Rightarrow> False)"

definition bg_better :: "Env \<Rightarrow> int \<Rightarrow> int \<Rightarrow> states \<Rightarrow> hash \<Rightarrow> hash \<Rightarrow> bool" where
  "bg_better E k s S a b =
     (case common_prefix_depth E a b S of
        Ok (da, sa, db, sb) \<Rightarrow>
          if int da \<le> k then da < db
          else (let t = Slot (absolute_slot (bh_slot (hd sa)) + s) in chain_density sa t < chain_density sb t)
      | _ \<Rightarrow> False)"

section \<open>Folding a decision over the forks\<close>

locale fork_selection =
  fixes valid :: "'s \<Rightarrow> bool"
    and nodes :: "'s \<Rightarrow> 'h set"
    and better :: "'s \<Rightarrow> 'h \<Rightarrow> 'h \<Rightarrow> bool"
    and select :: "'s \<Rightarrow> 'h \<Rightarrow> 'h list \<Rightarrow> ('e, 'h) res"
    and rel :: "'s \<Rightarrow> 'h \<Rightarrow> 'h \<Rightarrow> bool"
  assumes select_Nil: "select s c [] = Ok c"
    and select_Cons: "valid s \<Longrightarrow> c \<in> nodes s \<Longrightarrow> f \<in> nodes s \<Longrightarrow>
      select s c (f # fs) = select s (if better s c f then f else c) fs"
    and better_rel: "valid s \<Longrightarrow> c \<in> nodes s \<Longrightarrow> f \<in> nodes s \<Longrightarrow> better s c f \<Longrightarrow> rel s c f"
    and rel_refl: "rel s c c"
    and rel_trans: "rel s a b \<Longrightarrow> rel s b c \<Longrightarrow> rel s a c"
begin

lemma select_total:
  "valid s \<Longrightarrow> c \<in> nodes s \<Longrightarrow> set fs \<subseteq> nodes s \<Longrightarrow>
   \<exists>t. select s c fs = Ok t \<and> t \<in> set (c # fs) \<and> rel s c t"
proof (induction fs arbitrary: c)
  case Nil
  then show ?case by (simp add: select_Nil rel_refl)
next
  case (Cons f fs)
  let ?c = "if better s c f then f else c"
  have step: "rel s c ?c" using Cons.prems by (auto intro: better_rel rel_refl)
  have "?c \<in> nodes s" "set fs \<subseteq> nodes s" using Cons.prems by auto
  from Cons.IH [OF Cons.prems(1) this] obtain t where
    t: "select s ?c fs = Ok t" "t \<in> set (?c # fs)" "rel s ?c t" by blast
  from rel_trans [OF step t(3)] t(1,2) show ?case
    using Cons.prems by (auto simp: select_Cons split: if_splits)
qed

text \<open>Where the decision compares a number, the result has the largest one.\<close>

lemma select_max:
  fixes len :: "'h \<Rightarrow> nat"
  assumes "valid s" and "set (c # fs) \<subseteq> nodes s"
    and "\<And>a b. a \<in> set (c # fs) \<Longrightarrow> b \<in> set (c # fs) \<Longrightarrow> better s a b \<longleftrightarrow> len a < len b"
    and "select s c fs = Ok t" and "x \<in> set (c # fs)"
  shows "len x \<le> len t"
  using assms
proof (induction fs arbitrary: c x)
  case Nil
  then show ?case by (simp add: select_Nil)
next
  case (Cons f fs)
  let ?c = "if better s c f then f else c"
  have dec: "better s c f \<longleftrightarrow> len c < len f" using Cons.prems(3) by simp
  have sel: "select s ?c fs = Ok t" using Cons.prems by (simp add: select_Cons)
  have IH: "len y \<le> len t" if "y \<in> set (?c # fs)" for y
    by (rule Cons.IH [OF Cons.prems(1) _ _ sel that]) (use Cons.prems(2,3) in \<open>auto split: if_splits\<close>)
  have "len c \<le> len t" "len f \<le> len t"
    using IH [of ?c] dec by (auto split: if_splits)
  with IH Cons.prems(5) show ?case by auto
qed

end

section \<open>Both rules are such folds\<close>

lemma common_prefix_depth_forks:
  assumes "tree_ok E g S" and "a \<in> keys S" and "b \<in> keys S"
  obtains us vs c rest where "chain S a = us @ c # rest" and "chain S b = vs @ c # rest"
    and "set us \<inter> set (chain S b) = {}"
    and "common_prefix_depth E a b S =
      Ok (length us, rev (map ls_block (us @ [c])), length vs, rev (map ls_block (vs @ [c])))"
  using block_tree.prefix_query_forks [OF assms] by blast

lemma common_prefix_depth_total:
  assumes "tree_ok E g S" and "a \<in> keys S" and "b \<in> keys S"
  obtains da sa db sb where "common_prefix_depth E a b S = Ok (da, sa, db, sb)"
  by (rule common_prefix_depth_forks [OF assms]) (rule that)

text \<open>Going from \<open>a\<close> to \<open>b\<close> undoes at most \<open>k\<close> blocks and does not shorten the chain.\<close>

definition extends_upto :: "nat \<Rightarrow> states \<Rightarrow> hash \<Rightarrow> hash \<Rightarrow> bool" where
  "extends_upto k S a b \<longleftrightarrow>
     suffix (drop k (chain S a)) (chain S b) \<and> length (chain S a) \<le> length (chain S b)"

lemma extends_upto_trans:
  assumes "extends_upto k S a b" and "extends_upto k S b c"
  shows "extends_upto k S a c"
proof -
  have "suffix (drop k (chain S a)) (drop k (chain S b))"
  proof (cases "k \<le> length (chain S a)")
    case True
    with assms(1) show ?thesis by (intro suffix_drop_le) (auto simp: extends_upto_def)
  qed simp
  with assms show ?thesis
    by (auto simp: extends_upto_def intro: suffix_order.trans)
qed

interpretation praos: fork_selection "tree_ok E g" keys "mc_better E k"
    "\<lambda>S c fs. maxvalid_mc E c fs k S" "extends_upto (nat k)" for E g k
proof
  fix S a b c f fs
  show "maxvalid_mc E c [] k S = Ok c" by simp
  show "extends_upto (nat k) S c c" by (simp add: extends_upto_def suffix_drop)
  show "extends_upto (nat k) S a c" if "extends_upto (nat k) S a b" "extends_upto (nat k) S b c"
    using that by (rule extends_upto_trans)
  assume ok: "tree_ok E g S" "c \<in> keys S" "f \<in> keys S"
  obtain da sa db sb where q: "common_prefix_depth E c f S = Ok (da, sa, db, sb)"
    by (rule common_prefix_depth_total [OF ok])
  show "maxvalid_mc E c (f # fs) k S = maxvalid_mc E (if mc_better E k S c f then f else c) fs k S"
    by (simp add: q mc_better_def)
  assume "mc_better E k S c f"
  with q have "da \<le> nat k" "da < db" by (auto simp: mc_better_def)
  with block_tree.prefix_query_keeps [OF ok q] block_tree.prefix_query_lengths [OF ok q]
  show "extends_upto (nat k) S c f" by (auto simp: extends_upto_def)
qed

interpretation genesis: fork_selection "tree_ok E g" keys "bg_better E k s"
    "\<lambda>S c fs. maxvalid_bg E c fs k s S" "\<lambda>S a b. True" for E g k s
proof
  fix S a b c f fs
  show "maxvalid_bg E c [] k s S = Ok c" by simp
  assume ok: "tree_ok E g S" "c \<in> keys S" "f \<in> keys S"
  obtain us vs m rest where "chain S c = us @ m # rest" "chain S f = vs @ m # rest"
    "set us \<inter> set (chain S f) = {}" and
    q: "common_prefix_depth E c f S =
      Ok (length us, rev (map ls_block (us @ [m])), length vs, rev (map ls_block (vs @ [m])))"
    by (rule common_prefix_depth_forks [OF ok])
  show "maxvalid_bg E c (f # fs) k s S = maxvalid_bg E (if bg_better E k s S c f then f else c) fs k s S"
    by (simp add: q bg_better_def Let_def)
qed simp_all

section \<open>Consequences\<close>

lemma mc_better_eq_bg_better:
  assumes "common_prefix_depth E a b S = Ok (da, sa, db, sb)" and "int da \<le> k"
  shows "mc_better E k S a b = bg_better E k s S a b"
  using assms by (simp add: mc_better_def bg_better_def)

lemma bg_better_shallow:
  assumes "tree_ok E g S" and "a \<in> keys S" and "b \<in> keys S"
    and "\<And>da sa db sb. common_prefix_depth E a b S = Ok (da, sa, db, sb) \<Longrightarrow> int da \<le> k"
  shows "bg_better E k s S a b \<longleftrightarrow> length (chain S a) < length (chain S b)"
proof -
  obtain us vs c rest where
    *: "chain S a = us @ c # rest" "chain S b = vs @ c # rest" "set us \<inter> set (chain S b) = {}" and
    q: "common_prefix_depth E a b S =
      Ok (length us, rev (map ls_block (us @ [c])), length vs, rev (map ls_block (vs @ [c])))"
    by (rule common_prefix_depth_forks [OF assms(1-3)])
  with assms(4) [OF q] show ?thesis by (simp add: bg_better_def *(1,2))
qed

text \<open>All candidate tips fork from each other at most \<open>k\<close> blocks deep.\<close>

definition shallow :: "Env \<Rightarrow> int \<Rightarrow> states \<Rightarrow> hash list \<Rightarrow> bool" where
  "shallow E k S tips \<longleftrightarrow>
     list_all (\<lambda>a. list_all (\<lambda>b.
       case common_prefix_depth E a b S of Ok (da, _) \<Rightarrow> int da \<le> k | _ \<Rightarrow> False) tips) tips"

lemma shallowD:
  "shallow E k S tips \<Longrightarrow> a \<in> set tips \<Longrightarrow> b \<in> set tips \<Longrightarrow>
   common_prefix_depth E a b S = Ok (da, sa, db, sb) \<Longrightarrow> int da \<le> k"
  by (fastforce simp: shallow_def list_all_iff)

lemma maxvalid_agree:
  "tree_ok E g S \<Longrightarrow> c \<in> keys S \<Longrightarrow> set fs \<subseteq> keys S \<Longrightarrow> shallow E k S tips \<Longrightarrow>
   set (c # fs) \<subseteq> set tips \<Longrightarrow> maxvalid_mc E c fs k S = maxvalid_bg E c fs k s S"
proof (induction fs arbitrary: c)
  case (Cons f fs)
  have cf: "c \<in> keys S" "f \<in> keys S" using Cons.prems by auto
  obtain da sa db sb where q: "common_prefix_depth E c f S = Ok (da, sa, db, sb)"
    by (rule common_prefix_depth_total [OF Cons.prems(1) cf])
  with Cons.prems shallowD [OF Cons.prems(4) _ _ q] have "mc_better E k S c f = bg_better E k s S c f"
    by (intro mc_better_eq_bg_better) auto
  with Cons show ?case
    by (simp add: praos.select_Cons [of E g] genesis.select_Cons [of E g]
        del: maxvalid_mc.simps maxvalid_bg.simps)
qed simp

end
