(* ===== verification/Tree_Updates.thy ===== *)
theory Tree_Updates
  imports Fork_Choice
begin

text \<open>
  How the block tree changes: \<open>on_block\<close> inserts one state under a new identifier, \<open>update_lib\<close>
  drops every state that is neither an ancestor nor a descendant of the last immutable block.
  Both keep \<open>tree_ok\<close> and leave the chains of the states that stay as they were. \<open>leaves\<close> are the
  tips of the tree.
\<close>

definition leaves :: "states \<Rightarrow> hash set" where
  "leaves S = {h \<in> keys S. \<forall>(k, st) \<in> set S. parent_of st \<noteq> h}"

section \<open>Inserting a state\<close>

lemma update_new: "k \<notin> keys S \<Longrightarrow> AList.update k v S = S @ [(k, v)]"
  by (induction S) (auto simp: keys_def)

text \<open>What \<open>on_block\<close> has checked when it inserts \<open>st\<close> under \<open>i\<close> below \<open>p\<close>.\<close>

definition insertable :: "Env \<Rightarrow> hash \<Rightarrow> states \<Rightarrow> hash \<Rightarrow> LedgerState \<Rightarrow> bool" where
  "insertable E g S i st \<longleftrightarrow>
     i \<notin> keys S \<and> parent_of st \<in> keys S \<and> block_id E (ls_block st) = Ok i \<and>
     (\<forall>gs. map_of S g = Some gs \<longrightarrow> parent_of gs \<noteq> i)"

lemma no_child_of_new:
  assumes "tree_ok E g S" and "insertable E g S i st"
  shows "\<forall>(k', st') \<in> set S. parent_of st' \<noteq> i"
proof clarify
  fix k' st'
  assume m: "(k', st') \<in> set S" and p: "i = parent_of st'"
  from assms have "i \<notin> keys S" by (simp add: insertable_def)
  with assms(1) m p have "k' = g"
    by (auto simp: tree_ok_def rooted_def list_all_iff)
  moreover from assms(1) have "distinct (map fst S)" by (auto simp: tree_ok_def intro: wf_distinct)
  with m have "map_of S k' = Some st'" by simp
  ultimately show False using assms(2) p by (auto simp: insertable_def)
qed

lemma tree_ok_insert:
  assumes "tree_ok E g S" and "insertable E g S i st"
  shows "tree_ok E g (S @ [(i, st)])"
proof -
  from assms(2) have "parent_of st \<noteq> i" by (auto simp: insertable_def)
  then show ?thesis
    using assms no_child_of_new [OF assms]
    by (auto simp: tree_ok_def wf_states_snoc insertable_def rooted_def list_all_iff)
qed

lemma chain_insert_old:
  assumes "tree_ok E g S" and "insertable E g S i st" and "t \<noteq> i"
  shows "chain (S @ [(i, st)]) t = chain S t"
proof (rule chain_eqI)
  show "wf_states E (S @ [(i, st)])"
    using tree_ok_insert [OF assms(1,2)] by (simp add: tree_ok_def)
  show "chain_of (S @ [(i, st)]) t (chain S t)"
    using assms no_child_of_new [OF assms(1,2)]
    by (intro chain_of_snoc chain_of_chain [of E]) (auto simp: tree_ok_def insertable_def)
qed

lemma chain_insert_new:
  assumes "tree_ok E g S" and "insertable E g S i st"
  shows "chain (S @ [(i, st)]) i = st # chain S (parent_of st)"
proof -
  have "wf_states E (S @ [(i, st)])" using tree_ok_insert [OF assms] by (simp add: tree_ok_def)
  moreover have "map_of (S @ [(i, st)]) i = Some st"
    using assms(2) by (simp add: insertable_def map_of_snoc)
  moreover have "parent_of st \<noteq> i" using assms(2) by (auto simp: insertable_def)
  ultimately show ?thesis by (simp add: chain_Some chain_insert_old [OF assms])
qed

lemma chain_ids_insert_old:
  "tree_ok E g S \<Longrightarrow> insertable E g S i st \<Longrightarrow> t \<noteq> i \<Longrightarrow>
   chain_ids E (S @ [(i, st)]) t = chain_ids E S t"
  by (simp add: chain_ids_def chain_insert_old)

lemma chain_ids_insert_new:
  "tree_ok E g S \<Longrightarrow> insertable E g S i st \<Longrightarrow>
   chain_ids E (S @ [(i, st)]) i = i # chain_ids E S (parent_of st)"
  by (simp add: chain_ids_def chain_insert_new) (simp add: the_id_def insertable_def)

lemma leaves_insert:
  assumes "tree_ok E g S" and "insertable E g S i st"
  shows "leaves (S @ [(i, st)]) = insert i (leaves S - {parent_of st})"
  using assms(2) no_child_of_new [OF assms] by (auto simp: leaves_def insertable_def)

section \<open>Pruning\<close>

definition kept :: "Env \<Rightarrow> states \<Rightarrow> hash \<Rightarrow> hash \<Rightarrow> bool" where
  "kept E S l k \<longleftrightarrow> l \<in> set (chain_ids E S k) \<or> k \<in> set (chain_ids E S l)"

definition prune :: "Env \<Rightarrow> hash \<Rightarrow> states \<Rightarrow> states" where
  "prune E l S = filter (\<lambda>(k, v). kept E S l k) S"

lemma map_of_filter_key: "map_of (filter (\<lambda>(k, v). P k) S) t = (if P t then map_of S t else None)"
  by (induction S) auto

lemma keys_filter: "keys (filter (\<lambda>(k, v). P k) S) = {k \<in> keys S. P k}"
  by (auto simp: keys_def)

lemma wf_states_filter: "wf_states E S \<Longrightarrow> wf_states E (filter P S)"
proof (induction S rule: rev_induct)
  case (snoc x S)
  then show ?case by (cases x) (auto simp: wf_states_snoc keys_def)
qed simp

lemma chain_of_filter:
  "chain_of S t cs \<Longrightarrow> P t \<Longrightarrow>
   (\<And>k st. map_of S k = Some st \<Longrightarrow> P k \<Longrightarrow> P (parent_of st) \<or> parent_of st \<notin> keys S) \<Longrightarrow>
   chain_of (filter (\<lambda>(k, v). P k) S) t cs"
proof (induction rule: chain_of.induct)
  case (chain_stop t)
  then show ?case by (auto intro: chain_of.chain_stop simp: map_of_filter_key)
next
  case (chain_step t st cs)
  show ?case
  proof (cases "P (parent_of st)")
    case True
    with chain_step show ?thesis
      by (auto intro!: chain_of.chain_step simp: map_of_filter_key)
  next
    case False
    with chain_step have "map_of S (parent_of st) = None" by (simp add: keys_None) blast
    moreover from this chain_step.hyps(2) have "cs = []"
      by (metis chain_of.chain_stop chain_of_det)
    ultimately show ?thesis
      using chain_step by (auto intro!: chain_of.intros simp: map_of_filter_key)
  qed
qed

lemma kept_parent:
  assumes wf: "wf_states E S" and "map_of S k = Some st" and "kept E S l k" and l: "l \<in> keys S"
  shows "kept E S l (parent_of st) \<or> parent_of st \<notin> keys S"
proof (cases "parent_of st \<in> keys S")
  case True
  have ids: "chain_ids E S k = k # chain_ids E S (parent_of st)"
    using wf assms(2) by (rule chain_ids_Some)
  have "parent_of st \<in> set (chain_ids E S k)"
    using ids tip_in_chain_ids [OF wf True] by simp
  moreover have "set (chain_ids E S k) \<subseteq> set (chain_ids E S l)" if "k \<in> set (chain_ids E S l)"
    using in_chain_ids_split [OF wf that] by (auto simp: chain_ids_def)
  moreover have "l \<in> set (chain_ids E S (parent_of st)) \<or> k = l" if "l \<in> set (chain_ids E S k)"
    using that ids by auto
  ultimately show ?thesis
    using assms(3) tip_in_chain_ids [OF wf l] unfolding kept_def by blast
qed simp

lemma prune_facts:
  assumes ok: "tree_ok E g S" and l: "l \<in> keys S"
  shows keys_prune: "keys (prune E l S) = {k \<in> keys S. kept E S l k}"
    and chain_prune: "\<And>t. kept E S l t \<Longrightarrow> chain (prune E l S) t = chain S t"
    and tree_ok_prune: "tree_ok E g (prune E l S)"
    and map_of_prune: "\<And>t. map_of (prune E l S) t = (if kept E S l t then map_of S t else None)"
proof -
  from ok have wf: "wf_states E S" and g: "g \<in> keys S" and r: "rooted g S" by (auto simp: tree_ok_def)
  have wf': "wf_states E (prune E l S)" unfolding prune_def by (rule wf_states_filter [OF wf])
  show k: "keys (prune E l S) = {k \<in> keys S. kept E S l k}"
    by (simp add: prune_def keys_filter)
  show m: "map_of (prune E l S) t = (if kept E S l t then map_of S t else None)" for t
    by (simp add: prune_def map_of_filter_key)
  show "chain (prune E l S) t = chain S t" if "kept E S l t" for t
    by (rule chain_eqI [OF wf'], unfold prune_def)
       (rule chain_of_filter [OF chain_of_chain [OF wf]], use that kept_parent [OF wf _ _ l] in auto)
  have "suffix (chain S g) (chain S l)" by (rule chain_root [OF ok l])
  then have "g \<in> set (chain_ids E S l)" by (simp add: anc_iff_suffix [OF wf g])
  then have "kept E S l g" by (simp add: kept_def)
  with g have "g \<in> keys (prune E l S)" by (simp add: k)
  moreover have "rooted g (prune E l S)"
    unfolding rooted_def list_all_iff
  proof clarify
    fix k st
    assume "(k, st) \<in> set (prune E l S)" and "parent_of st \<notin> keys (prune E l S)"
    then have "(k, st) \<in> set S" "kept E S l k" by (auto simp: prune_def)
    moreover from this have "map_of S k = Some st" using wf_distinct [OF wf] by simp
    ultimately show "k = g"
      using \<open>parent_of st \<notin> keys (prune E l S)\<close> r kept_parent [OF wf _ _ l, of k st]
      by (auto simp: rooted_def list_all_iff k)
  qed
  ultimately show "tree_ok E g (prune E l S)" using wf' by (simp add: tree_ok_def)
qed

lemma chain_ids_prune:
  "tree_ok E g S \<Longrightarrow> l \<in> keys S \<Longrightarrow> kept E S l t \<Longrightarrow> chain_ids E (prune E l S) t = chain_ids E S t"
  by (simp add: chain_ids_def chain_prune)

text \<open>A state below \<open>l\<close> on its chain has a child there.\<close>

lemma ancestor_has_child:
  assumes wf: "wf_states E S" and "h \<in> set (chain_ids E S l)" and "h \<noteq> l"
  shows "\<exists>k st. map_of S k = Some st \<and> parent_of st = h \<and> k \<in> set (chain_ids E S l)"
proof -
  have "chain_of S t cs \<Longrightarrow> h \<in> set (map (\<lambda>st. the_id E (ls_block st)) cs) \<Longrightarrow> h \<noteq> t \<Longrightarrow>
      \<exists>k st. map_of S k = Some st \<and> parent_of st = h \<and> k \<in> set (map (\<lambda>st. the_id E (ls_block st)) cs)"
    for t cs
  proof (induction rule: chain_of.induct)
    case (chain_step t st cs)
    from chain_step.hyps(1) have t: "the_id E (ls_block st) = t" by (rule wf_the_id [OF wf])
    show ?case
    proof (cases "parent_of st = h")
      case True
      with chain_step.hyps(1) t show ?thesis by auto
    next
      case False
      with chain_step t show ?thesis by fastforce
    qed
  qed simp
  from this [OF chain_of_chain [OF wf, of l]] assms(2,3) show ?thesis by (simp add: chain_ids_def)
qed

lemma leaves_prune:
  assumes ok: "tree_ok E g S" and l: "l \<in> keys S"
  shows "leaves (prune E l S) = {h \<in> leaves S. l \<in> set (chain_ids E S h)}"
proof -
  from ok have wf: "wf_states E S" by (simp add: tree_ok_def)
  have entry: "(k, st) \<in> set (prune E l S) \<longleftrightarrow> map_of S k = Some st \<and> kept E S l k" for k st
    using wf_distinct [OF wf] by (auto simp: prune_def)
  have entryS: "(k, st) \<in> set S \<longleftrightarrow> map_of S k = Some st" for k st
    using wf_distinct [OF wf] by simp
  have up: "kept E S l k" if "map_of S k = Some st" "parent_of st = h" "l \<in> set (chain_ids E S h)" for k st h
    using that chain_ids_Some [OF wf that(1)] by (auto simp: kept_def)
  have "l \<in> set (chain_ids E S h)" if "h \<in> leaves (prune E l S)" for h
  proof (rule ccontr)
    assume no: "l \<notin> set (chain_ids E S h)"
    from that have h: "h \<in> keys S" "kept E S l h" and leaf: "\<And>k st. (k, st) \<in> set (prune E l S) \<Longrightarrow> parent_of st \<noteq> h"
      by (auto simp: leaves_def keys_prune [OF ok l])
    with no have "h \<in> set (chain_ids E S l)" by (simp add: kept_def)
    moreover have "h \<noteq> l" using no tip_in_chain_ids [OF wf h(1)] by auto
    ultimately obtain k st where "map_of S k = Some st" "parent_of st = h" "k \<in> set (chain_ids E S l)"
      using ancestor_has_child [OF wf] by blast
    with leaf show False by (auto simp: entry kept_def)
  qed
  moreover have "h \<in> leaves S" if h: "h \<in> leaves (prune E l S)" "l \<in> set (chain_ids E S h)" for h
  proof -
    have "parent_of st \<noteq> h" if "map_of S k = Some st" for k st
    proof
      assume "parent_of st = h"
      moreover from this have "(k, st) \<in> set (prune E l S)" using up [OF that _ h(2)] that by (simp add: entry)
      ultimately show False using h(1) by (auto simp: leaves_def)
    qed
    then have "\<forall>(k, st) \<in> set S. parent_of st \<noteq> h" using entryS by blast
    then show ?thesis using h(1) by (simp add: leaves_def keys_prune [OF ok l])
  qed
  moreover have "h \<in> leaves (prune E l S)" if "h \<in> leaves S" "l \<in> set (chain_ids E S h)" for h
    using that by (auto simp: leaves_def keys_prune [OF ok l] entry entryS kept_def)
  ultimately show ?thesis by blast
qed

end
