(* ===== verification/Follower.thy ===== *)
theory Follower
  imports Tree_Updates
begin

text \<open>
  The class \<open>Follower\<close> of cryptarchia/cryptarchia.py. Its object is the record \<open>Follower\<close>; a
  method that only reads it is a function of it, a method that changes it is an \<open>action\<close> on it.
  What a method changed before it raised stays changed, as in the code.

  \<open>compute_epoch_state\<close> recurses on the previous epoch. Its extra argument is the number of
  nested calls the interpreter still allows, and running out of it is \<open>RecursionError\<close>: that is
  what the code does for a negative epoch. \<open>epoch_state\<close> is the memo table it fills.
\<close>

section \<open>The object\<close>

datatype FState = ONLINE | BOOTSTRAPPING

record Follower =
  f_config :: Config
  f_forks :: "hash list"
  f_local_chain :: hash
  f_genesis_state :: LedgerState
  f_ledger_state :: states
  f_epoch_state :: "Epoch \<times> hash \<Rightarrow> EpochState option"
  f_state :: FState
  f_lib :: hash

definition Follower_init :: "Env \<Rightarrow> LedgerState \<Rightarrow> Config \<Rightarrow> (exn, Follower) res" where
  "Follower_init E genesis c =
     bind_res (block_id E (ls_block genesis)) (\<lambda>i.
       Ok \<lparr>f_config = c, f_forks = [], f_local_chain = i, f_genesis_state = genesis,
           f_ledger_state = [(i, genesis)], f_epoch_state = Map.empty,
           f_state = BOOTSTRAPPING, f_lib = i\<rparr>)"

definition tip_id :: "Follower \<Rightarrow> hash" where
  "tip_id f = f_local_chain f"

definition tip_state :: "Follower \<Rightarrow> (exn, LedgerState) res" where
  "tip_state f = get_item (f_ledger_state f) (tip_id f)"

definition tip :: "Follower \<Rightarrow> (exn, BlockHeader) res" where
  "tip f = bind_res (tip_state f) (\<lambda>st. Ok (ls_block st))"

section \<open>Epoch states\<close>

fun state_before :: "Slot \<Rightarrow> LedgerState \<Rightarrow> LedgerState gen \<Rightarrow> (exn, LedgerState) res" where
  "state_before s genesis GStop = Ok genesis"
| "state_before s genesis (GYield st g) =
     (if bh_slot (ls_block st) < s then Ok st else state_before s genesis g)"
| "state_before s genesis GForever = Diverge"

definition state_at_slot_beginning :: "Follower \<Rightarrow> hash \<Rightarrow> Slot \<Rightarrow> (exn, LedgerState) res" where
  "state_at_slot_beginning f t s =
     state_before s (f_genesis_state f)
       (iter_chain (chain_bound (f_ledger_state f)) t (f_ledger_state f))"

definition epoch_start_slot :: "Follower \<Rightarrow> Epoch \<Rightarrow> (exn, Slot) res" where
  "epoch_start_slot f e = bind_res (epoch_length (f_config f)) (\<lambda>l. Ok (Slot (epoch e * l)))"

definition stake_distribution_snapshot :: "Follower \<Rightarrow> Epoch \<Rightarrow> hash \<Rightarrow> (exn, LedgerState) res" where
  "stake_distribution_snapshot f e t =
     bind_res (epoch_length (f_config f)) (\<lambda>l.
       state_at_slot_beginning f t (Slot (epoch (prev e) * l)))"

definition nonce_snapshot :: "Follower \<Rightarrow> Epoch \<Rightarrow> hash \<Rightarrow> (exn, LedgerState) res" where
  "nonce_snapshot f e t =
     bind_res (epoch_relative_nonce_slot (f_config f)) (\<lambda>r.
     bind_res (epoch_start_slot f (prev e)) (\<lambda>s.
       state_at_slot_beginning f t (Slot (r + absolute_slot s))))"

text \<open>
  The estimate of the total stake. \<open>np_log\<close> gives \<open>None\<close> for NaN, which \<open>int\<close> refuses with
  \<open>ValueError\<close>. A zero logarithm makes numpy divide by zero, which gives an infinity or NaN
  instead of raising; \<open>int\<close> refuses them with \<open>OverflowError\<close> and \<open>ValueError\<close>.
\<close>

definition infer_total_active_stake ::
    "Env \<Rightarrow> Config \<Rightarrow> EpochState \<Rightarrow> LedgerState \<Rightarrow> LedgerState \<Rightarrow> (exn, int) res" where
  "infer_total_active_stake E c prev_epoch ns sd =
     (let block_proposals_last_epoch = leader_count ns - leader_count sd;
          prev_stake = fl (of_int (inferred_total_active_stake prev_epoch))
      in
      bind_res (epoch_relative_nonce_slot c) (\<lambda>T.
      bind_res (float_div (of_int block_proposals_last_epoch) (of_int T)) (\<lambda>mean_blocks_per_slot.
      bind_res (float_div 1 (fl (1 - active_slot_coeff c))) (\<lambda>x.
      case np_log E x of
        None \<Rightarrow> Err ValueError
      | Some expected_blocks_per_slot \<Rightarrow>
          let blocks_per_slot_err = fl (expected_blocks_per_slot - mean_blocks_per_slot);
              scaled = fl (total_active_stake_learning_rate c * prev_stake)
          in if expected_blocks_per_slot = 0
             then (if scaled = 0 \<or> blocks_per_slot_err = 0 then Err ValueError else Err OverflowError)
             else let h = fl (scaled / expected_blocks_per_slot)
                  in Ok (int_of_float (fl (prev_stake - fl (h * blocks_per_slot_err))))))))"

fun compute_epoch_state :: "Env \<Rightarrow> nat \<Rightarrow> Epoch \<Rightarrow> hash \<Rightarrow> (Follower, exn, EpochState) action" where
  "compute_epoch_state E 0 e t = raise RecursionError"
| "compute_epoch_state E (Suc n) e t =
     (if epoch e = 0
      then call (\<lambda>f. Ok \<lparr>es_stake_distribution_snapshot = f_genesis_state f,
                       es_nonce_snapshot = f_genesis_state f,
                       inferred_total_active_stake = initial_total_active_stake (f_config f)\<rparr>)
      else
        bind_act (call (\<lambda>f. stake_distribution_snapshot f e t)) (\<lambda>sd.
        bind_act (call (\<lambda>f. nonce_snapshot f e t)) (\<lambda>ns.
        bind_act (call (\<lambda>f. block_id E (ls_block ns))) (\<lambda>memo_block_id.
        bind_act (call (\<lambda>f. Ok (f_epoch_state f (e, memo_block_id)))) (\<lambda>memo.
        case memo of
          Some st \<Rightarrow> ret st
        | None \<Rightarrow>
            bind_act (compute_epoch_state E n (prev e) t) (\<lambda>prev_epoch.
            bind_act (call (\<lambda>f. infer_total_active_stake E (f_config f) prev_epoch ns sd)) (\<lambda>stake.
            let st = \<lparr>es_stake_distribution_snapshot = sd, es_nonce_snapshot = ns,
                      inferred_total_active_stake = stake\<rparr>
            in bind_act (modify (\<lambda>f. f\<lparr>f_epoch_state := (f_epoch_state f)((e, memo_block_id) \<mapsto> st)\<rparr>)) (\<lambda>_.
               ret st))))))))"

section \<open>Receiving blocks\<close>

definition validate_header :: "Env \<Rightarrow> BlockHeader \<Rightarrow> (Follower, exn, unit) action" where
  "validate_header E b =
     bind_act (call (\<lambda>f. assert_res (map_of (f_ledger_state f) (bh_parent b) \<noteq> None) ParentNotFound)) (\<lambda>_.
     bind_act (call (\<lambda>f. height (bh_parent b) (f_ledger_state f))) (\<lambda>hp.
     bind_act (call (\<lambda>f. height (f_lib f) (f_ledger_state f))) (\<lambda>hl.
     if hp < hl then raise ImmutableFork
     else
       bind_act (call (\<lambda>f. get_item (f_ledger_state f) (bh_parent b))) (\<lambda>current_state.
       bind_act (call (\<lambda>f. slot_epoch (f_config f) (bh_slot b))) (\<lambda>e.
       bind_act (compute_epoch_state E (recursion_limit E) e (bh_parent b)) (\<lambda>epoch_state.
       bind_act (call (\<lambda>_. verify_leader_proof E (leader_proof b) (bh_slot b) (bh_parent b)
                  (commitments (es_stake_distribution_snapshot epoch_state))
                  (nullifiers current_state))) (\<lambda>valid.
       if valid then ret () else raise InvalidLeaderProof)))))))"

definition fork_choice :: "Env \<Rightarrow> Follower \<Rightarrow> (exn, hash) res" where
  "fork_choice E f =
     (case f_state f of
        BOOTSTRAPPING \<Rightarrow>
          bind_res (security_param (f_config f)) (\<lambda>s.
            maxvalid_bg E (f_local_chain f) (f_forks f) (cfg_k (f_config f)) s (f_ledger_state f))
      | ONLINE \<Rightarrow>
          maxvalid_mc E (f_local_chain f) (f_forks f) (cfg_k (f_config f)) (f_ledger_state f))"

definition immutable_block :: "Env \<Rightarrow> Follower \<Rightarrow> (exn, hash) res" where
  "immutable_block E f =
     (if cfg_k (f_config f) < 0 then Err ValueError
      else
        let k = nat (cfg_k (f_config f)) in
        bind_res (gen_nth k (f_genesis_state f) (iter_chain (Suc k) (f_local_chain f) (f_ledger_state f)))
          (\<lambda>st. block_id E (ls_block st)))"

definition update_lib :: "Env \<Rightarrow> (Follower, exn, unit) action" where
  "update_lib E =
     bind_act (call (\<lambda>f. Ok (f_state f))) (\<lambda>state.
     if state \<noteq> ONLINE then ret ()
     else
       bind_act (call (immutable_block E)) (\<lambda>lib.
       bind_act (modify (\<lambda>f. f\<lparr>f_lib := lib\<rparr>)) (\<lambda>_.
       bind_act (call (\<lambda>f. filter_res (\<lambda>h. is_ancestor E (f_lib f) h (f_ledger_state f)) (f_forks f))) (\<lambda>forks.
       bind_act (modify (\<lambda>f. f\<lparr>f_forks := forks\<rparr>)) (\<lambda>_.
       bind_act (call (\<lambda>f. filter_res (\<lambda>(k, v). or_res (is_ancestor E (f_lib f) k (f_ledger_state f))
                                                     (is_ancestor E k (f_lib f) (f_ledger_state f)))
                                   (f_ledger_state f))) (\<lambda>S.
       modify (\<lambda>f. f\<lparr>f_ledger_state := S\<rparr>)))))))"

definition to_online :: "Env \<Rightarrow> (Follower, exn, unit) action" where
  "to_online E =
     bind_act (call (\<lambda>f. assert_res (f_state f = BOOTSTRAPPING) AssertionError)) (\<lambda>_.
     bind_act (modify (\<lambda>f. f\<lparr>f_state := ONLINE\<rparr>)) (\<lambda>_.
     update_lib E))"

text \<open>The branch of \<open>on_block\<close> that does not extend the local chain.\<close>

definition switch_fork :: "Env \<Rightarrow> BlockHeader \<Rightarrow> hash \<Rightarrow> (Follower, exn, unit) action" where
  "switch_fork E b i =
     bind_act (modify (\<lambda>f. f\<lparr>f_forks := f_forks f @ [i]\<rparr>)) (\<lambda>_.
     bind_act (modify (\<lambda>f. if bh_parent b \<in> set (f_forks f)
                           then f\<lparr>f_forks := remove1 (bh_parent b) (f_forks f)\<rparr> else f)) (\<lambda>_.
     bind_act (call (fork_choice E)) (\<lambda>new_tip.
     bind_act (modify (\<lambda>f. f\<lparr>f_forks := f_forks f @ [f_local_chain f]\<rparr>)) (\<lambda>_.
     bind_act (call (\<lambda>f. list_remove new_tip (f_forks f))) (\<lambda>forks.
     modify (\<lambda>f. f\<lparr>f_forks := forks, f_local_chain := new_tip\<rparr>))))))"

definition on_block :: "Env \<Rightarrow> BlockHeader \<Rightarrow> (Follower, exn, unit) action" where
  "on_block E b =
     bind_act (call (\<lambda>f. block_id E b)) (\<lambda>i.
     bind_act (call (\<lambda>f. Ok (map_of (f_ledger_state f) i \<noteq> None))) (\<lambda>known.
     if known then ret ()
     else
       bind_act (validate_header E b) (\<lambda>_.
       bind_act (call (\<lambda>f. get_item (f_ledger_state f) (bh_parent b))) (\<lambda>st.
       bind_act (call (\<lambda>f. apply_block E st b)) (\<lambda>new_state.
       bind_act (modify (\<lambda>f. f\<lparr>f_ledger_state := AList.update i new_state (f_ledger_state f)\<rparr>)) (\<lambda>_.
       bind_act (call (\<lambda>f. Ok (bh_parent b = f_local_chain f))) (\<lambda>extends.
       bind_act (if extends then modify (\<lambda>f. f\<lparr>f_local_chain := i\<rparr>) else switch_fork E b i) (\<lambda>_.
       bind_act (call (\<lambda>f. Ok (f_state f = ONLINE))) (\<lambda>online.
       if online then update_lib E else ret ())))))))))"

section \<open>Blocks by slot\<close>

definition add_to_slot ::
    "(Slot \<times> BlockHeader list) list \<Rightarrow> BlockHeader \<Rightarrow> (Slot \<times> BlockHeader list) list" where
  "add_to_slot d b =
     AList.update (bh_slot b) ((case map_of d (bh_slot b) of None \<Rightarrow> [] | Some bs \<Rightarrow> bs) @ [b]) d"

definition blocks_by_slot :: "Follower \<Rightarrow> Slot \<Rightarrow> BlockHeader list" where
  "blocks_by_slot f from_slot =
     (let d = foldl (\<lambda>d (k, st). if from_slot \<le> bh_slot (ls_block st) then add_to_slot d (ls_block st) else d)
                [] (f_ledger_state f)
      in concat (map (\<lambda>s. case map_of d s of None \<Rightarrow> [] | Some bs \<Rightarrow> bs) (sort (map fst d))))"

end
