(* ===== verification/Follower_Inv.thy ===== *)
theory Follower_Inv
  imports Follower
begin

text \<open>
  The invariant of the follower and the safety of its last immutable block.

  \<open>tip_inv\<close>: the dictionary is a tree rooted at the genesis state, and the local chain together
  with the forks are exactly the leaves of that tree, each once. \<open>finv\<close> adds the last immutable
  block: every state kept is its ancestor or its descendant, it is the genesis block while
  bootstrapping, and online it lies \<open>k\<close> blocks below the tip (or is genesis).

  The step relation \<open>fstep\<close> is one call of \<open>on_block\<close> or \<open>to_online\<close>, successful or not. Its one
  hypothesis is on the hash function: no block hashes to the parent of the genesis block.
\<close>

section \<open>Definitions\<close>

abbreviation gid :: "Env \<Rightarrow> Follower \<Rightarrow> hash" where
  "gid E f \<equiv> the_id E (ls_block (f_genesis_state f))"

abbreviation fk :: "Follower \<Rightarrow> nat" where
  "fk f \<equiv> nat (cfg_k (f_config f))"

definition tip_inv :: "Env \<Rightarrow> Follower \<Rightarrow> bool" where
  "tip_inv E f \<longleftrightarrow>
     0 \<le> cfg_k (f_config f) \<and>
     tree_ok E (gid E f) (f_ledger_state f) \<and>
     map_of (f_ledger_state f) (gid E f) = Some (f_genesis_state f) \<and>
     distinct (f_local_chain f # f_forks f) \<and>
     set (f_local_chain f # f_forks f) = leaves (f_ledger_state f)"

text \<open>\<open>l\<close> is the block \<open>k\<close> below the tip of the local chain, or genesis on a shorter chain.\<close>

definition lib_spec :: "Env \<Rightarrow> Follower \<Rightarrow> hash \<Rightarrow> bool" where
  "lib_spec E f l \<longleftrightarrow>
     l \<in> set (chain_ids E (f_ledger_state f) (f_local_chain f)) \<and>
     (if fk f < length (chain (f_ledger_state f) (f_local_chain f))
      then chain (f_ledger_state f) l = drop (fk f) (chain (f_ledger_state f) (f_local_chain f))
      else l = gid E f)"

definition finv :: "Env \<Rightarrow> Follower \<Rightarrow> bool" where
  "finv E f \<longleftrightarrow>
     tip_inv E f \<and> f_lib f \<in> keys (f_ledger_state f) \<and>
     (\<forall>h \<in> keys (f_ledger_state f). kept E (f_ledger_state f) (f_lib f) h) \<and>
     (case f_state f of BOOTSTRAPPING \<Rightarrow> f_lib f = gid E f | ONLINE \<Rightarrow> lib_spec E f (f_lib f))"

section \<open>Epoch states only touch the memo table\<close>

lemma compute_epoch_state_frame:
  "compute_epoch_state E n e t f = (r, f') \<Longrightarrow> \<exists>m. f' = f\<lparr>f_epoch_state := m\<rparr>"
proof (induction n arbitrary: e f r f')
  case 0
  then have "f' = f\<lparr>f_epoch_state := f_epoch_state f\<rparr>" by simp
  then show ?case by blast
next
  case (Suc n)
  have self: "\<exists>m. g = g\<lparr>f_epoch_state := m\<rparr>" for g :: Follower
    by (rule exI [of _ "f_epoch_state g"]) simp
  obtain r1 f1 where c: "compute_epoch_state E n (prev e) t f = (r1, f1)" by (cases "compute_epoch_state E n (prev e) t f")
  from Suc.IH [OF c] obtain m where f1: "f1 = f\<lparr>f_epoch_state := m\<rparr>" by blast
  from Suc.prems self [of f] show ?case
    by (auto simp: act_simps bind_act_def c f1 Let_def split: if_splits res.splits option.splits)
qed

lemma state_before_gen_of: "\<exists>st. state_before s g (gen_of cs) = Ok st"
  by (induction cs) auto

lemma state_at_slot_beginning_Ok:
  "wf_states E (f_ledger_state f) \<Longrightarrow> \<exists>st. state_at_slot_beginning f t s = Ok st"
  by (simp add: state_at_slot_beginning_def iter_chain_bound_eq state_before_gen_of)

lemma base_period_length_not_Diverge [simp]: "base_period_length c \<noteq> Diverge"
  by (simp add: base_period_length_def res_simps)

lemma epoch_length_not_Diverge [simp]: "epoch_length c \<noteq> Diverge" "epoch_relative_nonce_slot c \<noteq> Diverge"
  by (simp_all add: epoch_length_def epoch_relative_nonce_slot_def res_simps)

lemma slot_epoch_not_Diverge [simp]: "slot_epoch c s \<noteq> Diverge"
  by (simp add: slot_epoch_def res_simps)

lemma state_at_slot_beginning_not_Diverge:
  assumes "wf_states E (f_ledger_state f)"
  shows "state_at_slot_beginning f t s \<noteq> Diverge"
  using state_at_slot_beginning_Ok [OF assms, of t s] by auto

lemma snapshots_not_Diverge:
  assumes "wf_states E (f_ledger_state f)"
  shows "stake_distribution_snapshot f e t \<noteq> Diverge" and "nonce_snapshot f e t \<noteq> Diverge"
  using state_at_slot_beginning_not_Diverge [OF assms]
  by (auto simp: stake_distribution_snapshot_def nonce_snapshot_def epoch_start_slot_def res_simps)

lemma infer_not_Diverge [simp]: "infer_total_active_stake E c p ns sd \<noteq> Diverge"
  by (auto simp: infer_total_active_stake_def Let_def res_simps split: option.splits)

lemma compute_epoch_state_returns:
  "compute_epoch_state E n e t f = (r, f') \<Longrightarrow> wf_states E (f_ledger_state f) \<Longrightarrow> r \<noteq> Diverge"
proof (induction n arbitrary: e f r f')
  case (Suc n)
  obtain r1 f1 where c: "compute_epoch_state E n (prev e) t f = (r1, f1)" by (cases "compute_epoch_state E n (prev e) t f")
  from Suc.IH [OF c Suc.prems(2)] have "r1 \<noteq> Diverge" .
  with Suc.prems(1) snapshots_not_Diverge [OF Suc.prems(2)] show ?case
    by (auto simp: act_simps bind_act_def c Let_def split: if_splits res.splits option.splits)
qed simp

section \<open>Validation\<close>

text \<open>The memo table that validating a block leaves: the old one, or that of one epoch state computed.\<close>

definition evaluated :: "Env \<Rightarrow> BlockHeader \<Rightarrow> Follower \<Rightarrow> (Epoch \<times> hash \<Rightarrow> EpochState option) \<Rightarrow> bool" where
  "evaluated E b f m \<longleftrightarrow> m = f_epoch_state f \<or>
     (bh_parent b \<in> keys (f_ledger_state f) \<and>
      (\<exists>e r f1. compute_epoch_state E (recursion_limit E) e (bh_parent b) f = (r, f1) \<and> m = f_epoch_state f1))"

lemma validate_header_frame:
  assumes "validate_header E b f = (r, f')"
  shows "\<exists>m. f' = f\<lparr>f_epoch_state := m\<rparr> \<and> evaluated E b f m"
proof -
  have self: "\<exists>m. f = f\<lparr>f_epoch_state := m\<rparr> \<and> evaluated E b f m"
    by (rule exI [of _ "f_epoch_state f"]) (simp add: evaluated_def)
  show ?thesis
  proof (cases "slot_epoch (f_config f) (bh_slot b)")
    case (Ok e)
    obtain r1 f1 where c: "compute_epoch_state E (recursion_limit E) e (bh_parent b) f = (r1, f1)"
      by (cases "compute_epoch_state E (recursion_limit E) e (bh_parent b) f")
    from compute_epoch_state_frame [OF c] obtain m where f1: "f1 = f\<lparr>f_epoch_state := m\<rparr>" by blast
    have "f' = f \<or> (f' = f1 \<and> bh_parent b \<in> keys (f_ledger_state f))"
      using assms Ok keys_dom [of "f_ledger_state f"]
      by (auto simp: validate_header_def act_simps bind_act_def c split: if_splits res.splits)
    moreover have "evaluated E b f m" if "bh_parent b \<in> keys (f_ledger_state f)"
      using that c f1 unfolding evaluated_def by (intro disjI2 conjI exI [of _ e] exI [of _ r1] exI [of _ f1]) simp_all
    ultimately show ?thesis using f1 self by blast
  qed (use assms self in \<open>auto simp: validate_header_def act_simps bind_act_def split: if_splits res.splits\<close>)
qed

lemma validate_header_returns:
  assumes "validate_header E b f = (r, f')" and wf: "wf_states E (f_ledger_state f)"
    and lib: "f_lib f \<in> keys (f_ledger_state f)"
  shows "r \<noteq> Diverge"
proof (cases "map_of (f_ledger_state f) (bh_parent b)")
  case None
  with assms(1) show ?thesis by (auto simp: validate_header_def act_simps)
next
  case (Some st)
  then have "bh_parent b \<in> keys (f_ledger_state f)" by (rule keys_Some)
  with wf lib have h: "height (bh_parent b) (f_ledger_state f) \<noteq> Diverge" "height (f_lib f) (f_ledger_state f) \<noteq> Diverge"
    by (simp_all add: height_eq)
  show ?thesis
  proof (cases "slot_epoch (f_config f) (bh_slot b)")
    case (Ok e)
    obtain r1 f1 where c: "compute_epoch_state E (recursion_limit E) e (bh_parent b) f = (r1, f1)"
      by (cases "compute_epoch_state E (recursion_limit E) e (bh_parent b) f")
    with assms(1) h Ok Some compute_epoch_state_returns [OF c wf] show ?thesis
      by (auto simp: validate_header_def act_simps bind_act_def get_item_def split: if_splits res.splits)
  qed (use assms(1) h Some in \<open>auto simp: validate_header_def act_simps get_item_def split: if_splits res.splits\<close>)
qed

text \<open>The leader proof of an accepted block was checked against the epoch state of its slot.\<close>

definition accepted_proof :: "Env \<Rightarrow> BlockHeader \<Rightarrow> Follower \<Rightarrow> Follower \<Rightarrow> bool" where
  "accepted_proof E b f f' \<longleftrightarrow>
     (\<exists>e es st. slot_epoch (f_config f) (bh_slot b) = Ok e \<and>
        compute_epoch_state E (recursion_limit E) e (bh_parent b) f = (Ok es, f') \<and>
        map_of (f_ledger_state f) (bh_parent b) = Some st \<and>
        verify_leader_proof E (leader_proof b) (bh_slot b) (bh_parent b)
          (commitments (es_stake_distribution_snapshot es)) (nullifiers st) = Ok True)"

lemma validate_header_Ok:
  assumes "validate_header E b f = (Ok u, f')" and wf: "wf_states E (f_ledger_state f)"
    and lib: "f_lib f \<in> keys (f_ledger_state f)"
  shows "bh_parent b \<in> keys (f_ledger_state f)"
    and "length (chain (f_ledger_state f) (f_lib f)) \<le> length (chain (f_ledger_state f) (bh_parent b))"
    and "\<exists>s. security_param (f_config f) = Ok s"
    and "accepted_proof E b f f'"
proof -
  from assms(1) obtain st where st: "map_of (f_ledger_state f) (bh_parent b) = Some st"
    by (cases "map_of (f_ledger_state f) (bh_parent b)") (auto simp: validate_header_def act_simps)
  then show p: "bh_parent b \<in> keys (f_ledger_state f)" by (rule keys_Some)
  note h = height_eq [OF wf p] height_eq [OF wf lib] and pd = p [folded keys_dom]
  show "length (chain (f_ledger_state f) (f_lib f)) \<le> length (chain (f_ledger_state f) (bh_parent b))"
    using assms(1) pd by (auto simp: validate_header_def act_simps h split: if_splits)
  show "\<exists>s. security_param (f_config f) = Ok s"
  proof (cases "base_period_length (f_config f)")
    case (Err e)
    then have "slot_epoch (f_config f) (bh_slot b) = Err e"
      by (simp add: slot_epoch_def epoch_length_def epoch_relative_nonce_slot_def)
    with assms(1) pd show ?thesis
      by (auto simp: validate_header_def act_simps h get_item_def split: if_splits)
  qed (simp_all add: security_param_def)
  obtain e where e: "slot_epoch (f_config f) (bh_slot b) = Ok e"
    using assms(1) st h
    by (cases "slot_epoch (f_config f) (bh_slot b)")
       (auto simp: validate_header_def act_simps get_item_def split: if_splits)
  obtain r1 f1 where c: "compute_epoch_state E (recursion_limit E) e (bh_parent b) f = (r1, f1)"
    by (cases "compute_epoch_state E (recursion_limit E) e (bh_parent b) f")
  show "accepted_proof E b f f'"
    using assms(1) st h e c unfolding accepted_proof_def
    by (cases r1) (auto simp: validate_header_def act_simps bind_act_def get_item_def split: if_splits res.splits)
qed

section \<open>The tips after an insertion\<close>

lemma finvD:
  assumes "finv E f"
  shows "tip_inv E f" and "tree_ok E (gid E f) (f_ledger_state f)" and "wf_states E (f_ledger_state f)"
    and "f_lib f \<in> keys (f_ledger_state f)" and "f_local_chain f \<in> keys (f_ledger_state f)"
    and "map_of (f_ledger_state f) (gid E f) = Some (f_genesis_state f)"
  using assms by (auto simp: finv_def tip_inv_def tree_ok_def leaves_def)

lemma tip_invD:
  assumes "tip_inv E f"
  shows "tree_ok E (gid E f) (f_ledger_state f)" and "wf_states E (f_ledger_state f)"
    and "gid E f \<in> keys (f_ledger_state f)" and "f_local_chain f \<in> keys (f_ledger_state f)"
    and "set (f_forks f) \<subseteq> keys (f_ledger_state f)"
  using assms by (auto simp: tip_inv_def tree_ok_def leaves_def)

text \<open>Inserting a block: the new leaf replaces its parent, if that was one.\<close>

definition insert_state :: "Follower \<Rightarrow> hash \<Rightarrow> LedgerState \<Rightarrow> Follower" where
  "insert_state f i st = f\<lparr>f_ledger_state := f_ledger_state f @ [(i, st)]\<rparr>"

lemma insert_keeps_genesis:
  "tip_inv E f \<Longrightarrow> insertable E (gid E f) (f_ledger_state f) i st \<Longrightarrow>
   map_of (f_ledger_state f @ [(i, st)]) (gid E f) = Some (f_genesis_state f)"
  using tip_invD(3) [of E f] by (auto simp: map_of_snoc insertable_def tip_inv_def)

lemma extend_local_tip_inv:
  assumes inv: "tip_inv E f" and ins: "insertable E (gid E f) (f_ledger_state f) i st"
    and ext: "parent_of st = f_local_chain f"
  shows "tip_inv E ((insert_state f i st)\<lparr>f_local_chain := i\<rparr>)"
proof -
  note tree = tip_invD(1) [OF inv]
  have "i \<notin> leaves (f_ledger_state f)" using ins by (auto simp: insertable_def leaves_def)
  with inv have "i \<notin> set (f_forks f)" by (auto simp: tip_inv_def)
  then show ?thesis
    using inv tree_ok_insert [OF tree ins] leaves_insert [OF tree ins] insert_keeps_genesis [OF inv ins]
    by (auto simp: tip_inv_def insert_state_def ext)
qed

lemma fork_choice_Ok:
  assumes tree: "tree_ok E g (f_ledger_state f)" and keys: "set (f_local_chain f # f_forks f) \<subseteq> keys (f_ledger_state f)"
    and s: "security_param (f_config f) = Ok s"
  shows "\<exists>t \<in> set (f_local_chain f # f_forks f). fork_choice E f = Ok t \<and>
    (f_state f = ONLINE \<longrightarrow> extends_upto (fk f) (f_ledger_state f) (f_local_chain f) t)"
proof (cases "f_state f")
  case ONLINE
  with praos.select_total [OF tree, of "f_local_chain f" "f_forks f" "cfg_k (f_config f)"] keys
  show ?thesis by (auto simp: fork_choice_def)
next
  case BOOTSTRAPPING
  with genesis.select_total [OF tree, of "f_local_chain f" "f_forks f" "cfg_k (f_config f)" s] keys s
  show ?thesis by (auto simp: fork_choice_def)
qed

lemma switch_fork_steps:
  assumes "forks1 = (if bh_parent b \<in> set (f_forks g @ [i]) then remove1 (bh_parent b) (f_forks g @ [i])
      else f_forks g @ [i])"
    and "fork_choice E (g\<lparr>f_forks := forks1\<rparr>) = Ok t" and "t \<in> set (forks1 @ [f_local_chain g])"
  shows "switch_fork E b i g =
    (Ok (), g\<lparr>f_forks := remove1 t (forks1 @ [f_local_chain g]), f_local_chain := t\<rparr>)"
proof (cases "bh_parent b \<in> set (f_forks g @ [i])")
  case True
  with assms show ?thesis
    by (simp add: switch_fork_def act_simps list_remove_def del: set_append remove1.simps)
next
  case False
  with assms show ?thesis
    by (simp add: switch_fork_def act_simps list_remove_def del: set_append)
qed

lemma switch_fork_tip_inv:
  assumes inv: "tip_inv E f" and ins: "insertable E (gid E f) (f_ledger_state f) i st"
    and par: "parent_of st = bh_parent b" and other: "bh_parent b \<noteq> f_local_chain f"
    and s: "security_param (f_config f) = Ok s"
  shows "\<exists>forks t. switch_fork E b i (insert_state f i st) =
      (Ok (), (insert_state f i st)\<lparr>f_forks := forks, f_local_chain := t\<rparr>) \<and>
      tip_inv E ((insert_state f i st)\<lparr>f_forks := forks, f_local_chain := t\<rparr>) \<and>
      (f_state f = ONLINE \<longrightarrow>
        extends_upto (fk f) (f_ledger_state (insert_state f i st)) (f_local_chain f) t)"
proof -
  note tree = tip_invD(1) [OF inv]
  let ?S = "f_ledger_state f @ [(i, st)]" and ?p = "bh_parent b" and ?l = "f_local_chain f"
  define forks1 where "forks1 = (if ?p \<in> set (f_forks f) then remove1 ?p (f_forks f @ [i]) else f_forks f @ [i])"
  let ?f1 = "(insert_state f i st)\<lparr>f_forks := forks1\<rparr>"
  have p: "?p \<noteq> i" "i \<notin> keys (f_ledger_state f)" using ins par by (auto simp: insertable_def)
  have l: "?l \<in> keys (f_ledger_state f)" "?l \<notin> set (f_forks f)" "distinct (f_forks f)"
    using tip_invD(4) [OF inv] inv by (auto simp: tip_inv_def)
  have i: "i \<noteq> ?l" "i \<notin> set (f_forks f)" using p l tip_invD(5) [OF inv] by auto
  have d1: "distinct (?l # forks1)"
    using l i by (auto simp: forks1_def distinct_remove1)
  have s1: "set (?l # forks1) = leaves ?S"
  proof -
    have "set forks1 = insert i (set (f_forks f)) - {?p}"
      using l(3) i p by (simp add: forks1_def set_remove1_eq insert_commute)
    moreover have "leaves (f_ledger_state f) = insert ?l (set (f_forks f))"
      using inv by (simp add: tip_inv_def)
    ultimately show ?thesis
      using leaves_insert [OF tree ins] other p(1) by (simp add: par) blast
  qed
  then have k1: "set (?l # forks1) \<subseteq> keys ?S" by (auto simp: leaves_def)
  have tree1: "tree_ok E (gid E f) ?S" by (rule tree_ok_insert [OF tree ins])
  have "\<exists>t \<in> set (f_local_chain ?f1 # f_forks ?f1). fork_choice E ?f1 = Ok t \<and>
      (f_state ?f1 = ONLINE \<longrightarrow> extends_upto (fk ?f1) (f_ledger_state ?f1) (f_local_chain ?f1) t)"
    by (rule fork_choice_Ok [of E "gid E f" _ s]) (use tree1 k1 s in \<open>simp_all add: insert_state_def\<close>)
  then obtain t where "t \<in> set (f_local_chain ?f1 # f_forks ?f1)" and fc: "fork_choice E ?f1 = Ok t"
      and "f_state ?f1 = ONLINE \<longrightarrow> extends_upto (fk ?f1) (f_ledger_state ?f1) (f_local_chain ?f1) t"
    by blast
  then have t: "t \<in> set (?l # forks1)" "f_state f = ONLINE \<longrightarrow> extends_upto (fk f) ?S ?l t"
    by (simp_all add: insert_state_def)
  let ?forks = "remove1 t (forks1 @ [?l])"
  have sets: "set (t # ?forks) = set (?l # forks1)" "distinct (t # ?forks)"
    using t(1) d1 by (auto simp: set_remove1_eq distinct_remove1)
  have "tip_inv E ((insert_state f i st)\<lparr>f_forks := ?forks, f_local_chain := t\<rparr>)"
    using inv tree1 sets s1 insert_keeps_genesis [OF inv ins]
    by (simp add: tip_inv_def insert_state_def)
  moreover have "switch_fork E b i (insert_state f i st) =
      (Ok (), (insert_state f i st)\<lparr>f_forks := ?forks, f_local_chain := t\<rparr>)"
    using switch_fork_steps [of forks1 b "insert_state f i st" i E t] fc t(1) p(1)
    by (auto simp: forks1_def insert_state_def)
  ultimately show ?thesis using t(2) by (auto simp: insert_state_def)
qed

section \<open>The last immutable block\<close>

lemma gen_nth_iter_chain:
  "chain_of S t cs \<Longrightarrow> k < n \<Longrightarrow>
   gen_nth k d (iter_chain n t S) = Ok (if k < length cs then cs ! k else d)"
proof (induction arbitrary: k n rule: chain_of.induct)
  case (chain_stop t)
  then show ?case by (cases n) auto
next
  case (chain_step t st cs)
  then show ?case by (cases n; cases k) auto
qed

lemma immutable_block_eq:
  assumes inv: "tip_inv E f"
  shows "\<exists>l. immutable_block E f = Ok l \<and> lib_spec E f l"
proof -
  let ?S = "f_ledger_state f" and ?cs = "chain (f_ledger_state f) (f_local_chain f)"
  note wf = tip_invD(2) [OF inv] and k0 = inv [unfolded tip_inv_def, THEN conjunct1]
  have nth: "gen_nth (fk f) (f_genesis_state f) (iter_chain (Suc (fk f)) (f_local_chain f) ?S) =
      (Ok (if fk f < length ?cs then ?cs ! fk f else f_genesis_state f) :: (exn, LedgerState) res)"
    by (rule gen_nth_iter_chain [OF chain_of_chain [OF wf]]) simp
  show ?thesis
  proof (cases "fk f < length ?cs")
    case True
    let ?st = "?cs ! fk f"
    have split: "?cs = take (fk f) ?cs @ ?st # drop (Suc (fk f)) ?cs"
      using True by (rule id_take_nth_drop)
    have "?st \<in> set ?cs" using True by simp
    then have "block_id E (ls_block ?st) = Ok (the_id E (ls_block ?st))"
        and "the_id E (ls_block ?st) \<in> set (chain_ids E ?S (f_local_chain f))"
      using chain_mem(2) [OF wf] by (auto simp: chain_ids_def)
    moreover have "chain ?S (the_id E (ls_block ?st)) = drop (fk f) ?cs"
      using chain_split(2) [OF wf split] Cons_nth_drop_Suc [OF True] by simp
    ultimately show ?thesis
      using True nth k0 by (auto simp: immutable_block_def Let_def lib_spec_def)
  next
    case False
    have "map_of ?S (gid E f) = Some (f_genesis_state f)" using inv by (simp add: tip_inv_def)
    then have "block_id E (ls_block (f_genesis_state f)) = Ok (gid E f)" by (rule wf_map_of_id [OF wf])
    moreover have "gid E f \<in> set (chain_ids E ?S (f_local_chain f))"
      using chain_root [OF tip_invD(1) [OF inv] tip_invD(4) [OF inv]] tip_invD(3) [OF inv]
      by (simp add: anc_iff_suffix [OF wf])
    ultimately show ?thesis
      using False nth k0 by (auto simp: immutable_block_def Let_def lib_spec_def)
  qed
qed

lemma update_lib_online:
  assumes inv: "tip_inv E f" and on: "f_state f = ONLINE"
  shows "\<exists>l forks. let f' = f\<lparr>f_lib := l, f_forks := forks, f_ledger_state := prune E l (f_ledger_state f)\<rparr> in
     update_lib E f = (Ok (), f') \<and> lib_spec E f l \<and> finv E f'"
proof -
  let ?S = "f_ledger_state f" and ?t = "f_local_chain f"
  note tree = tip_invD(1) [OF inv] and wf = tip_invD(2) [OF inv]
  obtain l where im: "immutable_block E f = Ok l" and spec: "lib_spec E f l"
    using immutable_block_eq [OF inv] by blast
  have lt: "l \<in> set (chain_ids E ?S ?t)" using spec by (simp add: lib_spec_def)
  then have l: "l \<in> keys ?S" using chain_ids_subset [OF wf] by blast
  let ?P = "prune E l ?S" and ?forks = "filter (\<lambda>h. l \<in> set (chain_ids E ?S h)) (f_forks f)"
  let ?f = "f\<lparr>f_lib := l, f_forks := ?forks, f_ledger_state := ?P\<rparr>"
  note tree' = tree_ok_prune [OF tree l] and keys' = keys_prune [OF tree l] and map' = map_of_prune [OF tree l]
  have g: "kept E ?S l (gid E f)"
    using chain_root [OF tree l] tip_invD(3) [OF inv] by (simp add: kept_def anc_iff_suffix [OF wf])
  have kt: "kept E ?S l ?t" and kl: "kept E ?S l l"
    using lt tip_in_chain_ids [OF wf l] by (auto simp: kept_def)
  have "tip_inv E ?f"
    using inv lt leaves_prune [OF tree l] tree' map' g by (auto simp: tip_inv_def)
  moreover have "kept E ?P l h" if "h \<in> keys ?P" for h
    using that by (simp add: keys' kept_def [of E ?P] chain_ids_prune [OF tree l] kl) (simp add: kept_def)
  moreover have "l \<in> keys ?P" using l kl by (simp add: keys')
  moreover have "lib_spec E ?f l"
    using spec by (simp add: lib_spec_def chain_ids_prune [OF tree l] chain_prune [OF tree l] kt kl)
  ultimately have "finv E ?f" using on by (simp add: finv_def)
  moreover have "update_lib E f = (Ok (), ?f)"
  proof -
    have F: "filter_res (\<lambda>h. is_ancestor E l h ?S) (f_forks f) = Ok ?forks"
      by (rule filter_res_Ok) (simp add: is_ancestor_eq [OF wf])
    have P: "filter_res (\<lambda>(k, v). or_res (is_ancestor E l k ?S) (is_ancestor E k l ?S)) ?S = Ok ?P"
      unfolding prune_def by (rule filter_res_Ok) (auto simp: is_ancestor_eq [OF wf] kept_def)
    show ?thesis using on im F P by (simp add: update_lib_def act_simps)
  qed
  ultimately show ?thesis using spec by (auto simp: Let_def)
qed

text \<open>\<open>update_lib\<close> after a move that undoes at most \<open>k\<close> blocks does not undo the last immutable block.\<close>

definition lib_ext :: "Follower \<Rightarrow> Follower \<Rightarrow> bool" where
  "lib_ext f f' \<longleftrightarrow> suffix (chain (f_ledger_state f) (f_lib f)) (chain (f_ledger_state f') (f_lib f'))"

lemma lib_spec_advances:
  assumes tree: "tree_ok E (gid E f) S'" and t': "t' \<in> keys S'"
    and old: "lib_spec E f l"
    and same: "chain S' (f_local_chain f) = chain (f_ledger_state f) (f_local_chain f)"
      "chain S' (gid E f) = chain (f_ledger_state f) (gid E f)"
    and ext: "extends_upto (fk f) S' (f_local_chain f) t'"
    and l': "l' \<in> set (chain_ids E S' t')"
      "fk f < length (chain S' t') \<longrightarrow> chain S' l' = drop (fk f) (chain S' t')"
  shows "suffix (chain (f_ledger_state f) l) (chain S' l')"
proof (cases "fk f < length (chain (f_ledger_state f) (f_local_chain f))")
  case True
  with old ext same have "chain (f_ledger_state f) l = drop (fk f) (chain S' (f_local_chain f))"
      "fk f < length (chain S' t')"
    by (auto simp: lib_spec_def extends_upto_def)
  moreover have "suffix (drop (fk f) (chain S' (f_local_chain f))) (drop (fk f) (chain S' t'))"
    using True ext same by (intro suffix_drop_le) (auto simp: extends_upto_def)
  ultimately show ?thesis using l' by simp
next
  case False
  from tree have wf: "wf_states E S'" by (simp add: tree_ok_def)
  from l'(1) chain_ids_subset [OF wf] have "l' \<in> keys S'" by blast
  with chain_root [OF tree this] False old same show ?thesis by (simp add: lib_spec_def)
qed

section \<open>One call of on_block\<close>

text \<open>
  The three ways \<open>on_block\<close> can go: the block is known already; something raised before the
  dictionary was touched, and at most the memo table grew; or the block was inserted, the tips
  were updated, and online the last immutable block moved.
\<close>

definition no_genesis_parent :: "Env \<Rightarrow> LedgerState \<Rightarrow> BlockHeader \<Rightarrow> bool" where
  "no_genesis_parent E g b \<longleftrightarrow> block_id E b \<noteq> Ok (parent_of g)"

definition inserted :: "Env \<Rightarrow> BlockHeader \<Rightarrow> Follower \<Rightarrow> Follower \<Rightarrow> bool" where
  "inserted E b f f' \<longleftrightarrow>
     (\<exists>i st0 st m lib S forks t.
        block_id E b = Ok i \<and> insertable E (gid E f) (f_ledger_state f) i st \<and>
        map_of (f_ledger_state f) (bh_parent b) = Some st0 \<and> apply_block E st0 b = Ok st \<and>
        length (chain (f_ledger_state f) (f_lib f)) \<le> length (chain (f_ledger_state f) (bh_parent b)) \<and>
        accepted_proof E b f (f\<lparr>f_epoch_state := m\<rparr>) \<and> evaluated E b f m \<and>
        S = (if f_state f = ONLINE then prune E lib (f_ledger_state f @ [(i, st)])
             else f_ledger_state f @ [(i, st)]) \<and> lib \<in> keys (f_ledger_state f @ [(i, st)]) \<and>
        f' = f\<lparr>f_epoch_state := m, f_ledger_state := S, f_forks := forks, f_local_chain := t, f_lib := lib\<rparr> \<and>
        finv E f' \<and> lib_ext f f')"

lemma finv_memo: "finv E (f\<lparr>f_epoch_state := m\<rparr>) = finv E f"
  by (cases "f_state f") (simp_all add: finv_def tip_inv_def lib_spec_def)

lemma on_block_tips:
  assumes inv: "tip_inv E f" and ins: "insertable E (gid E f) (f_ledger_state f) i st"
    and par: "parent_of st = bh_parent b" and s: "security_param (f_config f) = Ok s"
  shows "\<exists>forks t. (if bh_parent b = f_local_chain f then modify (\<lambda>f. f\<lparr>f_local_chain := i\<rparr>) else switch_fork E b i)
        (insert_state f i st) = (Ok (), (insert_state f i st)\<lparr>f_forks := forks, f_local_chain := t\<rparr>) \<and>
      tip_inv E ((insert_state f i st)\<lparr>f_forks := forks, f_local_chain := t\<rparr>) \<and>
      (f_state f = ONLINE \<longrightarrow>
        extends_upto (fk f) (f_ledger_state f @ [(i, st)]) (f_local_chain f) t)"
proof (cases "bh_parent b = f_local_chain f")
  case True
  note tree = tip_invD(1) [OF inv]
  have "f_local_chain f \<noteq> i" using tip_invD(4) [OF inv] ins by (auto simp: insertable_def)
  with True have "extends_upto (fk f) (f_ledger_state f @ [(i, st)]) (f_local_chain f) i"
    by (auto simp: extends_upto_def chain_insert_new [OF tree ins] chain_insert_old [OF tree ins] par
        intro!: suffix_ConsI suffix_drop)
  moreover have "(insert_state f i st)\<lparr>f_local_chain := i\<rparr> =
      (insert_state f i st)\<lparr>f_forks := f_forks f, f_local_chain := i\<rparr>"
    by (simp add: insert_state_def)
  ultimately show ?thesis
    using extend_local_tip_inv [OF inv ins] True par by (intro exI [of _ "f_forks f"] exI [of _ i]) simp
next
  case False
  from switch_fork_tip_inv [OF inv ins par False s] False show ?thesis
    by (auto simp: insert_state_def)
qed


text \<open>What follows the insertion: the tips are updated, then the last immutable block.\<close>

abbreviation after_insert :: "Env \<Rightarrow> BlockHeader \<Rightarrow> hash \<Rightarrow> (Follower, exn, unit) action" where
  "after_insert E b i \<equiv>
     bind_act (call (\<lambda>f. Ok (bh_parent b = f_local_chain f))) (\<lambda>extends.
     bind_act (if extends then modify (\<lambda>f. f\<lparr>f_local_chain := i\<rparr>) else switch_fork E b i) (\<lambda>_.
     bind_act (call (\<lambda>f. Ok (f_state f = ONLINE))) (\<lambda>online.
     if online then update_lib E else ret ())))"

lemma after_insert_eq:
  assumes tips: "(if bh_parent b = f_local_chain f then modify (\<lambda>f. f\<lparr>f_local_chain := i\<rparr>) else switch_fork E b i)
        (insert_state f i st) = (Ok (), g)"
    and "f_state g = f_state f"
  shows "after_insert E b i (insert_state f i st) =
    (if f_state f = ONLINE then update_lib E g else (Ok (), g))"
  using assms by (cases "bh_parent b = f_local_chain f") (auto simp: bind_act_def insert_state_def)

lemma after_insert_bootstrapping:
  assumes inv: "finv E f" and ins: "insertable E (gid E f) (f_ledger_state f) i st"
    and boot: "f_state f = BOOTSTRAPPING"
    and tips: "tip_inv E ((insert_state f i st)\<lparr>f_forks := forks, f_local_chain := t\<rparr>)"
  shows "finv E ((insert_state f i st)\<lparr>f_forks := forks, f_local_chain := t\<rparr>)"
    and "lib_ext f ((insert_state f i st)\<lparr>f_forks := forks, f_local_chain := t\<rparr>)"
proof -
  let ?S = "f_ledger_state f @ [(i, st)]"
  note tree = finvD(2) [OF inv]
  have lib: "f_lib f = gid E f" and g: "gid E f \<in> keys (f_ledger_state f)"
    using inv boot finvD(4) [OF inv] by (simp_all add: finv_def)
  note tree' = tree_ok_insert [OF tree ins]
  then have wf': "wf_states E ?S" by (simp add: tree_ok_def)
  have g': "gid E f \<in> keys ?S" using g by (simp add: keys_def)
  have "kept E ?S (gid E f) h" if "h \<in> keys ?S" for h
    using chain_root [OF tree' that] by (simp add: kept_def anc_iff_suffix [OF wf' g'])
  then show "finv E ((insert_state f i st)\<lparr>f_forks := forks, f_local_chain := t\<rparr>)"
    using tips boot lib g' by (simp add: finv_def insert_state_def)
  have "gid E f \<noteq> i" using ins g by (auto simp: insertable_def)
  then show "lib_ext f ((insert_state f i st)\<lparr>f_forks := forks, f_local_chain := t\<rparr>)"
    by (simp add: lib_ext_def insert_state_def lib chain_insert_old [OF tree ins])
qed

lemma after_insert_online:
  assumes inv: "finv E f" and ins: "insertable E (gid E f) (f_ledger_state f) i st"
    and on: "f_state f = ONLINE"
    and tips: "tip_inv E ((insert_state f i st)\<lparr>f_forks := forks, f_local_chain := t\<rparr>)"
    and ext: "extends_upto (fk f) (f_ledger_state f @ [(i, st)]) (f_local_chain f) t"
  shows "\<exists>lib forks'. let f' = f\<lparr>f_ledger_state := prune E lib (f_ledger_state f @ [(i, st)]),
       f_forks := forks', f_local_chain := t, f_lib := lib\<rparr> in
     lib \<in> keys (f_ledger_state f @ [(i, st)]) \<and> update_lib E ((insert_state f i st)\<lparr>f_forks := forks, f_local_chain := t\<rparr>) = (Ok (), f') \<and>
     finv E f' \<and> lib_ext f f'"
proof -
  let ?S = "f_ledger_state f @ [(i, st)]" and ?g = "(insert_state f i st)\<lparr>f_forks := forks, f_local_chain := t\<rparr>"
  note tree = finvD(2) [OF inv]
  note tree' = tree_ok_insert [OF tree ins]
  have "f_state ?g = ONLINE" using on by (simp add: insert_state_def)
  from update_lib_online [OF tips this] obtain l forks' where
      u: "update_lib E ?g = (Ok (), ?g\<lparr>f_lib := l, f_forks := forks', f_ledger_state := prune E l (f_ledger_state ?g)\<rparr>)"
      and spec: "lib_spec E ?g l"
      and fin: "finv E (?g\<lparr>f_lib := l, f_forks := forks', f_ledger_state := prune E l (f_ledger_state ?g)\<rparr>)"
    by (auto simp: Let_def)
  let ?f = "f\<lparr>f_ledger_state := prune E l ?S, f_forks := forks', f_local_chain := t, f_lib := l\<rparr>"
  have g: "?g\<lparr>f_lib := l, f_forks := forks', f_ledger_state := prune E l (f_ledger_state ?g)\<rparr> = ?f"
    by (simp add: insert_state_def)
  have t: "t \<in> keys ?S" using tip_invD(4) [OF tips] by (simp add: insert_state_def)
  have l: "l \<in> set (chain_ids E ?S t)" "fk f < length (chain ?S t) \<longrightarrow> chain ?S l = drop (fk f) (chain ?S t)"
    using spec by (simp_all add: lib_spec_def insert_state_def split: if_splits)
  from tree' have wf': "wf_states E ?S" by (simp add: tree_ok_def)
  with l(1) have lk: "l \<in> keys ?S" using chain_ids_subset by blast
  have old: "lib_spec E f (f_lib f)" using inv on by (simp add: finv_def)
  have ne: "f_local_chain f \<noteq> i" "gid E f \<noteq> i"
    using finvD(5) [OF inv] keys_Some [OF finvD(6) [OF inv]] ins by (auto simp: insertable_def)
  have "suffix (chain (f_ledger_state f) (f_lib f)) (chain ?S l)"
    by (rule lib_spec_advances [OF tree' t old _ _ ext l])
       (simp_all add: chain_insert_old [OF tree ins] ne)
  moreover have "kept E ?S l l" using tip_in_chain_ids [OF wf' lk] by (simp add: kept_def)
  ultimately have "lib_ext f ?f" by (simp add: lib_ext_def chain_prune [OF tree' lk])
  with u fin g lk show ?thesis by (auto simp: Let_def)
qed

lemma after_insert_ok:
  assumes inv: "finv E f" and ins: "insertable E (gid E f) (f_ledger_state f) i st"
    and par: "parent_of st = bh_parent b" and s: "security_param (f_config f) = Ok s"
  shows "\<exists>S forks t lib. let f' = f\<lparr>f_ledger_state := S, f_forks := forks, f_local_chain := t, f_lib := lib\<rparr> in
    S = (if f_state f = ONLINE then prune E lib (f_ledger_state f @ [(i, st)]) else f_ledger_state f @ [(i, st)]) \<and>
    lib \<in> keys (f_ledger_state f @ [(i, st)]) \<and>
    after_insert E b i (insert_state f i st) = (Ok (), f') \<and> finv E f' \<and> lib_ext f f'"
proof -
  from on_block_tips [OF finvD(1) [OF inv] ins par s] obtain forks t where
      tips: "(if bh_parent b = f_local_chain f then modify (\<lambda>f. f\<lparr>f_local_chain := i\<rparr>) else switch_fork E b i)
        (insert_state f i st) = (Ok (), (insert_state f i st)\<lparr>f_forks := forks, f_local_chain := t\<rparr>)"
      and tinv: "tip_inv E ((insert_state f i st)\<lparr>f_forks := forks, f_local_chain := t\<rparr>)"
      and ext: "f_state f = ONLINE \<longrightarrow> extends_upto (fk f) (f_ledger_state f @ [(i, st)]) (f_local_chain f) t"
    by blast
  have "f_state ((insert_state f i st)\<lparr>f_forks := forks, f_local_chain := t\<rparr>) = f_state f"
    by (simp add: insert_state_def)
  note eq = after_insert_eq [OF tips this]
  show ?thesis
  proof (cases "f_state f")
    case ONLINE
    from after_insert_online [OF inv ins ONLINE tinv] ext ONLINE obtain lib forks' S where
        "S = prune E lib (f_ledger_state f @ [(i, st)])" "lib \<in> keys (f_ledger_state f @ [(i, st)])" "update_lib E ((insert_state f i st)\<lparr>f_forks := forks, f_local_chain := t\<rparr>) =
          (Ok (), f\<lparr>f_ledger_state := S, f_forks := forks', f_local_chain := t, f_lib := lib\<rparr>)"
        and "finv E (f\<lparr>f_ledger_state := S, f_forks := forks', f_local_chain := t, f_lib := lib\<rparr>)"
        and "lib_ext f (f\<lparr>f_ledger_state := S, f_forks := forks', f_local_chain := t, f_lib := lib\<rparr>)"
      by (auto simp: Let_def)
    with eq ONLINE show ?thesis
      unfolding Let_def by (intro exI [of _ S] exI [of _ forks'] exI [of _ t] exI [of _ lib]) simp
  next
    case BOOTSTRAPPING
    have "(insert_state f i st)\<lparr>f_forks := forks, f_local_chain := t\<rparr> =
        f\<lparr>f_ledger_state := f_ledger_state f @ [(i, st)], f_forks := forks, f_local_chain := t, f_lib := f_lib f\<rparr>"
      by (simp add: insert_state_def)
    moreover have "f_lib f \<in> keys (f_ledger_state f @ [(i, st)])" using finvD(4) [OF inv] by (simp add: keys_def)
    ultimately show ?thesis using eq BOOTSTRAPPING after_insert_bootstrapping [OF inv ins BOOTSTRAPPING tinv]
      unfolding Let_def
      by (intro exI [of _ "f_ledger_state f @ [(i, st)]"] exI [of _ forks] exI [of _ t] exI [of _ "f_lib f"]) simp
  qed
qed

lemma on_block_unfold:
  assumes "block_id E b = Ok i" and "i \<notin> keys (f_ledger_state f)"
  shows "on_block E b f =
     bind_act (validate_header E b) (\<lambda>_.
     bind_act (call (\<lambda>f. get_item (f_ledger_state f) (bh_parent b))) (\<lambda>st.
     bind_act (call (\<lambda>f. apply_block E st b)) (\<lambda>new_state.
     bind_act (modify (\<lambda>f. f\<lparr>f_ledger_state := AList.update i new_state (f_ledger_state f)\<rparr>)) (\<lambda>_.
     after_insert E b i)))) f"
  using assms by (simp add: on_block_def bind_act_call keys_None)

lemma on_block_cases:
  assumes inv: "finv E f" and ng: "no_genesis_parent E (f_genesis_state f) b"
    and run: "on_block E b f = (r, f')"
  obtains (known) i where "block_id E b = Ok i" and "i \<in> keys (f_ledger_state f)" and "r = Ok ()" and "f' = f"
  | (raised) e m where "r = Err e" and "f' = f\<lparr>f_epoch_state := m\<rparr>" and "evaluated E b f m"
  | (inserted) "r = Ok ()" and "inserted E b f f'"
proof (cases "block_id E b")
  case (Err e)
  then have "r = Err e" "f' = f\<lparr>f_epoch_state := f_epoch_state f\<rparr>" "evaluated E b f (f_epoch_state f)"
    using run by (simp_all add: on_block_def bind_act_call evaluated_def)
  then show ?thesis by (rule raised)
next
  case Diverge
  then show ?thesis by simp
next
  case id: (Ok i)
  show ?thesis
  proof (cases "i \<in> keys (f_ledger_state f)")
    case True
    then have "map_of (f_ledger_state f) i \<noteq> None" by (simp add: keys_None)
    then have "r = Ok ()" "f' = f"
      using run id by (simp_all add: on_block_def bind_act_call)
    with id True show ?thesis by (rule known)
  next
    case False
    obtain r1 f1 where v: "validate_header E b f = (r1, f1)" by (cases "validate_header E b f")
    from validate_header_frame [OF v] obtain m where
        f1: "f1 = f\<lparr>f_epoch_state := m\<rparr>" and m: "evaluated E b f m" by blast
    note wf = finvD(3) [OF inv] and lib = finvD(4) [OF inv]
    show ?thesis
    proof (cases r1)
      case (Err e)
      with v f1 run have "r = Err e" "f' = f\<lparr>f_epoch_state := m\<rparr>"
        by (simp_all add: on_block_unfold [OF id False] bind_act_Err)
      then show ?thesis using m by (rule raised)
    next
      case Diverge
      with validate_header_returns [OF v wf lib] show ?thesis by simp
    next
      case (Ok u)
      note vh = validate_header_Ok [OF v [unfolded Ok] wf lib]
      from vh(3) obtain s where s: "security_param (f_config f) = Ok s" by blast
      from vh(1) obtain st0 where st0: "map_of (f_ledger_state f) (bh_parent b) = Some st0" by (rule keysE)
      have rest: "on_block E b f =
          bind_act (call (\<lambda>f. apply_block E st0 b)) (\<lambda>new_state.
          bind_act (modify (\<lambda>f. f\<lparr>f_ledger_state := AList.update i new_state (f_ledger_state f)\<rparr>)) (\<lambda>_.
          after_insert E b i)) f1"
        using v Ok st0
        by (simp add: on_block_unfold [OF id False] bind_act_Ok bind_act_call get_item_def f1)
      show ?thesis
      proof (cases "apply_block E st0 b")
        case (Err e)
        with rest run f1 have "r = Err e" "f' = f\<lparr>f_epoch_state := m\<rparr>" by (simp_all add: bind_act_call)
        then show ?thesis using m by (rule raised)
      next
        case Diverge
        then show ?thesis by simp
      next
        case st: (Ok st)
        note fields = apply_block_fields [OF st]
        have ins: "insertable E (gid E f1) (f_ledger_state f1) i st"
          using False vh(1) id ng fields(1) finvD(6) [OF inv]
          by (simp add: f1 insertable_def no_genesis_parent_def)
        have par: "parent_of st = bh_parent b" using fields(1) by simp
        have s1: "security_param (f_config f1) = Ok s" using s f1 by simp
        have inv1: "finv E f1" using inv by (simp add: f1 finv_memo)
        have upd: "f1\<lparr>f_ledger_state := AList.update i st (f_ledger_state f1)\<rparr> = insert_state f1 i st"
          using False by (simp add: f1 insert_state_def update_new)
        have "on_block E b f = after_insert E b i (insert_state f1 i st)"
          using st upd by (simp add: rest bind_act_call bind_act_modify)
        moreover obtain S forks t lib where
            S1: "S = (if f_state f1 = ONLINE then prune E lib (f_ledger_state f1 @ [(i, st)]) else f_ledger_state f1 @ [(i, st)])"
              "lib \<in> keys (f_ledger_state f1 @ [(i, st)])"
            and "after_insert E b i (insert_state f1 i st) =
              (Ok (), f1\<lparr>f_ledger_state := S, f_forks := forks, f_local_chain := t, f_lib := lib\<rparr>)"
            and fin1: "finv E (f1\<lparr>f_ledger_state := S, f_forks := forks, f_local_chain := t, f_lib := lib\<rparr>)"
              "lib_ext f1 (f1\<lparr>f_ledger_state := S, f_forks := forks, f_local_chain := t, f_lib := lib\<rparr>)"
          using after_insert_ok [OF inv1 ins par s1] unfolding Let_def by (elim exE conjE)
        ultimately have r: "r = Ok ()"
            and f': "f' = f1\<lparr>f_ledger_state := S, f_forks := forks, f_local_chain := t, f_lib := lib\<rparr>"
          using run by simp_all
        have fin: "finv E f'" "lib_ext f1 f'" using fin1 f' by simp_all
        have "f_ledger_state f1 = f_ledger_state f" "f_state f1 = f_state f" by (simp_all add: f1)
        note S = S1 [unfolded this]
        have ins': "insertable E (gid E f) (f_ledger_state f) i st" using ins by (simp add: f1)
        have "f' = f\<lparr>f_epoch_state := m, f_ledger_state := S, f_forks := forks, f_local_chain := t, f_lib := lib\<rparr>"
          using f' f1 by simp
        moreover have "lib_ext f f'" using fin(2) by (simp add: lib_ext_def f1)
        ultimately have "inserted E b f f'"
          unfolding inserted_def using id ins' st0 st vh(2) fin(1) vh(4) [unfolded f1] m S by blast
        with r show ?thesis by (rule inserted)
      qed
    qed
  qed
qed

end
