(* ===== verification/Follower_Safety.thy ===== *)
theory Follower_Safety
  imports Follower_Inv
begin

text \<open>
  Runs of the follower. A step is one call of \<open>on_block\<close> or \<open>to_online\<close>, whatever its outcome;
  its one hypothesis is on the hash function: no block received hashes to the parent of the
  genesis block. Every step keeps \<open>finv\<close> and \<open>advances\<close>: the configuration and the genesis state
  stay, and the chain of the last immutable block only grows. The interpretations of
  \<open>invariant_system\<close> and \<open>monotone_system\<close> carry both along whole runs.
\<close>

section \<open>Going online\<close>

lemma to_online_cases:
  assumes inv: "finv E f" and run: "to_online E f = (r, f')"
  obtains (online) "f_state f = ONLINE" and "r = Err AssertionError" and "f' = f"
  | (bootstrapped) l forks where "f_state f = BOOTSTRAPPING" and "r = Ok ()" and "l \<in> keys (f_ledger_state f)"
      and "f' = f\<lparr>f_state := ONLINE, f_lib := l, f_forks := forks, f_ledger_state := prune E l (f_ledger_state f)\<rparr>"
      and "finv E f'" and "lib_ext f f'"
proof (cases "f_state f")
  case ONLINE
  with run show ?thesis by (intro online) (simp_all add: to_online_def bind_act_call)
next
  case BOOTSTRAPPING
  let ?g = "f\<lparr>f_state := ONLINE\<rparr>"
  have tinv: "tip_inv E ?g" using finvD(1) [OF inv] by (simp add: tip_inv_def)
  have on: "f_state ?g = ONLINE" by simp
  obtain l forks where
      u: "update_lib E ?g = (Ok (), ?g\<lparr>f_lib := l, f_forks := forks, f_ledger_state := prune E l (f_ledger_state ?g)\<rparr>)"
      and spec: "lib_spec E ?g l"
      and fin: "finv E (?g\<lparr>f_lib := l, f_forks := forks, f_ledger_state := prune E l (f_ledger_state ?g)\<rparr>)"
    using update_lib_online [OF tinv on] unfolding Let_def by (elim exE conjE)
  have r: "r = Ok ()" and f': "f' = f\<lparr>f_state := ONLINE, f_lib := l, f_forks := forks,
      f_ledger_state := prune E l (f_ledger_state f)\<rparr>"
    using run u BOOTSTRAPPING by (simp_all add: to_online_def bind_act_call bind_act_modify)
  note tree = finvD(2) [OF inv] and wf = finvD(3) [OF inv]
  have "l \<in> set (chain_ids E (f_ledger_state f) (f_local_chain f))" using spec by (simp add: lib_spec_def)
  then have l: "l \<in> keys (f_ledger_state f)" using chain_ids_subset [OF wf] by blast
  have "kept E (f_ledger_state f) l l" using tip_in_chain_ids [OF wf l] by (simp add: kept_def)
  moreover have "f_lib f = gid E f" using inv BOOTSTRAPPING by (simp add: finv_def)
  ultimately have "lib_ext f f'" using chain_root [OF tree l] by (simp add: lib_ext_def f' chain_prune [OF tree l])
  moreover have "finv E f'" using fin f' by simp
  ultimately show ?thesis using BOOTSTRAPPING r l f' by (intro bootstrapped)
qed

section \<open>Runs\<close>

inductive fstep :: "Env \<Rightarrow> Follower \<Rightarrow> Follower \<Rightarrow> bool" for E where
  receive: "no_genesis_parent E (f_genesis_state f) b \<Longrightarrow> on_block E b f = (r, f') \<Longrightarrow> fstep E f f'"
| go_online: "to_online E f = (r, f') \<Longrightarrow> fstep E f f'"

inductive_cases fstepE: "fstep E f f'"

definition advances :: "Follower \<Rightarrow> Follower \<Rightarrow> bool" where
  "advances f f' \<longleftrightarrow> f_config f' = f_config f \<and> f_genesis_state f' = f_genesis_state f \<and> lib_ext f f'"

lemma lib_ext_memo: "lib_ext f (f\<lparr>f_epoch_state := m\<rparr>)"
  by (simp add: lib_ext_def)

lemma insertedE:
  assumes "inserted E b f f'"
  shows "finv E f'" and "advances f f'"
  using assms by (auto simp: inserted_def advances_def simp del: if_split)

lemma fstep_keeps:
  assumes "finv E f" and "fstep E f f'"
  shows "finv E f' \<and> advances f f'"
  using assms(2)
proof (rule fstepE)
  fix b r
  assume ng: "no_genesis_parent E (f_genesis_state f) b" and run: "on_block E b f = (r, f')"
  show ?thesis
  proof (rule on_block_cases [OF assms(1) ng run])
    assume "f' = f"
    then show ?thesis using assms(1) by (simp add: advances_def lib_ext_def)
  next
    fix m
    assume "f' = f\<lparr>f_epoch_state := m\<rparr>"
    then show ?thesis using assms(1) by (simp add: finv_memo advances_def lib_ext_def)
  next
    assume "inserted E b f f'"
    then show ?thesis using insertedE by blast
  qed
next
  fix r
  assume run: "to_online E f = (r, f')"
  show ?thesis
  proof (rule to_online_cases [OF assms(1) run])
    assume "f' = f"
    then show ?thesis using assms(1) by (simp add: advances_def lib_ext_def)
  next
    fix l forks
    assume "f' = f\<lparr>f_state := ONLINE, f_lib := l, f_forks := forks,
        f_ledger_state := prune E l (f_ledger_state f)\<rparr>" and "finv E f'" and "lib_ext f f'"
    then show ?thesis by (simp add: advances_def)
  qed
qed

interpretation follower: monotone_system "fstep E" "finv E" advances for E
proof
  show "advances s s" for s by (simp add: advances_def lib_ext_def)
  show "advances s u" if "advances s t" "advances t u" for s t u
    using that unfolding advances_def lib_ext_def by (metis suffix_order.trans)
qed (use fstep_keeps in blast)+

section \<open>The first state\<close>

lemma Follower_init_Ok:
  assumes "Follower_init E gs c = Ok f" and "0 \<le> cfg_k c" and "block_id E (ls_block gs) \<noteq> Ok (parent_of gs)"
  shows "finv E f" and "f_genesis_state f = gs" and "f_config f = c" and "f_state f = BOOTSTRAPPING"
proof -
  from assms(1) obtain i where i: "block_id E (ls_block gs) = Ok i"
    and f: "f = \<lparr>f_config = c, f_forks = [], f_local_chain = i, f_genesis_state = gs,
           f_ledger_state = [(i, gs)], f_epoch_state = Map.empty, f_state = BOOTSTRAPPING, f_lib = i\<rparr>"
    by (auto simp: Follower_init_def res_simps)
  have id: "the_id E (ls_block gs) = i" using i by (simp add: the_id_def)
  have p: "parent_of gs \<noteq> i" using assms(3) i by auto
  have tree: "tree_ok E i [(i, gs)]"
    using i p by (simp add: tree_ok_def wf_states_def rooted_def keys_def)
  then have wf: "wf_states E [(i, gs)]" by (simp add: tree_ok_def)
  have "kept E [(i, gs)] i i"
    using tip_in_chain_ids [OF wf, of i] by (simp add: kept_def keys_def)
  then show "finv E f"
    using assms(2) tree p by (auto simp: f finv_def tip_inv_def id leaves_def keys_def)
  show "f_genesis_state f = gs" "f_config f = c" "f_state f = BOOTSTRAPPING" by (simp_all add: f)
qed

lemma on_block_returns:
  assumes "finv E f" and "no_genesis_parent E (f_genesis_state f) b" and "on_block E b f = (r, f')"
  shows "r \<noteq> Diverge"
  by (rule on_block_cases [OF assms]) simp_all

text \<open>An accepted block lies above the last immutable block.\<close>

lemma accepted_above_lib:
  assumes inv: "finv E f" and p: "p \<in> keys (f_ledger_state f)"
    and h: "length (chain (f_ledger_state f) (f_lib f)) \<le> length (chain (f_ledger_state f) p)"
  shows "f_lib f \<in> set (chain_ids E (f_ledger_state f) p)"
proof -
  let ?S = "f_ledger_state f" and ?l = "f_lib f"
  note wf = finvD(3) [OF inv] and l = finvD(4) [OF inv]
  have "kept E ?S ?l p" using inv p by (simp add: finv_def)
  then consider "?l \<in> set (chain_ids E ?S p)" | "p \<in> set (chain_ids E ?S ?l)" by (auto simp: kept_def)
  then show ?thesis
  proof cases
    case 2
    then have s: "suffix (chain ?S p) (chain ?S ?l)" by (simp add: anc_iff_suffix [OF wf p])
    with h have "chain ?S p = chain ?S ?l" by (auto simp: suffix_def)
    then show ?thesis using l by (simp add: anc_iff_suffix [OF wf l])
  qed
qed

end
