(* ===== verification/Follower_Blocks.thy ===== *)
theory Follower_Blocks
  imports Follower_Safety
begin

text \<open>
  \<open>blocks_by_slot\<close> collects the blocks of the tree in a dictionary from slots to lists and yields
  the lists in the order of the slots. The result is the stable sort by slot of the blocks from
  the given slot on, in the order they entered the tree.
\<close>

lemma add_to_slot_map:
  "map_of (add_to_slot d b) s =
     (if s = bh_slot b then Some ((case map_of d s of None \<Rightarrow> [] | Some bs \<Rightarrow> bs) @ [b]) else map_of d s)"
  by (auto simp: add_to_slot_def update_conv')

lemma add_to_slot_keys: "fst ` set (add_to_slot d b) = insert (bh_slot b) (fst ` set d)"
  by (simp add: add_to_slot_def dom_update)

lemma add_to_slot_distinct: "distinct (map fst d) \<Longrightarrow> distinct (map fst (add_to_slot d b))"
  by (simp add: add_to_slot_def distinct_update)

lemma slots_foldl:
  "distinct (map fst d) \<Longrightarrow>
   distinct (map fst (foldl add_to_slot d bs)) \<and>
   fst ` set (foldl add_to_slot d bs) = fst ` set d \<union> bh_slot ` set bs \<and>
   map_of (foldl add_to_slot d bs) s =
     (if s \<in> fst ` set d \<union> bh_slot ` set bs
      then Some ((case map_of d s of None \<Rightarrow> [] | Some xs \<Rightarrow> xs) @ filter (\<lambda>b. bh_slot b = s) bs) else None)"
proof (induction bs arbitrary: d)
  case Nil
  have "(s \<in> fst ` set d) = (map_of d s \<noteq> None)" by (simp add: map_of_eq_None_iff)
  then show ?case using Nil by (auto split: option.splits)
next
  case (Cons b bs)
  from Cons.IH [OF add_to_slot_distinct [OF Cons.prems, of b]] show ?case
    by (auto simp: add_to_slot_keys add_to_slot_map)
qed

lemma foldl_filter_insert:
  "foldl (\<lambda>d (k, st). if P (ls_block st) then add_to_slot d (ls_block st) else d) d S =
   foldl add_to_slot d (filter P (map (ls_block \<circ> snd) S))"
  by (induction S arbitrary: d) (auto split: prod.splits)

lemma concat_groups_filter:
  "distinct ks \<Longrightarrow> filter (\<lambda>x. f x = k) (concat (map (\<lambda>k. filter (\<lambda>x. f x = k) xs) ks)) =
   (if k \<in> set ks then filter (\<lambda>x. f x = k) xs else [])"
proof (induction ks)
  case (Cons a ks)
  have "filter (\<lambda>x. f x = k) (filter (\<lambda>x. f x = a) xs) = (if k = a then filter (\<lambda>x. f x = k) xs else [])"
    by (auto simp: filter_empty_conv intro: filter_cong)
  with Cons show ?case by auto
qed simp

lemma concat_groups_sorted:
  "sorted ks \<Longrightarrow> sorted (map f (concat (map (\<lambda>k. filter (\<lambda>x. f x = k) xs) ks)))"
proof (induction ks)
  case (Cons k ks)
  have "sorted (map f (filter (\<lambda>x. f x = k) xs))"
    by (rule sorted_wrt_mono_rel [of _ "\<lambda>a b. True"]) (auto simp: sorted_wrt_iff_nth_less)
  with Cons show ?case by (auto simp: sorted_append)
qed simp

lemma mset_concat_groups:
  "distinct ks \<Longrightarrow> f ` set xs \<subseteq> set ks \<Longrightarrow> mset (concat (map (\<lambda>k. filter (\<lambda>x. f x = k) xs) ks)) = mset xs"
proof (rule multiset_eqI)
  fix x
  assume "distinct ks" and sub: "f ` set xs \<subseteq> set ks"
  then have eq: "filter (\<lambda>y. f y = f x) (concat (map (\<lambda>k. filter (\<lambda>x. f x = k) xs) ks)) =
      (if f x \<in> set ks then filter (\<lambda>y. f y = f x) xs else [])"
    by (simp add: concat_groups_filter)
  have cnt: "count (mset ys) x = count (mset (filter (\<lambda>y. f y = f x) ys)) x" for ys
    by (induction ys) auto
  show "count (mset (concat (map (\<lambda>k. filter (\<lambda>x. f x = k) xs) ks))) x = count (mset xs) x"
  proof (cases "f x \<in> set ks")
    case True
    show ?thesis unfolding cnt [of "concat _"] cnt [of xs] eq using True by simp
  next
    case False
    with sub have "x \<notin> set xs" by auto
    moreover have "x \<notin> set (concat (map (\<lambda>k. filter (\<lambda>x. f x = k) xs) ks))" using calculation by auto
    ultimately show ?thesis by (metis count_mset_0_iff)
  qed
qed

lemma groups_sort_key:
  assumes "distinct ks" and "sorted ks" and "set ks = f ` set xs"
  shows "concat (map (\<lambda>k. filter (\<lambda>x. f x = k) xs) ks) = sort_key f xs"
proof (rule properties_for_sort_key [symmetric])
  show "mset (concat (map (\<lambda>k. filter (\<lambda>x. f x = k) xs) ks)) = mset xs"
    using assms by (intro mset_concat_groups) auto
  show "sorted (map f (concat (map (\<lambda>k. filter (\<lambda>x. f x = k) xs) ks)))"
    by (rule concat_groups_sorted [OF assms(2)])
  fix y
  assume "y \<in> set (concat (map (\<lambda>k. filter (\<lambda>x. f x = k) xs) ks))"
  then have "f y \<in> set ks" by auto
  then show "filter (\<lambda>x. f y = f x) (concat (map (\<lambda>k. filter (\<lambda>x. f x = k) xs) ks)) = filter (\<lambda>x. f y = f x) xs"
    using concat_groups_filter [OF assms(1), of f "f y" xs] by (simp add: eq_commute)
qed

lemma blocks_by_slot_sort:
  "blocks_by_slot f s =
   sort_key bh_slot (filter (\<lambda>b. s \<le> bh_slot b) (map (ls_block \<circ> snd) (f_ledger_state f)))"
proof -
  let ?bs = "filter (\<lambda>b. s \<le> bh_slot b) (map (ls_block \<circ> snd) (f_ledger_state f))"
  let ?d = "foldl add_to_slot [] ?bs"
  have d: "distinct (map fst ?d)" "fst ` set ?d = bh_slot ` set ?bs"
      "\<And>t. map_of ?d t = (if t \<in> bh_slot ` set ?bs then Some (filter (\<lambda>b. bh_slot b = t) ?bs) else None)"
    using slots_foldl [of "[]" ?bs] by simp_all
  have ks: "set (sort (map fst ?d)) = bh_slot ` set ?bs" using d(2) by simp
  have "blocks_by_slot f s = concat (map (\<lambda>t. case map_of ?d t of None \<Rightarrow> [] | Some bs \<Rightarrow> bs) (sort (map fst ?d)))"
    by (simp only: blocks_by_slot_def Let_def foldl_filter_insert [of "\<lambda>b. s \<le> bh_slot b"])
  also have "map (\<lambda>t. case map_of ?d t of None \<Rightarrow> [] | Some bs \<Rightarrow> bs) (sort (map fst ?d)) =
      map (\<lambda>t. filter (\<lambda>b. bh_slot b = t) ?bs) (sort (map fst ?d))"
    by (rule map_cong [OF refl]) (use d(3) ks in auto)
  also have "concat \<dots> = sort_key bh_slot ?bs"
    by (rule groups_sort_key) (use d(1) ks in auto)
  finally show ?thesis .
qed

lemma set_blocks_by_slot:
  "set (blocks_by_slot f s) = {ls_block st | k st. (k, st) \<in> set (f_ledger_state f) \<and> s \<le> bh_slot (ls_block st)}"
  by (force simp: blocks_by_slot_sort)

end
