(* ===== verification/Sync.thy ===== *)
theory Sync
  imports Follower_Blocks
begin

text \<open>
  cryptarchia/sync.py: a follower catches up with its peers. The peers are followers that do not
  change meanwhile and are other objects than the local one. \<open>SyncState\<close> holds the local follower
  and the two sets the loop of \<open>sync\<close> keeps; a raised exception leaves the local follower as far
  as it got.

  Python iterates a set in an order of its own. The argument \<open>order\<close> is that order: it returns
  the orphans, which the model keeps in a list, in the order the interpreter visits them. The loop
  \<open>while True\<close> runs for at most \<open>n\<close> rounds, and \<open>Diverge\<close> says that it was still running.

  A generator that may raise yields results: \<open>Err e\<close> is where it raises.
\<close>

section \<open>Fetching\<close>

datatype sync_exn =
    Plain exn
  | InvalidBlockFromBackfillFork exn "BlockHeader list"

definition group_append ::
    "(BlockHeader \<times> Follower list) list \<Rightarrow> BlockHeader \<Rightarrow> Follower \<Rightarrow> (BlockHeader \<times> Follower list) list" where
  "group_append d t p =
     AList.update t ((case map_of d t of None \<Rightarrow> [] | Some ps \<Rightarrow> ps) @ [p]) d"

fun filter_and_group ::
    "Env \<Rightarrow> Slot \<Rightarrow> Follower list \<Rightarrow> (BlockHeader \<times> Follower list) list \<Rightarrow>
     (exn, (BlockHeader \<times> Follower list) list) res" where
  "filter_and_group E s [] d = Ok d"
| "filter_and_group E s (p # ps) d =
     bind_res (tip p) (\<lambda>t.
     if absolute_slot (bh_slot t) > absolute_slot s
     then bind_res (block_id E t) (\<lambda>_. filter_and_group E s ps (group_append d t p))
     else filter_and_group E s ps d)"

definition filter_and_group_peers_by_tip ::
    "Env \<Rightarrow> Follower list \<Rightarrow> Slot \<Rightarrow> (exn, (BlockHeader \<times> Follower list) list) res" where
  "filter_and_group_peers_by_tip E peers s = filter_and_group E s peers []"

text \<open>A peer of the model returns all its blocks, so the next one is never asked.\<close>

fun fetch_blocks_by_slot :: "Follower list \<Rightarrow> Slot \<Rightarrow> BlockHeader list" where
  "fetch_blocks_by_slot [] s = []"
| "fetch_blocks_by_slot (p # ps) s = blocks_by_slot p s"

definition fetch_blocks_from :: "Env \<Rightarrow> Follower list \<Rightarrow> Slot \<Rightarrow> (exn, BlockHeader list) res" where
  "fetch_blocks_from E peers s =
     bind_res (filter_and_group_peers_by_tip E peers s) (\<lambda>groups.
       Ok (concat (map (\<lambda>(_, group). fetch_blocks_by_slot group s) groups)))"

text \<open>
  \<open>back_gen\<close> is the body of either loop of \<open>fetch_chain_backward\<close>: yield the block, stop at the
  genesis block, else remember the parent, from which \<open>k\<close> continues.
\<close>

fun back_gen ::
    "Env \<Rightarrow> (exn, hash) res \<Rightarrow> hash \<Rightarrow> BlockHeader gen \<Rightarrow> (hash \<Rightarrow> (exn, BlockHeader) res gen) \<Rightarrow>
     (exn, BlockHeader) res gen" where
  "back_gen E g i GStop k = k i"
| "back_gen E g i GForever k = GForever"
| "back_gen E g i (GYield b bs) k =
     GYield (Ok b)
       (case bind_res (block_id E b) (\<lambda>j. bind_res g (\<lambda>gi. Ok (j = gi))) of
          Ok done \<Rightarrow> if done then GStop else back_gen E g (bh_parent b) bs k
        | Err e \<Rightarrow> GYield (Err e) GStop
        | Diverge \<Rightarrow> GForever)"

abbreviation chain_gen :: "Follower \<Rightarrow> hash \<Rightarrow> BlockHeader gen" where
  "chain_gen f i \<equiv> iter_chain_blocks (chain_bound (f_ledger_state f)) i (f_ledger_state f)"

fun back_peers ::
    "Env \<Rightarrow> (exn, hash) res \<Rightarrow> Follower list \<Rightarrow> hash \<Rightarrow> (exn, BlockHeader) res gen" where
  "back_peers E g [] i = GStop"
| "back_peers E g (p # ps) i = back_gen E g i (chain_gen p i) (back_peers E g ps)"

definition fetch_chain_backward ::
    "Env \<Rightarrow> Follower list \<Rightarrow> hash \<Rightarrow> Follower \<Rightarrow> (exn, BlockHeader) res gen" where
  "fetch_chain_backward E peers t f =
     (let g = block_id E (ls_block (f_genesis_state f))
      in back_gen E g t (chain_gen f t) (back_peers E g peers))"

section \<open>Backfilling a fork\<close>

fun missing_part ::
    "Env \<Rightarrow> Follower \<Rightarrow> (exn, BlockHeader) res gen \<Rightarrow> BlockHeader list \<Rightarrow> (exn, BlockHeader list) res" where
  "missing_part E f GStop sfx = Ok (rev sfx)"
| "missing_part E f GForever sfx = Diverge"
| "missing_part E f (GYield x bs) sfx =
     bind_res x (\<lambda>b.
     bind_res (block_id E b) (\<lambda>i.
       if map_of (f_ledger_state f) i \<noteq> None then Ok (rev sfx)
       else missing_part E f bs (sfx @ [b])))"

definition find_missing_part ::
    "Env \<Rightarrow> Follower \<Rightarrow> (exn, BlockHeader) res gen \<Rightarrow> (exn, BlockHeader list) res" where
  "find_missing_part E f fork = missing_part E f fork []"

definition plain :: "('s, exn, 'a) action \<Rightarrow> ('s, sync_exn, 'a) action" where
  "plain m = (\<lambda>s. case m s of (r, t) \<Rightarrow> (lift_err Plain r, t))"

fun add_suffix :: "Env \<Rightarrow> BlockHeader list \<Rightarrow> (Follower, sync_exn, unit) action" where
  "add_suffix E [] = ret ()"
| "add_suffix E (b # bs) =
     bind_act
       (\<lambda>f. case on_block E b f of
              (Err e, f') \<Rightarrow> (Err (InvalidBlockFromBackfillFork e (b # bs)), f')
            | (Ok u, f') \<Rightarrow> (Ok u, f')
            | (Diverge, f') \<Rightarrow> (Diverge, f'))
       (\<lambda>_. add_suffix E bs)"

definition backfill_fork ::
    "Env \<Rightarrow> Follower list \<Rightarrow> BlockHeader \<Rightarrow> (Follower, sync_exn, unit) action" where
  "backfill_fork E peers fork_tip =
     bind_act (plain (call (\<lambda>f. block_id E fork_tip))) (\<lambda>t.
     bind_act (plain (call (\<lambda>f. find_missing_part E f (fetch_chain_backward E peers t f)))) (\<lambda>sfx.
     add_suffix E sfx))"

section \<open>The loop of sync\<close>

record SyncState =
  sy_local :: Follower
  rejected_blocks :: "hash set"
  orphans :: "BlockHeader list"

definition on_local :: "(Follower, sync_exn, 'a) action \<Rightarrow> (SyncState, sync_exn, 'a) action" where
  "on_local m = (\<lambda>s. case m (sy_local s) of (r, f) \<Rightarrow> (r, s\<lparr>sy_local := f\<rparr>))"

definition reject :: "hash set \<Rightarrow> (SyncState, sync_exn, unit) action" where
  "reject is = modify (\<lambda>s. s\<lparr>rejected_blocks := rejected_blocks s \<union> is\<rparr>)"

definition sync_block :: "Env \<Rightarrow> BlockHeader \<Rightarrow> (SyncState, sync_exn, unit) action" where
  "sync_block E b =
     bind_act (plain (call (\<lambda>s. block_id E b))) (\<lambda>i.
     bind_act (call (\<lambda>s. Ok ({i, bh_parent b} \<inter> rejected_blocks s \<noteq> {}))) (\<lambda>skip.
     if skip then reject {i}
     else
       try_act
         (bind_act (on_local (plain (on_block E b))) (\<lambda>_.
            modify (\<lambda>s. s\<lparr>orphans := removeAll b (orphans s)\<rparr>)))
         (\<lambda>e. if e = Plain ParentNotFound
              then modify (\<lambda>s. s\<lparr>orphans := List.insert b (orphans s)\<rparr>)
              else reject {i})))"

fun block_ids :: "Env \<Rightarrow> BlockHeader list \<Rightarrow> (exn, hash set) res" where
  "block_ids E [] = Ok {}"
| "block_ids E (b # bs) = bind_res (block_id E b) (\<lambda>i. bind_res (block_ids E bs) (\<lambda>is. Ok (insert i is)))"

definition sync_orphan :: "Env \<Rightarrow> Follower list \<Rightarrow> BlockHeader \<Rightarrow> (SyncState, sync_exn, unit) action" where
  "sync_orphan E peers b =
     bind_act (plain (call (\<lambda>s. block_id E b))) (\<lambda>i.
     bind_act (call (\<lambda>s. Ok (map_of (f_ledger_state (sy_local s)) i = None \<and> i \<notin> rejected_blocks s))) (\<lambda>todo.
     if todo
     then try_act (on_local (backfill_fork E peers b))
            (\<lambda>e. case e of
                   InvalidBlockFromBackfillFork _ sfx \<Rightarrow>
                     bind_act (plain (call (\<lambda>s. block_ids E sfx))) (\<lambda>is. reject is)
                 | Plain _ \<Rightarrow> raise e)
     else ret ()))"

fun sync_loop ::
    "Env \<Rightarrow> (BlockHeader list \<Rightarrow> BlockHeader list) \<Rightarrow> Follower list \<Rightarrow> nat \<Rightarrow> (SyncState, sync_exn, unit) action" where
  "sync_loop E order peers 0 = call (\<lambda>s. Diverge)"
| "sync_loop E order peers (Suc n) =
     bind_act (plain (call (\<lambda>s. tip (sy_local s)))) (\<lambda>t.
     bind_act (modify (\<lambda>s. s\<lparr>orphans := []\<rparr>)) (\<lambda>_.
     bind_act (plain (call (\<lambda>s. fetch_blocks_from E peers (bh_slot t)))) (\<lambda>blocks.
     bind_act (for_each (sync_block E) blocks) (\<lambda>_.
     if blocks = [] then ret ()
     else
       bind_act (call (\<lambda>s. Ok (sort_key (\<lambda>b. - absolute_slot (bh_slot b)) (order (orphans s))))) (\<lambda>os.
       bind_act (for_each (sync_orphan E peers) os) (\<lambda>_.
       sync_loop E order peers n))))))"

definition sync ::
    "Env \<Rightarrow> (BlockHeader list \<Rightarrow> BlockHeader list) \<Rightarrow> nat \<Rightarrow> Follower list \<Rightarrow> LedgerState option \<Rightarrow>
     (Follower, sync_exn, unit) action" where
  "sync E order n peers checkpoint =
     bind_act (case checkpoint of
                 None \<Rightarrow> ret ()
               | Some st \<Rightarrow> backfill_fork E peers (ls_block st)) (\<lambda>_.
       \<lambda>f. case sync_loop E order peers n \<lparr>sy_local = f, rejected_blocks = {}, orphans = []\<rparr> of
             (r, s) \<Rightarrow> (r, sy_local s))"

end
