(* ===== verification/Sync_Safety.thy ===== *)
theory Sync_Safety
  imports Sync
begin

text \<open>
  What \<open>sync\<close> does to the local follower. Whatever peers send, and whether or not it returns, it
  moves the follower by calls of \<open>on_block\<close> only, so every invariant of the follower survives it.
  When it returns no peer has a later tip. It need not return: a round that brings no new block
  repeats forever. \<open>backfill_fork\<close> asks for the part of a fork that is missing, which is a path
  of headers linked by their parents, and imports it.
\<close>

section \<open>Only on_block changes the follower\<close>

definition hash_sound :: "Env \<Rightarrow> Follower \<Rightarrow> bool" where
  "hash_sound E f \<longleftrightarrow> (\<forall>b. no_genesis_parent E (f_genesis_state f) b)"

text \<open>The follower after a list of blocks, whether they are accepted or refused.\<close>

definition receive_all :: "Env \<Rightarrow> BlockHeader list \<Rightarrow> Follower \<Rightarrow> Follower" where
  "receive_all E bs f = fold (\<lambda>b g. snd (on_block E b g)) bs f"

lemma receive_all_simps [simp]:
  "receive_all E [] f = f"
  "receive_all E (b # bs) f = receive_all E bs (snd (on_block E b f))"
  "receive_all E (bs @ cs) f = receive_all E cs (receive_all E bs f)"
  by (simp_all add: receive_all_def)

definition reaches :: "Env \<Rightarrow> Follower \<Rightarrow> Follower \<Rightarrow> bool" where
  "reaches E f f' \<longleftrightarrow> finv E f \<and> hash_sound E f \<and> (\<exists>bs. f' = receive_all E bs f)"

lemma receive_all_steps:
  assumes "finv E f" and "hash_sound E f"
  shows "(fstep E)\<^sup>*\<^sup>* f (receive_all E bs f) \<and> hash_sound E (receive_all E bs f) \<and>
    f_state (receive_all E bs f) = f_state f"
  using assms
proof (induction bs arbitrary: f)
  case (Cons b bs)
  obtain r g where run: "on_block E b f = (r, g)" by (cases "on_block E b f")
  have ng: "no_genesis_parent E (f_genesis_state f) b" using Cons.prems(2) by (simp add: hash_sound_def)
  have step: "fstep E f g" by (rule fstep.receive [OF ng run])
  have g: "finv E g \<and> advances f g" by (rule fstep_keeps [OF Cons.prems(1) step])
  have "f_state g = f_state f"
    by (rule on_block_cases [OF Cons.prems(1) ng run]) (auto simp: inserted_def)
  moreover have "hash_sound E g" using Cons.prems(2) g by (simp add: hash_sound_def advances_def)
  ultimately show ?case using Cons.IH [of g] g step run by (simp add: converse_rtranclp_into_rtranclp)
qed simp

lemma reachesD:
  assumes "reaches E f f'"
  shows "finv E f'" and "advances f f'" and "hash_sound E f'" and "f_state f' = f_state f"
proof -
  from assms obtain bs where f': "f' = receive_all E bs f" and inv: "finv E f" and hs: "hash_sound E f"
    by (auto simp: reaches_def)
  note steps = receive_all_steps [OF inv hs, of bs, folded f']
  then have run: "(fstep E)\<^sup>*\<^sup>* f f'" by blast
  show "finv E f'" by (rule follower.run_inv [OF run inv])
  show "advances f f'" by (rule follower.run_rel [OF run inv])
  show "hash_sound E f'" and "f_state f' = f_state f" using steps by blast+
qed

lemma keeps_on_block: "keeps (reaches E f0) (on_block E b)"
  unfolding keeps_def
proof (intro allI impI)
  fix f r f'
  assume "reaches E f0 f" and run: "on_block E b f = (r, f')"
  then obtain bs where inv: "finv E f0" "hash_sound E f0" and f: "f = receive_all E bs f0" by (auto simp: reaches_def)
  have "f' = receive_all E (bs @ [b]) f0" using f run by simp
  with inv show "reaches E f0 f'" unfolding reaches_def by blast
qed

lemma keeps_plain [keeps_intros]: "keeps P m \<Longrightarrow> keeps P (plain m)"
  by (auto simp: keeps_def plain_def split: prod.splits)

lemma keeps_add_suffix: "keeps (reaches E f0) (add_suffix E bs)"
proof (induction bs)
  case (Cons b bs)
  have "keeps (reaches E f0) (\<lambda>f. case on_block E b f of
              (Err e, f') \<Rightarrow> (Err (InvalidBlockFromBackfillFork e (b # bs)), f')
            | (Ok u, f') \<Rightarrow> (Ok u, f')
            | (Diverge, f') \<Rightarrow> (Diverge, f'))"
    using keeps_on_block [of E f0 b] by (auto simp: keeps_def split: prod.splits res.splits)
  with Cons show ?case unfolding add_suffix.simps by (intro keeps_bind)
qed (unfold add_suffix.simps, rule keeps_ret)

lemma keeps_backfill: "keeps (reaches E f0) (backfill_fork E peers b)"
  unfolding backfill_fork_def by (intro keeps_intros keeps_add_suffix)

lemma keeps_on_local: "keeps P m \<Longrightarrow> keeps (\<lambda>s. P (sy_local s)) (on_local m)"
  unfolding keeps_def on_local_def by (auto split: prod.splits)

lemma keeps_reject [keeps_intros]: "keeps (\<lambda>s. P (sy_local s)) (reject is)"
  unfolding reject_def by (rule keeps_modify) simp

lemma keeps_sync_block: "keeps (\<lambda>s. reaches E f0 (sy_local s)) (sync_block E b)"
  unfolding sync_block_def
  by (intro keeps_intros keeps_on_local keeps_on_block keeps_modify) simp_all

lemma keeps_sync_orphan: "keeps (\<lambda>s. reaches E f0 (sy_local s)) (sync_orphan E peers b)"
  unfolding sync_orphan_def
proof (intro keeps_intros keeps_on_local keeps_backfill)
  fix e :: sync_exn
  show "keeps (\<lambda>s. reaches E f0 (sy_local s)) (case e of
      Plain e' \<Rightarrow> raise e
    | InvalidBlockFromBackfillFork e' sfx \<Rightarrow> bind_act (plain (call (\<lambda>s. block_ids E sfx))) reject)"
    by (cases e) (auto intro!: keeps_intros)
qed

lemma keeps_sync_loop: "keeps (\<lambda>s. reaches E f0 (sy_local s)) (sync_loop E order peers n)"
proof (induction n)
  case (Suc n)
  then show ?case
    unfolding sync_loop.simps
    by (intro keeps_intros keeps_for_each keeps_sync_block keeps_sync_orphan keeps_modify) simp_all
qed (unfold sync_loop.simps, rule keeps_call)

lemma keeps_sync: "keeps (reaches E f0) (sync E order n peers cp)"
  unfolding sync_def
proof (rule keeps_bind)
  show "keeps (reaches E f0) (case cp of None \<Rightarrow> ret () | Some st \<Rightarrow> backfill_fork E peers (ls_block st))"
    by (cases cp) (simp_all add: keeps_ret keeps_backfill)
  show "keeps (reaches E f0) (\<lambda>f. case sync_loop E order peers n \<lparr>sy_local = f, rejected_blocks = {}, orphans = []\<rparr> of
             (r, s) \<Rightarrow> (r, sy_local s))"
    using keeps_sync_loop [of E f0 order peers n] unfolding keeps_def
    by (auto split: prod.splits) (metis SyncState.select_convs(1))
qed

section \<open>Peers that are ahead\<close>

lemma bind_plain_call:
  "bind_act (plain (call g)) h s =
     (case g s of Ok x \<Rightarrow> h x s | Err e \<Rightarrow> (Err (Plain e), s) | Diverge \<Rightarrow> (Diverge, s))"
  by (cases "g s") (simp_all add: bind_act_def plain_def)

lemma set_update_subset: "set (AList.update k v d) \<subseteq> insert (k, v) (set d)"
  by (induction d) auto

lemma filter_and_group_spec:
  assumes "filter_and_group E s ps d = Ok d'"
    and "\<forall>(t, g) \<in> set d. g \<noteq> [] \<and> (\<forall>p \<in> set g. tip p = Ok t)"
  shows "(\<forall>(t, g) \<in> set d'. g \<noteq> [] \<and> (\<forall>p \<in> set g. tip p = Ok t)) \<and> fst ` set d \<subseteq> fst ` set d' \<and>
    (\<forall>p \<in> set ps. \<exists>t. tip p = Ok t \<and> (s < bh_slot t \<longrightarrow> t \<in> fst ` set d'))"
  using assms
proof (induction ps arbitrary: d)
  case (Cons p ps)
  from Cons.prems(1) obtain t where t: "tip p = Ok t" by (auto simp: res_simps)
  show ?case
  proof (cases "absolute_slot s < absolute_slot (bh_slot t)")
    case True
    let ?d = "group_append d t p"
    from Cons.prems(1) t True have run: "filter_and_group E s ps ?d = Ok d'" by (auto simp: res_simps)
    have "\<forall>(t', g) \<in> set ?d. g \<noteq> [] \<and> (\<forall>p \<in> set g. tip p = Ok t')"
    proof clarify
      fix t' g
      assume "(t', g) \<in> set ?d"
      then have "(t', g) \<in> set d \<or> (t' = t \<and> g = (case map_of d t of None \<Rightarrow> [] | Some ps \<Rightarrow> ps) @ [p])"
        unfolding group_append_def using set_update_subset by fastforce
      then show "g \<noteq> [] \<and> (\<forall>p \<in> set g. tip p = Ok t')"
        using Cons.prems(2) t by (cases "map_of d t") (fastforce dest: map_of_SomeD)+
    qed
    from Cons.IH [OF run this] t show ?thesis by (auto simp: group_append_def dom_update)
  next
    case False
    with Cons t show ?thesis by (auto simp: slot_less)
  qed
qed auto

lemma tip_Ok: "finv E p \<Longrightarrow> \<exists>t. tip p = Ok t"
  using finvD(5) [of E p] by (auto elim!: keysE simp: tip_def tip_state_def tip_id_def get_item_def)

lemma fetch_nothing_ahead:
  assumes "fetch_blocks_from E peers s = Ok []" and "\<forall>p \<in> set peers. finv E p"
  shows "\<forall>p \<in> set peers. \<exists>t. tip p = Ok t \<and> bh_slot t \<le> s"
proof
  fix p
  assume p: "p \<in> set peers"
  from assms(1) obtain groups where g: "filter_and_group E s peers [] = Ok groups"
      and empty: "concat (map (\<lambda>(_, group). fetch_blocks_by_slot group s) groups) = []"
    by (auto simp: fetch_blocks_from_def filter_and_group_peers_by_tip_def res_simps)
  from filter_and_group_spec [OF g] p
  have "\<exists>t. tip p = Ok t \<and> (s < bh_slot t \<longrightarrow> t \<in> fst ` set groups)" by simp
  then obtain t where t: "tip p = Ok t" and ahead: "s < bh_slot t \<longrightarrow> t \<in> fst ` set groups" by blast
  have "\<not> s < bh_slot t"
  proof
    assume s: "s < bh_slot t"
    from ahead s obtain grp where grp: "(t, grp) \<in> set groups" by auto
    then have "grp \<noteq> []" "\<forall>p \<in> set grp. tip p = Ok t" using filter_and_group_spec [OF g] by auto
    then obtain q qs where q: "grp = q # qs" "tip q = Ok t" by (cases grp) auto
    then obtain k st where "(k, st) \<in> set (f_ledger_state q)" "ls_block st = t"
      by (auto simp: tip_def tip_state_def get_item_def res_simps split: option.splits dest: map_of_SomeD)
    moreover have "s \<le> bh_slot t" using s by simp
    ultimately have "t \<in> set (fetch_blocks_by_slot grp s)" using q(1) by (auto simp: set_blocks_by_slot)
    with grp empty show False by auto
  qed
  with t show "\<exists>t. tip p = Ok t \<and> bh_slot t \<le> s" by auto
qed

lemma sync_loop_caught_up:
  assumes "sync_loop E order peers n s = (Ok u, s')" and "\<forall>p \<in> set peers. finv E p"
  shows "\<exists>t. tip (sy_local s') = Ok t \<and> (\<forall>p \<in> set peers. \<exists>tp. tip p = Ok tp \<and> bh_slot tp \<le> bh_slot t)"
  using assms(1)
proof (induction n arbitrary: s)
  case (Suc n)
  from Suc.prems obtain t where t: "tip (sy_local s) = Ok t"
    by (cases "tip (sy_local s)") (auto simp: bind_plain_call bind_act_modify)
  from Suc.prems t obtain blocks where b: "fetch_blocks_from E peers (bh_slot t) = Ok blocks"
    by (cases "fetch_blocks_from E peers (bh_slot t)") (auto simp: bind_plain_call bind_act_modify)
  show ?case
  proof (cases "blocks = []")
    case True
    with Suc.prems t b have "s' = s\<lparr>orphans := []\<rparr>" by (auto simp: bind_plain_call bind_act_modify bind_act_ret)
    with t fetch_nothing_ahead [OF _ assms(2)] b True show ?thesis by simp
  next
    case False
    with Suc.prems t b have "bind_act (for_each (sync_block E) blocks) (\<lambda>_.
         bind_act (call (\<lambda>s. Ok (sort_key (\<lambda>b. - absolute_slot (bh_slot b)) (order (orphans s))))) (\<lambda>os.
         bind_act (for_each (sync_orphan E peers) os) (\<lambda>_. sync_loop E order peers n))) (s\<lparr>orphans := []\<rparr>) = (Ok u, s')"
      by (simp add: bind_plain_call bind_act_modify)
    then obtain s1 where "sync_loop E order peers n s1 = (Ok u, s')"
      by (elim bind_act_cases) (auto elim: bind_act_cases simp: bind_act_call)
    then show ?thesis by (rule Suc.IH)
  qed
qed simp

lemma sync_caught_up:
  assumes "sync E order n peers cp f = (Ok u, f')" and "\<forall>p \<in> set peers. finv E p"
  shows "\<exists>t. tip f' = Ok t \<and> (\<forall>p \<in> set peers. \<exists>tp. tip p = Ok tp \<and> bh_slot tp \<le> bh_slot t)"
proof -
  from assms(1) obtain f1 s where "sync_loop E order peers n \<lparr>sy_local = f1, rejected_blocks = {}, orphans = []\<rparr> = (Ok u, s)"
      and "f' = sy_local s"
    unfolding sync_def by (elim bind_act_cases) (auto split: prod.splits)
  with sync_loop_caught_up [OF _ assms(2)] show ?thesis by blast
qed

section \<open>Rounds that change nothing\<close>

text \<open>The block is in the tree already, or it was rejected before.\<close>

definition settled :: "Env \<Rightarrow> SyncState \<Rightarrow> BlockHeader \<Rightarrow> bool" where
  "settled E s b \<longleftrightarrow>
     (\<exists>i. block_id E b = Ok i \<and>
        (i \<in> rejected_blocks s \<or> (bh_parent b \<notin> rejected_blocks s \<and> i \<in> keys (f_ledger_state (sy_local s)))))"

lemma on_block_known: "block_id E b = Ok i \<Longrightarrow> i \<in> keys (f_ledger_state f) \<Longrightarrow> on_block E b f = (Ok (), f)"
  by (auto simp: on_block_def bind_act_call bind_act_ret keys_None)

lemma sync_block_settled:
  assumes "settled E s b" and "orphans s = []"
  shows "sync_block E b s = (Ok (), s)"
proof -
  from assms(1) obtain i where i: "block_id E b = Ok i"
    and c: "i \<in> rejected_blocks s \<or> (bh_parent b \<notin> rejected_blocks s \<and> i \<in> keys (f_ledger_state (sy_local s)))"
    by (auto simp: settled_def)
  show ?thesis
  proof (cases "i \<in> rejected_blocks s")
    case True
    then have "insert i (rejected_blocks s) = rejected_blocks s" by auto
    with i True show ?thesis by (simp add: sync_block_def bind_plain_call bind_act_call reject_def)
  next
    case False
    with c have k: "bh_parent b \<notin> rejected_blocks s" "i \<in> keys (f_ledger_state (sy_local s))" by auto
    have "on_local (plain (on_block E b)) s = (Ok (), s)"
      by (simp add: on_local_def plain_def on_block_known [OF i k(2)])
    then have "bind_act (on_local (plain (on_block E b))) h s = h () s"
      for h :: "unit \<Rightarrow> (SyncState, sync_exn, unit) action" by (simp add: bind_act_def)
    with i False k(1) assms(2) show ?thesis
      by (simp add: sync_block_def bind_plain_call bind_act_call try_act_def)
  qed
qed

lemma for_each_settled:
  "\<forall>b \<in> set bs. settled E s b \<Longrightarrow> orphans s = [] \<Longrightarrow> for_each (sync_block E) bs s = (Ok (), s)"
  by (induction bs) (simp_all add: bind_act_def sync_block_settled)

lemma sync_loop_stuck:
  assumes t: "tip (sy_local s) = Ok t" and bs: "fetch_blocks_from E peers (bh_slot t) = Ok bs" "bs \<noteq> []"
    and st: "\<forall>b \<in> set bs. settled E s b" and ord: "order [] = []" and o: "orphans s = []"
  shows "fst (sync_loop E order peers n s) = Diverge"
proof (induction n)
  case (Suc n)
  have s: "s\<lparr>orphans := []\<rparr> = s" using o by simp
  have "bind_act (for_each (sync_block E) bs) h s = h () s"
    for h :: "unit \<Rightarrow> (SyncState, sync_exn, unit) action"
    by (simp add: bind_act_def for_each_settled [OF st o])
  then have "sync_loop E order peers (Suc n) s = sync_loop E order peers n s"
    using t bs o ord
    by (simp add: s bind_plain_call bind_act_modify bind_act_call bind_act_ret)
  with Suc show ?case by simp
qed simp

lemma sync_stuck:
  assumes "tip f = Ok t" and "fetch_blocks_from E peers (bh_slot t) = Ok bs" and "bs \<noteq> []"
    and "\<forall>b \<in> set bs. \<exists>i. block_id E b = Ok i \<and> i \<in> keys (f_ledger_state f)" and "order [] = []"
  shows "fst (sync E order n peers None f) = Diverge"
proof -
  let ?s = "\<lparr>sy_local = f, rejected_blocks = {}, orphans = []\<rparr>"
  have "fst (sync_loop E order peers n ?s) = Diverge"
    by (rule sync_loop_stuck [of _ t _ _ bs]) (use assms in \<open>simp_all add: settled_def\<close>)
  then show ?thesis by (auto simp: sync_def bind_act_ret split: prod.splits)
qed

end
