(* ===== verification/Sync_Backfill.thy ===== *)
theory Sync_Backfill
  imports Sync_Safety
begin

text \<open>
  \<open>backfill_fork\<close> against peers that grew from the same genesis block. The headers it fetches are
  \<open>linked\<close>: each is the parent of the one before, the first is the fork's tip. It stops at the
  first header of the local tree, and it meets one, because the chain of a peer that has the tip
  ends in genesis. So, while bootstrapping, a backfill that returns has put the tip in the tree,
  and one that raises has put in the tree what lies before the refused block.
\<close>

section \<open>Linked headers\<close>

fun linked :: "Env \<Rightarrow> hash \<Rightarrow> BlockHeader list \<Rightarrow> bool" where
  "linked E i [] = True"
| "linked E i (b # bs) = (block_id E b = Ok i \<and> linked E (bh_parent b) bs)"

fun gen_linked :: "Env \<Rightarrow> hash \<Rightarrow> (exn, BlockHeader) res gen \<Rightarrow> bool" where
  "gen_linked E i GStop = True"
| "gen_linked E i GForever = False"
| "gen_linked E i (GYield x g) =
     (case x of Ok b \<Rightarrow> block_id E b = Ok i \<and> gen_linked E (bh_parent b) g | _ \<Rightarrow> False)"

fun gen_has :: "Env \<Rightarrow> hash \<Rightarrow> (exn, BlockHeader) res gen \<Rightarrow> bool" where
  "gen_has E j GStop = False"
| "gen_has E j GForever = False"
| "gen_has E j (GYield x g) = ((case x of Ok b \<Rightarrow> block_id E b = Ok j | _ \<Rightarrow> False) \<or> gen_has E j g)"

text \<open>The identifier a linked path stops before.\<close>

fun end_id :: "hash \<Rightarrow> BlockHeader list \<Rightarrow> hash" where
  "end_id i [] = i"
| "end_id i (b # bs) = end_id (bh_parent b) bs"

lemma chain_linked: "wf_states E S \<Longrightarrow> linked E t (map ls_block (chain S t))"
proof -
  assume wf: "wf_states E S"
  have link: "chain_of S t cs \<Longrightarrow> linked E t (map ls_block cs)" for cs
    by (induction rule: chain_of.induct) (auto simp: wf_map_of_id [OF wf])
  show ?thesis by (rule link [OF chain_of_chain [OF wf]])
qed

lemma back_gen_linked:
  "linked E i bs \<Longrightarrow> (\<And>j. gen_linked E j (k j)) \<Longrightarrow> gen_linked E i (back_gen E (Ok gi) i (gen_of bs) k)"
  by (induction bs arbitrary: i) auto

lemma back_gen_has:
  "linked E i bs \<Longrightarrow> \<exists>b \<in> set bs. block_id E b = Ok gi \<Longrightarrow>
   gen_has E gi (back_gen E (Ok gi) i (gen_of bs) k)"
  by (induction bs arbitrary: i) auto

text \<open>Peers that grew from the genesis block of the local follower.\<close>

definition good_peers :: "Env \<Rightarrow> Follower \<Rightarrow> Follower list \<Rightarrow> bool" where
  "good_peers E f peers \<longleftrightarrow> (\<forall>p \<in> set peers. finv E p \<and> gid E p = gid E f)"

lemma chain_has_genesis:
  assumes "finv E p" and "t \<in> keys (f_ledger_state p)"
  shows "\<exists>b \<in> set (map ls_block (chain (f_ledger_state p) t)). block_id E b = Ok (gid E p)"
proof -
  note tree = finvD(2) [OF assms(1)] and wf = finvD(3) [OF assms(1)] and g = finvD(6) [OF assms(1)]
  have "suffix (chain (f_ledger_state p) (gid E p)) (chain (f_ledger_state p) t)" by (rule chain_root [OF tree assms(2)])
  then have "f_genesis_state p \<in> set (chain (f_ledger_state p) t)"
    using chain_Some [OF wf g] by (auto simp: suffix_def)
  then show ?thesis using wf_map_of_id [OF wf g] by auto
qed

lemma back_peers_linked:
  "\<forall>p \<in> set peers. finv E p \<Longrightarrow> gen_linked E i (back_peers E (Ok gi) peers i)"
proof (induction peers arbitrary: i)
  case (Cons p ps)
  then have wf: "wf_states E (f_ledger_state p)" by (auto dest: finvD(3))
  show ?case
    using Cons by (simp add: iter_chain_blocks_eq [OF wf] back_gen_linked chain_linked [OF wf])
qed simp

lemma back_peers_has:
  "\<forall>p \<in> set peers. finv E p \<and> gid E p = gi \<Longrightarrow> \<exists>p \<in> set peers. t \<in> keys (f_ledger_state p) \<Longrightarrow>
   gen_has E gi (back_peers E (Ok gi) peers t)"
proof (induction peers)
  case (Cons p ps)
  then have inv: "finv E p" and g: "gid E p = gi" by auto
  note wf = finvD(3) [OF inv]
  show ?case
  proof (cases "t \<in> keys (f_ledger_state p)")
    case True
    from chain_has_genesis [OF inv True] g show ?thesis
      by (simp add: iter_chain_blocks_eq [OF wf] back_gen_has [OF chain_linked [OF wf]])
  next
    case False
    with Cons show ?thesis by (simp add: iter_chain_blocks_eq [OF wf] chain_None [OF wf])
  qed
qed simp

lemma missing_part_linked:
  "gen_linked E i g \<Longrightarrow>
   \<exists>bs. missing_part E f g acc = Ok (rev (acc @ bs)) \<and> linked E i bs \<and>
     (\<forall>b \<in> set bs. \<forall>j. block_id E b = Ok j \<longrightarrow> j \<notin> keys (f_ledger_state f)) \<and>
     (\<forall>j. gen_has E j g \<longrightarrow> j \<in> keys (f_ledger_state f) \<longrightarrow> end_id i bs \<in> keys (f_ledger_state f))"
proof (induction g arbitrary: i acc)
  case GStop
  then show ?case by (intro exI [of _ "[]"]) simp
next
  case (GYield x g)
  from GYield.prems obtain b where x: "x = Ok b" and b: "block_id E b = Ok i"
      and link: "gen_linked E (bh_parent b) g" by (auto split: res.splits)
  show ?case
  proof (cases "i \<in> keys (f_ledger_state f)")
    case True
    then show ?thesis using keys_dom [of "f_ledger_state f" i]
      by (intro exI [of _ "[]"]) (simp add: x b)
  next
    case False
    then have none: "map_of (f_ledger_state f) i = None" by (simp add: keys_None)
    from GYield.IH [OF link, of "acc @ [b]"] obtain bs where
        "missing_part E f g (acc @ [b]) = Ok (rev ((acc @ [b]) @ bs))" "linked E (bh_parent b) bs"
        "\<forall>b \<in> set bs. \<forall>j. block_id E b = Ok j \<longrightarrow> j \<notin> keys (f_ledger_state f)"
        "\<forall>j. gen_has E j g \<longrightarrow> j \<in> keys (f_ledger_state f) \<longrightarrow> end_id (bh_parent b) bs \<in> keys (f_ledger_state f)"
      by blast
    with none False show ?thesis by (intro exI [of _ "b # bs"]) (auto simp: x b)
  qed
qed simp

lemma find_missing_part_eq:
  assumes inv: "finv E f" and good: "good_peers E f peers"
    and has: "\<exists>p \<in> set peers. t \<in> keys (f_ledger_state p)"
  shows "\<exists>bs. find_missing_part E f (fetch_chain_backward E peers t f) = Ok (rev bs) \<and> linked E t bs \<and>
     (\<forall>b \<in> set bs. \<forall>j. block_id E b = Ok j \<longrightarrow> j \<notin> keys (f_ledger_state f)) \<and>
     end_id t bs \<in> keys (f_ledger_state f)"
proof -
  note wf = finvD(3) [OF inv] and g = finvD(6) [OF inv]
  let ?gen = "fetch_chain_backward E peers t f"
  have gi: "block_id E (ls_block (f_genesis_state f)) = Ok (gid E f)" by (rule wf_map_of_id [OF wf g])
  have peers: "\<forall>p \<in> set peers. finv E p \<and> gid E p = gid E f" using good by (simp add: good_peers_def)
  then have fins: "\<forall>p \<in> set peers. finv E p" by blast
  have gen: "?gen = back_gen E (Ok (gid E f)) t (gen_of (map ls_block (chain (f_ledger_state f) t)))
      (back_peers E (Ok (gid E f)) peers)"
    by (simp add: fetch_chain_backward_def Let_def gi iter_chain_blocks_eq [OF wf])
  have "gen_linked E t ?gen"
    unfolding gen by (rule back_gen_linked [OF chain_linked [OF wf] back_peers_linked [OF fins]])
  moreover have "gen_has E (gid E f) ?gen"
  proof (cases "t \<in> keys (f_ledger_state f)")
    case True
    show ?thesis unfolding gen
      by (rule back_gen_has [OF chain_linked [OF wf] chain_has_genesis [OF inv True]])
  next
    case False
    then show ?thesis unfolding gen by (simp add: chain_None [OF wf] back_peers_has [OF peers has])
  qed
  moreover have "gid E f \<in> keys (f_ledger_state f)" by (rule keys_Some [OF g])
  ultimately show ?thesis
    using missing_part_linked [of E t ?gen f "[]"] by (auto simp: find_missing_part_def)
qed

section \<open>Importing a fork while bootstrapping\<close>

lemma on_block_bootstrapping:
  assumes inv: "finv E f" and ng: "no_genesis_parent E (f_genesis_state f) b"
    and boot: "f_state f = BOOTSTRAPPING" and run: "on_block E b f = (Ok u, f')" and id: "block_id E b = Ok i"
  shows "f_state f' = BOOTSTRAPPING" and "keys (f_ledger_state f') = insert i (keys (f_ledger_state f))"
proof -
  have "f_state f' = BOOTSTRAPPING \<and> keys (f_ledger_state f') = insert i (keys (f_ledger_state f))"
  proof (rule on_block_cases [OF inv ng run])
    fix j
    assume "block_id E b = Ok j" and "j \<in> keys (f_ledger_state f)" and "f' = f"
    then show ?thesis using id boot by auto
  next
    assume "inserted E b f f'"
    then show ?thesis using id boot by (auto simp: inserted_def)
  qed simp
  then show "f_state f' = BOOTSTRAPPING" and "keys (f_ledger_state f') = insert i (keys (f_ledger_state f))" by auto
qed

text \<open>The identifiers of a list of headers.\<close>

definition ids_of :: "Env \<Rightarrow> BlockHeader list \<Rightarrow> hash set" where
  "ids_of E bs = {i. \<exists>b \<in> set bs. block_id E b = Ok i}"

lemma ids_of_simps [simp]:
  "ids_of E [] = {}"
  "ids_of E (b # bs) = {i. block_id E b = Ok i} \<union> ids_of E bs"
  "ids_of E (rev bs) = ids_of E bs"
  by (auto simp: ids_of_def)

text \<open>
  The blocks before the first refused one are in the tree afterwards, and nothing else was added;
  what is raised starts with the refused one.
\<close>

lemma add_suffix_imports:
  assumes "add_suffix E bs f = (r, f')" and "reaches E f0 f" and "f_state f = BOOTSTRAPPING"
    and "\<forall>b \<in> set bs. \<exists>i. block_id E b = Ok i"
  shows "r = Ok () \<and> keys (f_ledger_state f') = keys (f_ledger_state f) \<union> ids_of E bs \<and> f' = receive_all E bs f \<or>
    (\<exists>e us b vs. bs = us @ b # vs \<and> r = Err (InvalidBlockFromBackfillFork e (b # vs)) \<and>
       keys (f_ledger_state f') = keys (f_ledger_state f) \<union> ids_of E us \<and>
       on_block E b (receive_all E us f) = (Err e, f'))"
  using assms
proof (induction bs arbitrary: f)
  case Nil
  then show ?case by auto
next
  case (Cons b bs)
  note f = Cons.prems(2) and boot = Cons.prems(3)
  note inv = reachesD(1) [OF f]
  have ng: "no_genesis_parent E (f_genesis_state f) b" using reachesD(3) [OF f] by (simp add: hash_sound_def)
  from Cons.prems(4) obtain i where i: "block_id E b = Ok i" by auto
  obtain r1 f1 where run: "on_block E b f = (r1, f1)" by (cases "on_block E b f")
  have f1: "reaches E f0 f1" by (rule keepsD [OF keeps_on_block f run])
  show ?case
  proof (cases r1)
    case (Ok u)
    note step = on_block_bootstrapping [OF inv ng boot run [unfolded Ok] i]
    from Cons.prems(1) run Ok have rest: "add_suffix E bs f1 = (r, f')" by (simp add: bind_act_def)
    have ids: "\<forall>b \<in> set bs. \<exists>i. block_id E b = Ok i" using Cons.prems(4) by simp
    from Cons.IH [OF rest f1 step(1) ids] show ?thesis
    proof (elim disjE exE conjE)
      fix e us b' vs
      assume "bs = us @ b' # vs" "r = Err (InvalidBlockFromBackfillFork e (b' # vs))"
        "keys (f_ledger_state f') = keys (f_ledger_state f1) \<union> ids_of E us"
        "on_block E b' (receive_all E us f1) = (Err e, f')"
      then show ?thesis using step(2) i run
        by (intro disjI2 exI [of _ e] exI [of _ "b # us"] exI [of _ b'] exI [of _ vs]) auto
    qed (use step(2) i run in auto)
  next
    case (Err e)
    with Cons.prems(1) run have r: "r = Err (InvalidBlockFromBackfillFork e (b # bs))" "f' = f1"
      by (simp_all add: bind_act_def)
    have "keys (f_ledger_state f1) = keys (f_ledger_state f)"
      by (rule on_block_cases [OF inv ng run]) (use Err in auto)
    then show ?thesis using r run Err
      by (intro disjI2 exI [of _ e] exI [of _ "[]"] exI [of _ b] exI [of _ bs]) simp
  next
    case Diverge
    with on_block_returns [OF inv ng run] show ?thesis by simp
  qed
qed

lemma linked_ids: "linked E t bs \<Longrightarrow> \<forall>b \<in> set bs. \<exists>i. block_id E b = Ok i"
  by (induction bs arbitrary: t) auto

lemma refused_not_stored:
  assumes "reaches E f0 g" and "on_block E b g = (Err e, f')" and "block_id E b = Ok i"
  shows "i \<notin> keys (f_ledger_state f')"
proof -
  have ng: "no_genesis_parent E (f_genesis_state g) b" using reachesD(3) [OF assms(1)] by (simp add: hash_sound_def)
  have "keys (f_ledger_state f') = keys (f_ledger_state g)"
    by (rule on_block_cases [OF reachesD(1) [OF assms(1)] ng assms(2)]) auto
  then show ?thesis using on_block_known [OF assms(3), of g] assms(2) by auto
qed

lemma backfill_imports:
  assumes inv: "finv E f" and hs: "hash_sound E f" and boot: "f_state f = BOOTSTRAPPING"
    and good: "good_peers E f peers" and t: "block_id E b = Ok t"
    and has: "\<exists>p \<in> set peers. t \<in> keys (f_ledger_state p)"
    and run: "backfill_fork E peers b f = (r, f')"
  shows "\<exists>bs. linked E t (rev bs) \<and> end_id t (rev bs) \<in> keys (f_ledger_state f) \<and>
    ids_of E bs \<inter> keys (f_ledger_state f) = {} \<and>
    (r = Ok () \<and> t \<in> keys (f_ledger_state f') \<and> keys (f_ledger_state f') = keys (f_ledger_state f) \<union> ids_of E bs \<or>
     (\<exists>e us b' vs. bs = us @ b' # vs \<and> r = Err (InvalidBlockFromBackfillFork e (b' # vs)) \<and>
        keys (f_ledger_state f') = keys (f_ledger_state f) \<union> ids_of E us \<and>
        on_block E b' (receive_all E us f) = (Err e, f') \<and>
        (\<forall>i. block_id E b' = Ok i \<longrightarrow> i \<notin> keys (f_ledger_state f'))))"
proof -
  from find_missing_part_eq [OF inv good has] obtain bs where
      m: "find_missing_part E f (fetch_chain_backward E peers t f) = Ok (rev bs)"
      and link: "linked E t bs" and endk: "end_id t bs \<in> keys (f_ledger_state f)"
      and new: "\<forall>b \<in> set bs. \<forall>j. block_id E b = Ok j \<longrightarrow> j \<notin> keys (f_ledger_state f)" by blast
  have ids: "\<forall>b \<in> set (rev bs). \<exists>i. block_id E b = Ok i" using linked_ids [OF link] by simp
  have rf: "reaches E f (receive_all E cs f)" for cs using inv hs by (auto simp: reaches_def)
  have add: "add_suffix E (rev bs) f = (r, f')"
    using run t m by (simp add: backfill_fork_def bind_plain_call)
  have tip: "t \<in> keys (f_ledger_state f) \<union> ids_of E bs" using link endk by (cases bs) auto
  have "ids_of E (rev bs) \<inter> keys (f_ledger_state f) = {}" using new by (auto simp: ids_of_def)
  moreover have "reaches E f f" using rf [of "[]"] by simp
  moreover note imp = add_suffix_imports [OF add this boot ids]
  have "r = Ok () \<and> t \<in> keys (f_ledger_state f') \<and> keys (f_ledger_state f') = keys (f_ledger_state f) \<union> ids_of E (rev bs) \<or>
     (\<exists>e us b' vs. rev bs = us @ b' # vs \<and> r = Err (InvalidBlockFromBackfillFork e (b' # vs)) \<and>
        keys (f_ledger_state f') = keys (f_ledger_state f) \<union> ids_of E us \<and>
        on_block E b' (receive_all E us f) = (Err e, f') \<and>
        (\<forall>i. block_id E b' = Ok i \<longrightarrow> i \<notin> keys (f_ledger_state f')))"
    using imp
  proof (elim disjE exE conjE)
    assume "r = Ok ()" "keys (f_ledger_state f') = keys (f_ledger_state f) \<union> ids_of E (rev bs)"
    then show ?thesis using tip by simp
  next
    fix e us b' vs
    assume "rev bs = us @ b' # vs" "r = Err (InvalidBlockFromBackfillFork e (b' # vs))"
      "keys (f_ledger_state f') = keys (f_ledger_state f) \<union> ids_of E us"
      "on_block E b' (receive_all E us f) = (Err e, f')"
    then show ?thesis using refused_not_stored [OF rf] by blast
  qed
  ultimately show ?thesis using link endk by (intro exI [of _ "rev bs"]) simp
qed

end
