(* ===== verification/Epoch_States.thy ===== *)
theory Epoch_States
  imports Follower_Safety
begin

text \<open>
  \<open>compute_epoch_state\<close> remembers its results in \<open>epoch_state\<close>, keyed by the epoch and the block
  of the nonce snapshot. \<open>epoch_state_spec\<close> is the same recursion without the table, on the chain
  of states alone. The table is sound (\<open>memo_ok\<close>) when every entry is what the recursion gives on
  the chain of its key; this file shows that a call on a sound table answers what the recursion
  answers and leaves a sound table, and that the steps of the follower keep the table sound.

  The key says enough because both snapshots of an epoch, and those of all earlier epochs, look
  for slots that are not later than the nonce snapshot's: what lies above that block on the chain
  is never returned. No order of the slots along the chain is needed for this, and none is checked
  by \<open>validate_header\<close>.
\<close>

section \<open>The recursion without the table\<close>

fun first_before :: "Slot \<Rightarrow> LedgerState \<Rightarrow> LedgerState list \<Rightarrow> LedgerState" where
  "first_before s g [] = g"
| "first_before s g (st # cs) = (if bh_slot (ls_block st) < s then st else first_before s g cs)"

definition stake_slot :: "int \<Rightarrow> Epoch \<Rightarrow> Slot" where
  "stake_slot l e = Slot (epoch (prev e) * l)"

definition nonce_slot :: "int \<Rightarrow> int \<Rightarrow> Epoch \<Rightarrow> Slot" where
  "nonce_slot l r e = Slot (r + epoch (prev e) * l)"

fun epoch_state_spec ::
    "Env \<Rightarrow> Config \<Rightarrow> LedgerState \<Rightarrow> nat \<Rightarrow> Epoch \<Rightarrow> LedgerState list \<Rightarrow> (exn, EpochState) res" where
  "epoch_state_spec E c g 0 e cs = Err RecursionError"
| "epoch_state_spec E c g (Suc n) e cs =
     (if epoch e = 0
      then Ok \<lparr>es_stake_distribution_snapshot = g, es_nonce_snapshot = g,
               inferred_total_active_stake = initial_total_active_stake c\<rparr>
      else
        bind_res (epoch_length c) (\<lambda>l.
        bind_res (epoch_relative_nonce_slot c) (\<lambda>r.
        let sd = first_before (stake_slot l e) g cs; ns = first_before (nonce_slot l r e) g cs in
        bind_res (epoch_state_spec E c g n (prev e) cs) (\<lambda>p.
        bind_res (infer_total_active_stake E c p ns sd) (\<lambda>stake.
          Ok \<lparr>es_stake_distribution_snapshot = sd, es_nonce_snapshot = ns,
              inferred_total_active_stake = stake\<rparr>)))))"

lemma epoch_state_spec_mono:
  "epoch_state_spec E c g n e cs \<noteq> Err RecursionError \<Longrightarrow> n \<le> n' \<Longrightarrow>
   epoch_state_spec E c g n' e cs = epoch_state_spec E c g n e cs"
proof (induction n arbitrary: e n')
  case (Suc n)
  from Suc.prems(2) obtain m where n': "n' = Suc m" and m: "n \<le> m" by (cases n') auto
  show ?case
  proof (cases "epoch_state_spec E c g n (prev e) cs = Err RecursionError")
    case True
    with Suc.prems(1) show ?thesis
      by (cases "epoch_length c"; cases "epoch_relative_nonce_slot c") (auto simp: n' Let_def split: if_splits)
  next
    case False
    with Suc.IH [OF _ m] show ?thesis by (simp add: n')
  qed
qed simp

lemma epoch_state_spec_det:
  assumes "epoch_state_spec E c g n e cs = Ok x" and "epoch_state_spec E c g n' e cs = r"
    and "r \<noteq> Err RecursionError"
  shows "r = Ok x"
  using assms epoch_state_spec_mono [of E c g n e cs n'] epoch_state_spec_mono [of E c g n' e cs n]
  by (cases "n \<le> n'") auto

text \<open>What the configurations of the protocol satisfy: epochs are not of negative length.\<close>

definition epochs_ok :: "Config \<Rightarrow> bool" where
  "epochs_ok c \<longleftrightarrow>
     (case epoch_length c of Ok l \<Rightarrow> 0 \<le> l | _ \<Rightarrow> True) \<and>
     (case epoch_relative_nonce_slot c of Ok r \<Rightarrow> 0 \<le> r | _ \<Rightarrow> True)"

lemma first_before_append:
  "\<forall>u \<in> set us. \<not> bh_slot (ls_block u) < s' \<Longrightarrow> s \<le> s' \<Longrightarrow>
   first_before s g (us @ ds) = first_before s g ds"
  by (induction us) auto

lemma epoch_state_spec_drop:
  assumes l: "epoch_length c = Ok l" and r: "epoch_relative_nonce_slot c = Ok r" and nn: "0 \<le> l" "0 \<le> r"
    and us: "\<forall>u \<in> set us. \<not> bh_slot (ls_block u) < nonce_slot l r e"
  shows "epoch_state_spec E c g n e (us @ ds) = epoch_state_spec E c g n e ds"
  using us
proof (induction n arbitrary: e)
  case (Suc n)
  have le: "stake_slot l e \<le> nonce_slot l r e" "nonce_slot l r (prev e) \<le> nonce_slot l r e"
    using nn by (simp_all add: stake_slot_def nonce_slot_def less_eq_Slot_def prev_def algebra_simps)
  have "\<forall>u \<in> set us. \<not> bh_slot (ls_block u) < nonce_slot l r (prev e)"
    using Suc.prems le(2) by (meson order.strict_trans2)
  from Suc.IH [OF this] show ?case
    using first_before_append [OF Suc.prems le(1), of g ds] first_before_append [OF Suc.prems order_refl, of g ds]
    by (simp add: l r Let_def)
qed simp

lemma first_before_cases:
  obtains us ds where "cs = us @ first_before s g cs # ds" and "\<forall>u \<in> set us. \<not> bh_slot (ls_block u) < s"
  | "first_before s g cs = g" and "\<forall>u \<in> set cs. \<not> bh_slot (ls_block u) < s"
proof (induction cs arbitrary: thesis)
  case (Cons st cs)
  show ?case
  proof (cases "bh_slot (ls_block st) < s")
    case True
    then show ?thesis by (intro Cons.prems(1) [of "[]" cs]) simp_all
  next
    case False
    show ?thesis
    proof (rule Cons.IH)
      fix us ds
      assume "cs = us @ first_before s g cs # ds" and "\<forall>u \<in> set us. \<not> bh_slot (ls_block u) < s"
      with False show thesis by (intro Cons.prems(1) [of "st # us" ds]) simp_all
    next
      assume "first_before s g cs = g" and "\<forall>u \<in> set cs. \<not> bh_slot (ls_block u) < s"
      with False show thesis by (intro Cons.prems(2)) simp_all
    qed
  qed
qed simp

lemma first_before_singleton: "first_before s g [g] = first_before s g []"
  by simp

lemma epoch_state_spec_genesis: "epoch_state_spec E c g n e [g] = epoch_state_spec E c g n e []"
  by (induction n arbitrary: e) (simp_all add: first_before_singleton del: first_before.simps)

text \<open>The recursion on a chain is the recursion on the chain of its nonce snapshot.\<close>

lemma epoch_state_spec_key:
  assumes tree: "tree_ok E g S" and gs: "map_of S g = Some gs" and t: "t \<in> keys S"
    and l: "epoch_length c = Ok l" and r: "epoch_relative_nonce_slot c = Ok r" and nn: "0 \<le> l" "0 \<le> r"
    and ns: "ns = first_before (nonce_slot l r e) gs (chain S t)"
  shows "\<exists>i. block_id E (ls_block ns) = Ok i \<and> i \<in> keys S \<and>
    (\<forall>n. epoch_state_spec E c gs n e (chain S t) = epoch_state_spec E c gs n e (chain S i))"
proof -
  from tree have wf: "wf_states E S" by (simp add: tree_ok_def)
  show ?thesis
  proof (rule first_before_cases [of "chain S t" "nonce_slot l r e" gs])
    fix us ds
    assume "chain S t = us @ first_before (nonce_slot l r e) gs (chain S t) # ds"
      and us: "\<forall>u \<in> set us. \<not> bh_slot (ls_block u) < nonce_slot l r e"
    then have c: "chain S t = us @ ns # ds" by (simp add: ns)
    note split = chain_split [OF wf c]
    have "block_id E (ls_block ns) = Ok (the_id E (ls_block ns))" by (rule wf_map_of_id [OF wf split(1)])
    moreover have "epoch_state_spec E c gs n e (chain S t) = epoch_state_spec E c gs n e (ns # ds)" for n
      unfolding c by (rule epoch_state_spec_drop [OF l r nn us])
    ultimately show ?thesis using split keys_Some [OF split(1)] by auto
  next
    assume g: "first_before (nonce_slot l r e) gs (chain S t) = gs"
      and us: "\<forall>u \<in> set (chain S t). \<not> bh_slot (ls_block u) < nonce_slot l r e"
    have "epoch_state_spec E c gs n e (chain S t) = epoch_state_spec E c gs n e []" for n
      using epoch_state_spec_drop [OF l r nn us, of E gs n "[]"] by simp
    moreover have "chain S g = [gs]"
    proof -
      have "chain S g = gs # chain S (parent_of gs)" using chain_Some [OF wf gs] .
      moreover have "parent_of gs \<notin> keys S"
        using chain_root [OF tree, of "parent_of gs"] calculation suffix_length_le by force
      ultimately show ?thesis by (simp add: chain_None [OF wf])
    qed
    ultimately show ?thesis
      using g ns wf_map_of_id [OF wf gs] keys_Some [OF gs] epoch_state_spec_genesis by auto
  qed
qed

section \<open>The table\<close>

definition memo_ok :: "Env \<Rightarrow> Follower \<Rightarrow> bool" where
  "memo_ok E f \<longleftrightarrow>
     (\<forall>e i es. f_epoch_state f (e, i) = Some es \<longrightarrow> i \<in> keys (f_ledger_state f) \<longrightarrow>
        (\<exists>n. epoch_state_spec E (f_config f) (f_genesis_state f) n e (chain (f_ledger_state f) i) = Ok es))"

lemma state_before_first: "state_before s g (gen_of cs) = Ok (first_before s g cs)"
  by (induction cs) auto

lemma snapshots_eq:
  assumes "wf_states E (f_ledger_state f)" and "epoch_length (f_config f) = Ok l"
    and "epoch_relative_nonce_slot (f_config f) = Ok r"
  shows "stake_distribution_snapshot f e t =
      Ok (first_before (stake_slot l e) (f_genesis_state f) (chain (f_ledger_state f) t))"
    and "nonce_snapshot f e t =
      Ok (first_before (nonce_slot l r e) (f_genesis_state f) (chain (f_ledger_state f) t))"
  using assms
  by (simp_all add: stake_distribution_snapshot_def nonce_snapshot_def state_at_slot_beginning_def
      epoch_start_slot_def iter_chain_bound_eq state_before_first stake_slot_def nonce_slot_def)

text \<open>A call with a table answers what the recursion answers at this depth or a greater one.\<close>

definition agrees :: "(exn, EpochState) res \<Rightarrow> (nat \<Rightarrow> (exn, EpochState) res) \<Rightarrow> nat \<Rightarrow> bool" where
  "agrees r spec n \<longleftrightarrow> (\<exists>n'\<ge>n. r = spec n')"

lemma agrees_spec:
  assumes "agrees r (\<lambda>n. epoch_state_spec E c g n e cs) n"
    and "epoch_state_spec E c g n e cs \<noteq> Err RecursionError"
  shows "r = epoch_state_spec E c g n e cs"
proof -
  from assms(1) obtain n' where "n \<le> n'" and r: "r = epoch_state_spec E c g n' e cs" by (auto simp: agrees_def)
  from epoch_state_spec_mono [OF assms(2) this(1)] r show ?thesis by simp
qed

lemma agrees_hit:
  assumes "epoch_state_spec E c g n' e cs = Ok es"
  shows "agrees (Ok es) (\<lambda>n. epoch_state_spec E c g n e cs) n"
proof -
  have "epoch_state_spec E c g (max n n') e cs = Ok es"
    unfolding assms [symmetric] by (rule epoch_state_spec_mono) (simp_all add: assms)
  then show ?thesis unfolding agrees_def by (metis max.cobounded1)
qed

lemma memo_ok_upd:
  assumes "memo_ok E f" and "epoch_state_spec E (f_config f) (f_genesis_state f) n e (chain (f_ledger_state f) i) = Ok es"
  shows "memo_ok E (f\<lparr>f_epoch_state := (f_epoch_state f)((e, i) \<mapsto> es)\<rparr>)"
  using assms by (auto simp: memo_ok_def)

lemma compute_epoch_state_Suc:
  assumes "epoch e \<noteq> 0" and "stake_distribution_snapshot f e t = Ok sd" and "nonce_snapshot f e t = Ok ns"
    and "block_id E (ls_block ns) = Ok i"
  shows "compute_epoch_state E (Suc n) e t f =
    (case f_epoch_state f (e, i) of
       Some st \<Rightarrow> (Ok st, f)
     | None \<Rightarrow>
         bind_act (compute_epoch_state E n (prev e) t) (\<lambda>p.
         bind_act (call (\<lambda>f. infer_total_active_stake E (f_config f) p ns sd)) (\<lambda>stake.
         let st = \<lparr>es_stake_distribution_snapshot = sd, es_nonce_snapshot = ns, inferred_total_active_stake = stake\<rparr>
         in bind_act (modify (\<lambda>f. f\<lparr>f_epoch_state := (f_epoch_state f)((e, i) \<mapsto> st)\<rparr>)) (\<lambda>_. ret st))) f)"
  using assms by (cases "f_epoch_state f (e, i)") (simp_all add: bind_act_call)

lemma compute_epoch_state_memo:
  assumes "compute_epoch_state E n e t f = (r, f')" and "memo_ok E f" and "finv E f"
    and "epochs_ok (f_config f)" and "t \<in> keys (f_ledger_state f)"
  shows "memo_ok E f' \<and>
    agrees r (\<lambda>n. epoch_state_spec E (f_config f) (f_genesis_state f) n e (chain (f_ledger_state f) t)) n"
  using assms
proof (induction n arbitrary: e f r f')
  case 0
  then have "r = Err RecursionError" "f' = f" by simp_all
  moreover have "agrees (Err RecursionError) (\<lambda>n. epoch_state_spec E c g n e cs) 0" for c g cs
    unfolding agrees_def by (rule exI [of _ 0]) simp
  ultimately show ?case using "0.prems"(2) by simp
next
  case (Suc n)
  let ?c = "f_config f" and ?g = "f_genesis_state f" and ?cs = "chain (f_ledger_state f) t"
  note fin = Suc.prems(3)
  note wf = finvD(3) [OF fin]
  show ?case
  proof (cases "epoch e = 0")
    case True
    with Suc.prems show ?thesis by (auto simp: bind_act_call agrees_def)
  next
    case e: False
    show ?thesis
    proof (cases "epoch_length ?c")
      case (Err x)
      with Suc.prems(1,2) e show ?thesis
        by (auto simp: stake_distribution_snapshot_def bind_act_call agrees_def)
    next
      case Diverge
      then show ?thesis by simp
    next
      case l: (Ok l)
      then obtain q where q: "epoch_relative_nonce_slot ?c = Ok q" by (auto simp: epoch_length_def res_simps)
      have nn: "0 \<le> l" "0 \<le> q" using Suc.prems(4) l q by (simp_all add: epochs_ok_def)
      let ?sd = "first_before (stake_slot l e) ?g ?cs" and ?ns = "first_before (nonce_slot l q e) ?g ?cs"
      note snap = snapshots_eq [OF wf l q, of e t]
      from epoch_state_spec_key [OF finvD(2) [OF fin] finvD(6) [OF fin] Suc.prems(5) l q nn refl, of e]
      obtain i where i: "block_id E (ls_block ?ns) = Ok i" "i \<in> keys (f_ledger_state f)"
          and key: "\<And>n. epoch_state_spec E ?c ?g n e ?cs = epoch_state_spec E ?c ?g n e (chain (f_ledger_state f) i)"
        by blast
      note step = compute_epoch_state_Suc [OF e snap i(1), of n]
      show ?thesis
      proof (cases "f_epoch_state f (e, i)")
        case (Some es)
        with Suc.prems(1) step have r: "r = Ok es" "f' = f" by simp_all
        from Suc.prems(2) Some i(2) obtain n' where "epoch_state_spec E ?c ?g n' e (chain (f_ledger_state f) i) = Ok es"
          unfolding memo_ok_def by blast
        then have "epoch_state_spec E ?c ?g n' e ?cs = Ok es" by (simp only: key)
        then show ?thesis using r Suc.prems(2) by (simp add: agrees_hit)
      next
        case None
        obtain r1 f1 where c: "compute_epoch_state E n (prev e) t f = (r1, f1)"
          by (cases "compute_epoch_state E n (prev e) t f")
        from compute_epoch_state_frame [OF c] obtain m where f1: "f1 = f\<lparr>f_epoch_state := m\<rparr>" by blast
        from Suc.IH [OF c Suc.prems(2-5)] have ok1: "memo_ok E f1"
            and ag: "agrees r1 (\<lambda>n. epoch_state_spec E ?c ?g n (prev e) ?cs) n" by blast+
        have c1: "f_config f1 = ?c" "f_genesis_state f1 = ?g" "f_ledger_state f1 = f_ledger_state f"
          by (simp_all add: f1)
        let ?st = "\<lambda>stake. \<lparr>es_stake_distribution_snapshot = ?sd, es_nonce_snapshot = ?ns,
            inferred_total_active_stake = stake\<rparr>"
        have spec: "epoch_state_spec E ?c ?g (Suc k) e ?cs =
            bind_res (epoch_state_spec E ?c ?g k (prev e) ?cs) (\<lambda>p.
            bind_res (infer_total_active_stake E ?c p ?ns ?sd) (\<lambda>stake. Ok (?st stake)))" for k
          using e l q by (simp add: Let_def)
        from ag obtain k where k: "n \<le> k" "r1 = epoch_state_spec E ?c ?g k (prev e) ?cs" by (auto simp: agrees_def)
        show ?thesis
        proof (cases r1)
          case (Err x)
          then have "epoch_state_spec E ?c ?g (Suc k) e ?cs = Err x" using k(2) by (simp only: spec bind_res.simps)
          moreover have "r = Err x" "f' = f1" using Suc.prems(1) step None c Err by (simp_all add: bind_act_def)
          moreover have "Suc n \<le> Suc k" using k(1) by simp
          ultimately show ?thesis using ok1 unfolding agrees_def by metis
        next
          case Diverge
          with compute_epoch_state_returns [OF c wf] show ?thesis by simp
        next
          case (Ok p)
          then have k': "epoch_state_spec E ?c ?g k (prev e) ?cs = Ok p" using k(2) by simp
          have run: "compute_epoch_state E (Suc n) e t f =
              (case infer_total_active_stake E ?c p ?ns ?sd of
                 Ok stake \<Rightarrow> (Ok (?st stake), f1\<lparr>f_epoch_state := (f_epoch_state f1)((e, i) \<mapsto> ?st stake)\<rparr>)
               | Err x \<Rightarrow> (Err x, f1) | Diverge \<Rightarrow> (Diverge, f1))"
            using step None c Ok c1 by (simp add: bind_act_def Let_def split: res.splits)
          show ?thesis
          proof (cases "infer_total_active_stake E ?c p ?ns ?sd")
            case (Ok stake)
            have sk: "epoch_state_spec E ?c ?g (Suc k) e ?cs = Ok (?st stake)"
              by (simp only: spec k' Ok bind_res.simps)
            then have "epoch_state_spec E (f_config f1) (f_genesis_state f1) (Suc k) e (chain (f_ledger_state f1) i) = Ok (?st stake)"
              unfolding c1 key .
            from memo_ok_upd [OF ok1 this] have "memo_ok E f'" using Suc.prems(1) run Ok by simp
            moreover have "r = Ok (?st stake)" using Suc.prems(1) run Ok by simp
            ultimately show ?thesis using agrees_hit [OF sk] by blast
          next
            case (Err x)
            then have r: "r = Err x" "f' = f1" using Suc.prems(1) run by simp_all
            have "epoch_state_spec E ?c ?g (Suc k) e ?cs = Err x"
              by (simp only: spec k' Err bind_res.simps)
            moreover have "Suc n \<le> Suc k" using k(1) by simp
            ultimately show ?thesis using r ok1 unfolding agrees_def by metis
          qed simp
        qed
      qed
    qed
  qed
qed

text \<open>With enough calls left the recursion does not run out of them: it returns or a division failed.\<close>

lemma infer_not_RecursionError: "infer_total_active_stake E c p ns sd \<noteq> Err RecursionError"
  by (auto simp: infer_total_active_stake_def epoch_relative_nonce_slot_def base_period_length_def
      float_div_def Let_def res_simps split: option.splits if_splits)

lemma lengths_not_RecursionError:
  "epoch_length c \<noteq> Err RecursionError" "epoch_relative_nonce_slot c \<noteq> Err RecursionError"
  by (auto simp: epoch_length_def epoch_relative_nonce_slot_def base_period_length_def float_div_def
      res_simps split: if_splits)

lemma epoch_state_spec_deep:
  "0 \<le> epoch e \<Longrightarrow> epoch e < int n \<Longrightarrow> epoch_state_spec E c g n e cs \<noteq> Err RecursionError"
proof (induction n arbitrary: e)
  case (Suc n)
  show ?case
  proof (cases "epoch e = 0")
    case False
    with Suc.prems have "epoch_state_spec E c g n (prev e) cs \<noteq> Err RecursionError"
      by (intro Suc.IH) (simp_all add: prev_def)
    with False infer_not_RecursionError lengths_not_RecursionError show ?thesis
      by (simp add: bind_res_Err_iff Let_def)
  qed simp
qed simp

lemma epoch_state_spec_negative:
  "epoch e < 0 \<Longrightarrow> epoch_length c = Ok l \<Longrightarrow> epoch_state_spec E c g n e cs = Err RecursionError"
proof (induction n arbitrary: e)
  case (Suc n)
  then have "epoch_state_spec E c g n (prev e) cs = Err RecursionError"
    by (intro Suc.IH) (simp_all add: prev_def)
  with Suc.prems show ?case by (auto simp: epoch_length_def res_simps Let_def)
qed simp

section \<open>The table along runs\<close>

text \<open>
  A new block must not reuse an identifier some entry of the table was computed for. A block that
  was pruned and comes again does not: its parent does not lie above the last immutable block.
\<close>

definition fresh_id :: "Env \<Rightarrow> Follower \<Rightarrow> BlockHeader \<Rightarrow> bool" where
  "fresh_id E f b \<longleftrightarrow>
     (\<forall>i e. block_id E b = Ok i \<longrightarrow> i \<notin> keys (f_ledger_state f) \<longrightarrow>
        f_lib f \<in> set (chain_ids E (f_ledger_state f) (bh_parent b)) \<longrightarrow> f_epoch_state f (e, i) = None)"

inductive cstep :: "Env \<Rightarrow> Follower \<Rightarrow> Follower \<Rightarrow> bool" for E where
  receive_fresh: "no_genesis_parent E (f_genesis_state f) b \<Longrightarrow> fresh_id E f b \<Longrightarrow> on_block E b f = (r, f') \<Longrightarrow>
     cstep E f f'"
| go_online_fresh: "to_online E f = (r, f') \<Longrightarrow> cstep E f f'"

inductive_cases cstepE: "cstep E f f'"

lemma cstep_fstep: "cstep E f f' \<Longrightarrow> fstep E f f'"
  by (auto elim!: cstepE intro: fstep.intros)

definition einv :: "Env \<Rightarrow> Follower \<Rightarrow> bool" where
  "einv E f \<longleftrightarrow> finv E f \<and> epochs_ok (f_config f) \<and> memo_ok E f"

lemma compute_epoch_state_dom:
  assumes "compute_epoch_state E n e t f = (r, f')" and "finv E f"
    and "f_epoch_state f' (e', i) \<noteq> None"
  shows "f_epoch_state f (e', i) \<noteq> None \<or> i \<in> keys (f_ledger_state f)"
  using assms
proof (induction n arbitrary: e f r f')
  case 0
  then show ?case by simp
next
  case (Suc n)
  obtain r1 f1 where c: "compute_epoch_state E n (prev e) t f = (r1, f1)"
    by (cases "compute_epoch_state E n (prev e) t f")
  from compute_epoch_state_frame [OF c] obtain m where f1: "f1 = f\<lparr>f_epoch_state := m\<rparr>" by blast
  have IH: "m (e', i) \<noteq> None \<Longrightarrow> f_epoch_state f (e', i) \<noteq> None \<or> i \<in> keys (f_ledger_state f)"
    using Suc.IH [OF c Suc.prems(2)] by (simp add: f1)
  have ns: "j \<in> keys (f_ledger_state f)" if "nonce_snapshot f e t = Ok ns" "block_id E (ls_block ns) = Ok j" for ns j
  proof -
    from that(1) obtain s where "state_at_slot_beginning f t s = Ok ns"
      by (auto simp: nonce_snapshot_def res_simps)
    then have "ns = first_before s (f_genesis_state f) (chain (f_ledger_state f) t)"
      by (simp add: state_at_slot_beginning_def iter_chain_bound_eq [OF finvD(3) [OF Suc.prems(2)]] state_before_first)
    moreover have "first_before s g cs = g \<or> first_before s g cs \<in> set cs" for g and cs :: "LedgerState list"
      by (induction cs) auto
    ultimately have "ns = f_genesis_state f \<or> ns \<in> set (chain (f_ledger_state f) t)" by metis
    then show ?thesis
    proof
      assume "ns = f_genesis_state f"
      then have "the_id E (ls_block ns) = j" "j = gid E f" using that(2) by (simp_all add: the_id_def)
      then show ?thesis using keys_Some [OF finvD(6) [OF Suc.prems(2)]] by simp
    next
      assume "ns \<in> set (chain (f_ledger_state f) t)"
      from chain_mem [OF finvD(3) [OF Suc.prems(2)] this] that(2) show ?thesis by (auto intro: keys_Some)
    qed
  qed
  from Suc.prems(1,3) IH ns show ?case
    by (auto simp: act_simps bind_act_def c f1 Let_def split: if_splits res.splits option.splits)
qed

lemma evaluated_memo:
  assumes "einv E f" and "evaluated E b f m"
  shows "memo_ok E (f\<lparr>f_epoch_state := m\<rparr>)"
    and "m (e, i) \<noteq> None \<Longrightarrow> f_epoch_state f (e, i) \<noteq> None \<or> i \<in> keys (f_ledger_state f)"
proof -
  have fin: "finv E f" "epochs_ok (f_config f)" "memo_ok E f" using assms(1) by (simp_all add: einv_def)
  have "memo_ok E (f\<lparr>f_epoch_state := m\<rparr>) \<and>
      (m (e, i) \<noteq> None \<longrightarrow> f_epoch_state f (e, i) \<noteq> None \<or> i \<in> keys (f_ledger_state f))" for e i
  proof (cases "m = f_epoch_state f")
    case True
    then show ?thesis using fin(3) by simp
  next
    case False
    with assms(2) obtain e' r f1 where p: "bh_parent b \<in> keys (f_ledger_state f)"
        and c: "compute_epoch_state E (recursion_limit E) e' (bh_parent b) f = (r, f1)"
        and m: "m = f_epoch_state f1" by (auto simp: evaluated_def)
    from compute_epoch_state_frame [OF c] m have "f1 = f\<lparr>f_epoch_state := m\<rparr>" by auto
    then show ?thesis
      using compute_epoch_state_memo [OF c fin(3,1,2) p] compute_epoch_state_dom [OF c fin(1), of e i] m by auto
  qed
  then show "memo_ok E (f\<lparr>f_epoch_state := m\<rparr>)"
    and "m (e, i) \<noteq> None \<Longrightarrow> f_epoch_state f (e, i) \<noteq> None \<or> i \<in> keys (f_ledger_state f)" by blast+
qed

lemma memo_ok_prune:
  assumes "memo_ok E f" and tree: "tree_ok E (gid E f) (f_ledger_state f)" and l: "l \<in> keys (f_ledger_state f)"
    and same: "f_config f' = f_config f" "f_genesis_state f' = f_genesis_state f" "f_epoch_state f' = f_epoch_state f"
      "f_ledger_state f' = prune E l (f_ledger_state f)"
  shows "memo_ok E f'"
  using assms(1) by (auto simp: memo_ok_def same keys_prune [OF tree l] chain_prune [OF tree l])

lemma inserted_memo:
  assumes inv: "einv E f" and fresh: "fresh_id E f b" and ins: "inserted E b f f'"
  shows "memo_ok E f'"
proof -
  have fin: "finv E f" using inv by (simp add: einv_def)
  note tree = finvD(2) [OF fin]
  from ins obtain i st0 st m lib S forks t where id: "block_id E b = Ok i"
      and i: "insertable E (gid E f) (f_ledger_state f) i st"
      and st0: "map_of (f_ledger_state f) (bh_parent b) = Some st0"
      and h: "length (chain (f_ledger_state f) (f_lib f)) \<le> length (chain (f_ledger_state f) (bh_parent b))"
      and ev: "evaluated E b f m"
      and S: "S = (if f_state f = ONLINE then prune E lib (f_ledger_state f @ [(i, st)]) else f_ledger_state f @ [(i, st)])"
      and lib: "lib \<in> keys (f_ledger_state f @ [(i, st)])"
      and f': "f' = f\<lparr>f_epoch_state := m, f_ledger_state := S, f_forks := forks, f_local_chain := t, f_lib := lib\<rparr>"
    unfolding inserted_def by (elim exE conjE)
  have ni: "i \<notin> keys (f_ledger_state f)" using i by (simp add: insertable_def)
  have "f_lib f \<in> set (chain_ids E (f_ledger_state f) (bh_parent b))"
    by (rule accepted_above_lib [OF fin keys_Some [OF st0] h])
  then have "f_epoch_state f (e, i) = None" for e using fresh id ni by (simp add: fresh_id_def)
  then have none: "f_epoch_state f (e, i) = None" for e .
  have mi: "m (e, i) = None" for e
    using evaluated_memo(2) [OF inv ev, of e i] ni none [of e] by (cases "m (e, i)") simp_all
  let ?g = "f\<lparr>f_epoch_state := m, f_ledger_state := f_ledger_state f @ [(i, st)]\<rparr>"
  have g: "memo_ok E ?g"
    unfolding memo_ok_def
  proof (intro allI impI)
    fix e j es
    assume e: "f_epoch_state ?g (e, j) = Some es" and "j \<in> keys (f_ledger_state ?g)"
    moreover have "j \<noteq> i" using e mi [of e] by auto
    ultimately show "\<exists>n. epoch_state_spec E (f_config ?g) (f_genesis_state ?g) n e (chain (f_ledger_state ?g) j) = Ok es"
      using evaluated_memo(1) [OF inv ev] by (simp add: memo_ok_def chain_insert_old [OF tree i])
  qed
  show ?thesis
  proof (cases "f_state f = ONLINE")
    case True
    show ?thesis
      by (rule memo_ok_prune [OF g, of lib]) (use tree_ok_insert [OF tree i] lib True in \<open>simp_all add: f' S\<close>)
  next
    case False
    then show ?thesis using g by (simp add: memo_ok_def f' S)
  qed
qed

lemma cstep_einv:
  assumes inv: "einv E f" and step: "cstep E f f'"
  shows "einv E f'"
proof -
  have fin: "finv E f" and ep: "epochs_ok (f_config f)" and mo: "memo_ok E f" using inv by (simp_all add: einv_def)
  have "finv E f' \<and> advances f f'" by (rule fstep_keeps [OF fin cstep_fstep [OF step]])
  then have fin': "finv E f'" "epochs_ok (f_config f')" using ep by (simp_all add: advances_def)
  have "memo_ok E f'"
    using step
  proof (rule cstepE)
    fix b r
    assume ng: "no_genesis_parent E (f_genesis_state f) b" and fresh: "fresh_id E f b"
      and run: "on_block E b f = (r, f')"
    show ?thesis
    proof (rule on_block_cases [OF fin ng run])
      assume "f' = f"
      then show ?thesis using mo by simp
    next
      fix m
      assume "f' = f\<lparr>f_epoch_state := m\<rparr>" and "evaluated E b f m"
      then show ?thesis using evaluated_memo(1) [OF inv] by simp
    next
      assume "inserted E b f f'"
      then show ?thesis by (rule inserted_memo [OF inv fresh])
    qed
  next
    fix r
    assume run: "to_online E f = (r, f')"
    show ?thesis
    proof (rule to_online_cases [OF fin run])
      assume "f' = f"
      then show ?thesis using mo by simp
    next
      fix l forks
      assume l: "l \<in> keys (f_ledger_state f)"
        and f': "f' = f\<lparr>f_state := ONLINE, f_lib := l, f_forks := forks,
          f_ledger_state := prune E l (f_ledger_state f)\<rparr>"
      show ?thesis by (rule memo_ok_prune [OF mo finvD(2) [OF fin] l]) (simp_all add: f')
    qed
  qed
  with fin' show ?thesis by (simp add: einv_def)
qed

interpretation epochs: invariant_system "cstep E" "einv E" for E
  by unfold_locales (rule cstep_einv)

end
