(* ===== verification/Follower_Ledger.thy ===== *)
theory Follower_Ledger
  imports Follower_Safety
begin

text \<open>
  What the states a follower keeps say about the chain that led to them.

  \<open>replayed\<close>: every state but the first is \<open>apply_block\<close> of its parent's state, and its block
  carries a leader proof bound to its slot and parent, by a note committed to at genesis and not
  spent. \<open>memo_notes\<close>: the epoch states remembered take their commitments from a state of the
  tree. Both are kept by every step, so they hold along every run.
\<close>

section \<open>Definitions\<close>

definition leader_ok :: "Env \<Rightarrow> LedgerState \<Rightarrow> BlockHeader \<Rightarrow> bool" where
  "leader_ok E gs b \<longleftrightarrow>
     verify_leader_proof E (leader_proof b) (bh_slot b) (bh_parent b) (commitments gs) (nullifiers gs) = Ok True"

definition derives :: "Env \<Rightarrow> LedgerState \<Rightarrow> states \<Rightarrow> LedgerState \<Rightarrow> bool" where
  "derives E gs S st \<longleftrightarrow>
     (\<exists>st0. map_of S (parent_of st) = Some st0 \<and> apply_block E st0 (ls_block st) = Ok st \<and>
        leader_ok E gs (ls_block st))"

definition replayed :: "Env \<Rightarrow> Follower \<Rightarrow> bool" where
  "replayed E f \<longleftrightarrow>
     (\<forall>k st. map_of (f_ledger_state f) k = Some st \<longrightarrow> k \<noteq> gid E f \<longrightarrow>
        derives E (f_genesis_state f) (f_ledger_state f) st)"

definition memo_notes :: "Follower \<Rightarrow> bool" where
  "memo_notes f \<longleftrightarrow>
     (\<forall>es \<in> ran (f_epoch_state f).
        commitments (es_stake_distribution_snapshot es) = commitments (f_genesis_state f))"

definition linv :: "Env \<Rightarrow> Follower \<Rightarrow> bool" where
  "linv E f \<longleftrightarrow> finv E f \<and> replayed E f \<and> memo_notes f"

text \<open>A state \<open>n\<close> blocks above genesis.\<close>

definition grown :: "LedgerState \<Rightarrow> LedgerState \<Rightarrow> nat \<Rightarrow> bool" where
  "grown gs st n \<longleftrightarrow>
     commitments st = commitments gs \<and> nullifiers st = nullifiers gs \<and>
     leader_count st = leader_count gs + int n"

section \<open>States along a chain\<close>

lemma chain_genesis:
  assumes "tree_ok E g S" and "map_of S g = Some gs"
  shows "chain S g = [gs]" and "parent_of gs \<notin> keys S"
proof -
  from assms(1) have wf: "wf_states E S" by (simp add: tree_ok_def)
  have c: "chain S g = gs # chain S (parent_of gs)" using chain_Some [OF wf assms(2)] .
  show p: "parent_of gs \<notin> keys S"
  proof
    assume "parent_of gs \<in> keys S"
    from chain_root [OF assms(1) this] c show False
      by (metis length_Cons not_less_eq_eq order_refl suffix_length_le)
  qed
  show "chain S g = [gs]" using c by (simp add: chain_None [OF wf p])
qed

lemma replayed_grown:
  assumes tree: "tree_ok E (gid E f) (f_ledger_state f)" and rep: "replayed E f"
    and g: "map_of (f_ledger_state f) (gid E f) = Some (f_genesis_state f)"
  shows "map_of (f_ledger_state f) k = Some st \<Longrightarrow>
    grown (f_genesis_state f) st (length (chain (f_ledger_state f) k) - 1)"
proof (induction "length (chain (f_ledger_state f) k)" arbitrary: k st rule: less_induct)
  case less
  let ?S = "f_ledger_state f"
  from tree have wf: "wf_states E ?S" by (simp add: tree_ok_def)
  show ?case
  proof (cases "k = gid E f")
    case True
    then have "st = f_genesis_state f" using g less.prems by simp
    then show ?thesis using chain_genesis(1) [OF tree g] True by (simp add: grown_def)
  next
    case False
    from rep less.prems False have "derives E (f_genesis_state f) ?S st" by (auto simp: replayed_def)
    then obtain st0 where st0: "map_of ?S (parent_of st) = Some st0" and ap: "apply_block E st0 (ls_block st) = Ok st"
      by (auto simp: derives_def)
    have c: "chain ?S k = st # chain ?S (parent_of st)" using chain_Some [OF wf less.prems] .
    have "grown (f_genesis_state f) st0 (length (chain ?S (parent_of st)) - 1)"
      using less.hyps st0 c by simp
    moreover have "length (chain ?S (parent_of st)) \<noteq> 0" using chain_Some [OF wf st0] by simp
    ultimately show ?thesis
      using apply_block_fields [OF ap] c by (auto simp: grown_def)
  qed
qed

lemma linvD:
  assumes "linv E f"
  shows "finv E f" and "replayed E f" and "memo_notes f"
    and "map_of (f_ledger_state f) k = Some st \<Longrightarrow>
      grown (f_genesis_state f) st (length (chain (f_ledger_state f) k) - 1)"
proof -
  show fin: "finv E f" and rep: "replayed E f" and "memo_notes f" using assms by (simp_all add: linv_def)
  show "map_of (f_ledger_state f) k = Some st \<Longrightarrow>
      grown (f_genesis_state f) st (length (chain (f_ledger_state f) k) - 1)"
    by (rule replayed_grown [OF finvD(2) [OF fin] rep finvD(6) [OF fin]])
qed

section \<open>Snapshots are states of the tree\<close>

lemma state_before_mem: "state_before s g (gen_of cs) = Ok st \<Longrightarrow> st = g \<or> st \<in> set cs"
  by (induction cs) (auto split: if_splits)

lemma snapshot_mem:
  assumes wf: "wf_states E (f_ledger_state f)" and "state_at_slot_beginning f t s = Ok st"
  shows "st = f_genesis_state f \<or> (\<exists>k. map_of (f_ledger_state f) k = Some st)"
  using assms(2) chain_mem(1) [OF wf]
  by (auto simp: state_at_slot_beginning_def iter_chain_bound_eq [OF wf] dest!: state_before_mem)

lemma snapshot_notes:
  assumes "linv E f" and "state_at_slot_beginning f t s = Ok st"
  shows "commitments st = commitments (f_genesis_state f)"
  using snapshot_mem [OF finvD(3) [OF linvD(1) [OF assms(1)]] assms(2)] linvD(4) [OF assms(1)]
  by (auto simp: grown_def)

lemma linv_memo: "linv E (f\<lparr>f_epoch_state := m\<rparr>) \<longleftrightarrow> finv E f \<and> replayed E f \<and> memo_notes (f\<lparr>f_epoch_state := m\<rparr>)"
  by (simp add: linv_def finv_memo replayed_def)

lemma memo_notes_upd:
  "memo_notes f \<Longrightarrow> commitments (es_stake_distribution_snapshot es) = commitments (f_genesis_state f) \<Longrightarrow>
   memo_notes (f\<lparr>f_epoch_state := (f_epoch_state f)(x \<mapsto> es)\<rparr>)"
  by (auto simp: memo_notes_def ran_def)

lemma compute_epoch_state_notes:
  assumes "compute_epoch_state E n e t f = (r, f')" and "linv E f"
  shows "linv E f' \<and> (\<forall>es. r = Ok es \<longrightarrow>
    commitments (es_stake_distribution_snapshot es) = commitments (f_genesis_state f))"
  using assms
proof (induction n arbitrary: e f r f')
  case 0
  then show ?case by auto
next
  case (Suc n)
  note lin = Suc.prems(2)
  obtain r1 f1 where c: "compute_epoch_state E n (prev e) t f = (r1, f1)" by (cases "compute_epoch_state E n (prev e) t f")
  from compute_epoch_state_frame [OF c] obtain m where f1: "f1 = f\<lparr>f_epoch_state := m\<rparr>" by blast
  have lin1: "linv E f1" using Suc.IH [OF c lin] by blast
  then have mn: "memo_notes (f\<lparr>f_epoch_state := m\<rparr>)" by (simp add: f1 linv_def)
  have sdn: "commitments sd = commitments (f_genesis_state f)" if "stake_distribution_snapshot f e t = Ok sd" for sd
    using that snapshot_notes [OF lin] by (auto simp: stake_distribution_snapshot_def res_simps)
  have old: "commitments (es_stake_distribution_snapshot es) = commitments (f_genesis_state f)"
    if "f_epoch_state f x = Some es" for x es
    using linvD(3) [OF lin] ranI [of "f_epoch_state f", OF that] by (simp add: memo_notes_def)
  have upd: "linv E (f\<lparr>f_epoch_state := m(x \<mapsto> es)\<rparr>)"
    if "stake_distribution_snapshot f e t = Ok (es_stake_distribution_snapshot es)" for x es
    using memo_notes_upd [OF mn, of es x] linvD(1,2) [OF lin] sdn [OF that] by (simp add: linv_memo)
  from Suc.prems(1) lin lin1 sdn old upd show ?case
    by (auto simp: act_simps bind_act_def c f1 Let_def split: if_splits res.splits option.splits)
qed

section \<open>Steps\<close>

lemma evaluated_linv:
  assumes "linv E f" and "evaluated E b f m"
  shows "linv E (f\<lparr>f_epoch_state := m\<rparr>)"
proof (cases "m = f_epoch_state f")
  case False
  with assms(2) obtain e r f1 where c: "compute_epoch_state E (recursion_limit E) e (bh_parent b) f = (r, f1)"
      and m: "m = f_epoch_state f1" by (auto simp: evaluated_def)
  from compute_epoch_state_frame [OF c] m have "f1 = f\<lparr>f_epoch_state := m\<rparr>" by auto
  with compute_epoch_state_notes [OF c assms(1)] show ?thesis by simp
qed (use assms(1) in simp)

lemma derives_insert:
  "i \<notin> keys S \<Longrightarrow> derives E gs S st \<Longrightarrow> derives E gs (S @ [(i, st')]) st"
  by (auto simp: derives_def map_of_snoc dest: keys_Some)

lemma replayed_prune:
  assumes tree: "tree_ok E (gid E f) (f_ledger_state f)" and l: "l \<in> keys (f_ledger_state f)" and rep: "replayed E f"
    and same: "f_genesis_state f' = f_genesis_state f" "f_ledger_state f' = prune E l (f_ledger_state f)"
  shows "replayed E f'"
  unfolding replayed_def same
proof clarify
  fix k st
  let ?S = "f_ledger_state f"
  assume m: "map_of (prune E l ?S) k = Some st" and k: "k \<noteq> gid E f"
  have kept: "kept E ?S l k" and st: "map_of ?S k = Some st"
    using m by (auto simp: map_of_prune [OF tree l] split: if_splits)
  from rep st k have d: "derives E (f_genesis_state f) ?S st" by (auto simp: replayed_def)
  then have "parent_of st \<in> keys ?S" by (auto simp: derives_def keys_Some)
  moreover have wf: "wf_states E ?S" using tree by (simp add: tree_ok_def)
  ultimately have "kept E ?S l (parent_of st)" using kept_parent [OF wf st kept l] by blast
  with d show "derives E (f_genesis_state f) (prune E l ?S) st"
    by (auto simp: derives_def map_of_prune [OF tree l])
qed

lemma accepted_leader_ok:
  assumes lin: "linv E f" and acc: "accepted_proof E b f f'"
  shows "leader_ok E (f_genesis_state f) b"
proof -
  from acc obtain e es st where
      c: "compute_epoch_state E (recursion_limit E) e (bh_parent b) f = (Ok es, f')"
      and st: "map_of (f_ledger_state f) (bh_parent b) = Some st"
      and v: "verify_leader_proof E (leader_proof b) (bh_slot b) (bh_parent b)
          (commitments (es_stake_distribution_snapshot es)) (nullifiers st) = Ok True"
    by (auto simp: accepted_proof_def)
  from compute_epoch_state_notes [OF c lin]
  have "commitments (es_stake_distribution_snapshot es) = commitments (f_genesis_state f)" by blast
  moreover have "nullifiers st = nullifiers (f_genesis_state f)" using linvD(4) [OF lin st] by (simp add: grown_def)
  ultimately show ?thesis using v by (simp add: leader_ok_def)
qed

lemma inserted_linv:
  assumes lin: "linv E f" and ins: "inserted E b f f'"
  shows "linv E f'"
proof -
  note tree = finvD(2) [OF linvD(1) [OF lin]]
  from ins obtain i st0 st m lib S forks t where
      i: "insertable E (gid E f) (f_ledger_state f) i st"
      and st0: "map_of (f_ledger_state f) (bh_parent b) = Some st0" and ap: "apply_block E st0 b = Ok st"
      and acc: "accepted_proof E b f (f\<lparr>f_epoch_state := m\<rparr>)" and ev: "evaluated E b f m"
      and S: "S = (if f_state f = ONLINE then prune E lib (f_ledger_state f @ [(i, st)]) else f_ledger_state f @ [(i, st)])"
      and lib: "lib \<in> keys (f_ledger_state f @ [(i, st)])"
      and f': "f' = f\<lparr>f_epoch_state := m, f_ledger_state := S, f_forks := forks, f_local_chain := t, f_lib := lib\<rparr>"
      and fin: "finv E f'"
    unfolding inserted_def by (elim exE conjE)
  have ni: "i \<notin> keys (f_ledger_state f)" using i by (simp add: insertable_def)
  note blk = apply_block_fields(1) [OF ap]
  have new: "derives E (f_genesis_state f) (f_ledger_state f @ [(i, st)]) st"
    using st0 ap blk accepted_leader_ok [OF lin acc] ni
    by (auto simp: derives_def map_of_snoc dest: keys_Some)
  let ?g = "f\<lparr>f_ledger_state := f_ledger_state f @ [(i, st)]\<rparr>"
  have rep: "replayed E ?g"
    using linvD(2) [OF lin] new derives_insert [OF ni]
    by (auto simp: replayed_def map_of_snoc [OF ni] split: if_splits)
  have "replayed E f'"
  proof (cases "f_state f = ONLINE")
    case True
    show ?thesis
      by (rule replayed_prune [OF _ _ rep, of lib]) (use tree_ok_insert [OF tree i] lib True in \<open>simp_all add: f' S\<close>)
  next
    case False
    with rep show ?thesis by (simp add: replayed_def f' S)
  qed
  moreover have "memo_notes f'"
    using evaluated_linv [OF lin ev] by (simp add: linv_def memo_notes_def f')
  ultimately show ?thesis using fin by (simp add: linv_def)
qed

lemma fstep_linv:
  assumes lin: "linv E f" and "fstep E f f'"
  shows "linv E f'"
  using assms(2)
proof (rule fstepE)
  fix b r
  assume ng: "no_genesis_parent E (f_genesis_state f) b" and run: "on_block E b f = (r, f')"
  show ?thesis
  proof (rule on_block_cases [OF linvD(1) [OF lin] ng run])
    assume "f' = f"
    then show ?thesis using lin by simp
  next
    fix m
    assume "f' = f\<lparr>f_epoch_state := m\<rparr>" and "evaluated E b f m"
    then show ?thesis using evaluated_linv [OF lin] by simp
  next
    assume "inserted E b f f'"
    then show ?thesis by (rule inserted_linv [OF lin])
  qed
next
  fix r
  assume run: "to_online E f = (r, f')"
  show ?thesis
  proof (rule to_online_cases [OF linvD(1) [OF lin] run])
    assume "f' = f"
    then show ?thesis using lin by simp
  next
    fix l forks
    assume l: "l \<in> keys (f_ledger_state f)" and fin: "finv E f'"
      and f': "f' = f\<lparr>f_state := ONLINE, f_lib := l, f_forks := forks,
        f_ledger_state := prune E l (f_ledger_state f)\<rparr>"
    have "replayed E f'"
      by (rule replayed_prune [OF finvD(2) [OF linvD(1) [OF lin]] l linvD(2) [OF lin]]) (simp_all add: f')
    with fin linvD(3) [OF lin] show ?thesis by (simp add: linv_def memo_notes_def f')
  qed
qed

interpretation ledger: invariant_system "fstep E" "linv E" for E
  by unfold_locales (rule fstep_linv)

lemma Follower_init_linv:
  assumes "Follower_init E gs c = Ok f" and "0 \<le> cfg_k c" and "block_id E (ls_block gs) \<noteq> Ok (parent_of gs)"
  shows "linv E f"
proof -
  note fin = Follower_init_Ok [OF assms]
  have "f_ledger_state f = [(gid E f, gs)]" "f_epoch_state f = Map.empty"
    using assms(1) by (auto simp: Follower_init_def res_simps the_id_def)
  then have "replayed E f" "memo_notes f" by (auto simp: replayed_def memo_notes_def split: if_splits)
  with fin(1) show ?thesis by (simp add: linv_def)
qed

end
