(* ===== verification/Leader.thy ===== *)
theory Leader
  imports Follower_Ledger
begin

text \<open>
  The leader lottery of cryptarchia/cryptarchia.py: \<open>phi\<close> and the class \<open>Leader\<close>. A leader that
  wins a slot returns a proof; the lemmas connect it with what \<open>validate_header\<close> checks.
\<close>

record Leader =
  leader_config :: Config
  leader_note :: Note

definition phi :: "Env \<Rightarrow> rat \<Rightarrow> rat \<Rightarrow> rat" where
  "phi E f alpha = fl (1 - float_pow E (fl (1 - f)) alpha)"

definition hash_order :: int where
  "hash_order = 2 ^ 256"

definition is_slot_leader :: "Env \<Rightarrow> Leader \<Rightarrow> EpochState \<Rightarrow> Slot \<Rightarrow> (exn, bool) res" where
  "is_slot_leader E ld ep s =
     bind_res (float_div (of_int (note_value (leader_note ld))) (of_int (total_active_stake ep))) (\<lambda>relative_stake.
     bind_res (slot_encode s) (\<lambda>sb.
     bind_res (commitment E (leader_note ld)) (\<lambda>cm.
     bind_res (encode_sk (leader_note ld)) (\<lambda>sk.
     case es_nonce ep of
       None \<Rightarrow> Err TypeError
     | Some nonce \<Rightarrow>
         let ticket = from_bytes (Hash E ''LEAD'' [nonce, sb, cm, sk])
         in Ok (of_int ticket < fl (of_int hash_order * phi E (active_slot_coeff (leader_config ld)) relative_stake))))))"

definition try_prove_slot_leader ::
    "Env \<Rightarrow> Leader \<Rightarrow> EpochState \<Rightarrow> Slot \<Rightarrow> hash \<Rightarrow> (exn, MockLeaderProof option) res" where
  "try_prove_slot_leader E ld ep s par =
     bind_res (is_slot_leader E ld ep s) (\<lambda>wins.
       Ok (if wins then Some \<lparr>lp_note = leader_note ld, lp_slot = s, lp_parent = par\<rparr> else None))"

text \<open>A winning leader's note has an identifier, so its nullifier can be computed.\<close>

lemma is_slot_leader_note:
  assumes "is_slot_leader E ld ep s = Ok w"
  shows "\<exists>cm nf sb. commitment E (leader_note ld) = Ok cm \<and> nullifier E (leader_note ld) = Ok nf \<and> slot_encode s = Ok sb"
  using assms by (auto simp: is_slot_leader_def nullifier_def res_simps split: option.splits)

lemma from_bytes_not_neg [simp]: "\<not> from_bytes bs < 0"
proof -
  have "0 \<le> from_bytes bs"
    by (induction bs rule: rev_induct) (simp_all add: from_bytes_snoc, simp add: from_bytes_def)
  then show ?thesis by simp
qed

lemma try_prove_verifies:
  assumes "try_prove_slot_leader E ld ep s par = Ok (Some p)"
    and "commitment E (leader_note ld) = Ok cm" and "nullifier E (leader_note ld) = Ok nf"
  shows "verify_leader_proof E p s' par' cms nfs =
    Ok (s' = s \<and> par' = par \<and> cm \<in> cms \<and> nf \<notin> nfs)"
proof -
  from assms(1) have "p = \<lparr>lp_note = leader_note ld, lp_slot = s, lp_parent = par\<rparr>"
    by (auto simp: try_prove_slot_leader_def res_simps split: if_splits)
  then show ?thesis using assms(2,3) by (auto simp: verify_leader_proof_def)
qed

text \<open>No stake, no slot: with \<open>x ** 0 = 1\<close> the threshold is zero.\<close>

lemma no_stake_never_leads:
  assumes "\<And>x. float_pow E x 0 = 1" and "note_value (leader_note ld) = 0"
    and "is_slot_leader E ld ep s = Ok w"
  shows "\<not> w"
proof -
  have "float_div (of_int (note_value (leader_note ld))) (of_int (total_active_stake ep)) \<in> {Err ZeroDivisionError, Ok 0}"
    using assms(2) by (simp add: float_div_def)
  then show ?thesis
    using assms(1,3)
    by (auto simp: is_slot_leader_def phi_def res_simps Let_def not_less split: option.splits)
qed

end
