(* ===== verification/Demo.thy ===== *)
theory Demo
  imports Sync_Backfill Epoch_States Leader
begin

text \<open>
  One concrete instance, on which the hypotheses of the general theorems are shown to hold: a hash
  function that adds up the bytes, one note, a configuration with \<open>k = 1\<close> and twenty slots per
  epoch, and a tree of four blocks.

      genesis (0) -- b1 (1) -- b2 (2)
           \-- c1 (3)
\<close>

definition demo_env :: Env where
  "demo_env = \<lparr>sha256 = (\<lambda>bs. [sum_list bs]), np_log = (\<lambda>x. Some 1),
     float_pow = (\<lambda>x a. if a = 0 then 1 else x), recursion_limit = 50\<rparr>"

definition demo_config :: Config where
  "demo_config =
     \<lparr>cfg_k = 1, active_slot_coeff = 1 / 2, epoch_stake_distribution_stabilization = 3,
      epoch_period_nonce_buffer = 3, epoch_period_nonce_stabilization = 4, initial_total_active_stake = 1,
      total_active_stake_learning_rate = 1, cfg_time = \<lparr>slot_duration = 1, chain_start_time = 0\<rparr>\<rparr>"

definition demo_note :: Note where
  "demo_note = \<lparr>note_value = 1, note_sk = 1, note_nonce = [], note_unit = [], note_state = [], note_zone_id = []\<rparr>"

definition demo_block :: "int \<Rightarrow> hash \<Rightarrow> BlockHeader" where
  "demo_block s p =
     \<lparr>bh_slot = Slot s, bh_parent = p, content_size = 0, content_id = [],
      leader_proof = \<lparr>lp_note = demo_note, lp_slot = Slot s, lp_parent = p\<rparr>\<rparr>"

lemma be_bytes_zero [simp]: "be_bytes l 0 = replicate l 0"
  by (induction l) (simp_all add: replicate_append_same)

lemma be_bytes_small: "0 < l \<Longrightarrow> n < 256 \<Longrightarrow> be_bytes l n = replicate (l - 1) 0 @ [word_of_nat n]"
  by (cases l) simp_all

lemma sum_replicate_zero [simp]: "sum_list (replicate l (0 :: byte)) = 0"
  by (induction l) simp_all

lemma to_bytes_small: "0 < l \<Longrightarrow> 0 \<le> n \<Longrightarrow> n < 256 \<Longrightarrow> to_bytes l n = Ok (replicate (l - 1) 0 @ [word_of_int n])"
proof -
  assume l: "0 < l" and n: "0 \<le> n" "n < 256"
  then have "(256 :: int) ^ 1 \<le> 256 ^ l" by (intro power_increasing) auto
  with l n show ?thesis by (simp add: to_bytes_def be_bytes_small)
qed

lemma demo_commitment: "commitment demo_env demo_note = Ok [18]"
  by (simp add: commitment_def demo_env_def demo_note_def to_bytes_small encode_pk_def note_pk_def Hash_def ascii_def)

lemma demo_nullifier: "nullifier demo_env demo_note = Ok [39]"
  unfolding nullifier_def demo_commitment
  by (simp add: demo_env_def demo_note_def to_bytes_small encode_sk_def Hash_def ascii_def)

lemma demo_slot: "0 \<le> s \<Longrightarrow> s < 256 \<Longrightarrow> slot_encode (Slot s) = Ok (replicate 7 0 @ [word_of_int s])"
  by (simp add: slot_encode_def to_bytes_small)

lemma demo_contribution:
  assumes "0 \<le> s" and "s < 256"
  shows "epoch_nonce_contribution demo_env (leader_proof (demo_block s p)) = Ok [225 + word_of_int s]"
proof -
  have "lp_slot (leader_proof (demo_block s p)) = Slot s" "lp_note (leader_proof (demo_block s p)) = demo_note"
    by (simp_all add: demo_block_def)
  then show ?thesis
    unfolding epoch_nonce_contribution_def
    by (simp add: demo_slot assms demo_commitment encode_sk_def to_bytes_small)
       (simp add: demo_env_def demo_note_def to_bytes_small Hash_def ascii_def)
qed

lemma demo_block_id:
  assumes "0 \<le> s" and "s < 256"
  shows "block_id demo_env (demo_block s p) = Ok [57 + 2 * word_of_int s + sum_list p]"
proof -
  have "content_size (demo_block s p) = 0" "bh_slot (demo_block s p) = Slot s"
      "content_id (demo_block s p) = []" "bh_parent (demo_block s p) = p"
    by (simp_all add: demo_block_def)
  then show ?thesis
    unfolding block_id_def demo_contribution [OF assms]
    by (simp add: demo_slot assms to_bytes_small) (simp add: demo_env_def Hash_def ascii_def)
qed

lemma demo_no_empty_id: "block_id demo_env b \<noteq> Ok []"
  by (auto simp: block_id_def res_simps Hash_def demo_env_def)

lemma demo_lengths:
  "base_period_length demo_config = Ok 2" "epoch_relative_nonce_slot demo_config = Ok 12"
  "epoch_length demo_config = Ok 20" "security_param demo_config = Ok 6"
  by code_simp+

lemma demo_k: "cfg_k demo_config = 1"
  by (simp add: demo_config_def)

section \<open>A run\<close>

definition demo_state :: "BlockHeader \<Rightarrow> byte \<Rightarrow> int \<Rightarrow> LedgerState" where
  "demo_state b n c = \<lparr>ls_block = b, ls_nonce = Some [n], commitments = {[18]}, nullifiers = {}, leader_count = c\<rparr>"

definition demo_genesis :: LedgerState where
  "demo_genesis = demo_state (demo_block 0 []) 0 0"

definition demo_f0 :: Follower where
  "demo_f0 =
     \<lparr>f_config = demo_config, f_forks = [], f_local_chain = [57], f_genesis_state = demo_genesis,
      f_ledger_state = [([57], demo_genesis)], f_epoch_state = Map.empty, f_state = BOOTSTRAPPING, f_lib = [57]\<rparr>"

abbreviation "demo_b1 \<equiv> demo_block 1 [57]"
abbreviation "demo_b2 \<equiv> demo_block 2 [116]"
abbreviation "demo_c1 \<equiv> demo_block 3 [57]"

lemma demo_init: "Follower_init demo_env demo_genesis demo_config = Ok demo_f0"
  by (simp add: Follower_init_def demo_genesis_def demo_state_def demo_block_id demo_f0_def)

lemma demo_fields [simp]:
  "bh_slot (demo_block s p) = Slot s" "bh_parent (demo_block s p) = p"
  "ls_block (demo_state b n c) = b" "ls_nonce (demo_state b n c) = Some [n]"
  "commitments (demo_state b n c) = {[18]}" "nullifiers (demo_state b n c) = {}"
  "leader_count (demo_state b n c) = c"
  by (simp_all add: demo_block_def demo_state_def)

lemma demo_verify:
  "verify_leader_proof demo_env (leader_proof (demo_block s p)) (Slot s) p {[18]} {} = Ok True"
  by (simp add: verify_leader_proof_def demo_block_def demo_commitment demo_nullifier)

lemma demo_apply:
  assumes "0 \<le> s" and "s < 256" and "block_id demo_env b = Ok p"
  shows "apply_block demo_env (demo_state b n c) (demo_block s p) =
    Ok (demo_state (demo_block s p) (n + 2 * word_of_int s + 34) (c + 1))"
  using assms
  by (simp add: apply_block_def demo_contribution demo_slot)
     (simp add: demo_state_def demo_env_def Hash_def ascii_def)

lemma epoch_zero:
  "0 < n \<Longrightarrow> epoch e = 0 \<Longrightarrow> compute_epoch_state E n e t f =
     (Ok \<lparr>es_stake_distribution_snapshot = f_genesis_state f, es_nonce_snapshot = f_genesis_state f,
          inferred_total_active_stake = initial_total_active_stake (f_config f)\<rparr>, f)"
  by (cases n) simp_all

text \<open>Every block of the run has a slot of the first epoch, whose state is that of genesis.\<close>

lemma demo_validate:
  assumes "0 \<le> s" and "s < 20" and "map_of (f_ledger_state f) p = Some (demo_state b n c)"
    and "height p (f_ledger_state f) = Ok hp" and "height (f_lib f) (f_ledger_state f) = Ok hl" and "hl \<le> hp"
    and "f_config f = demo_config" and "f_genesis_state f = demo_genesis"
  shows "validate_header demo_env (demo_block s p) f = (Ok (), f)"
proof -
  have "s div 20 = 0" using assms(1,2) by simp
  moreover have "recursion_limit demo_env = 50" by (simp add: demo_env_def)
  ultimately show ?thesis
    using assms
    by (simp add: validate_header_def act_simps get_item_def slot_epoch_def demo_lengths floor_div_def
        demo_genesis_def demo_verify epoch_zero bind_act_def [of "compute_epoch_state _ _ _ _"])
qed

definition demo_f1 :: Follower where
  "demo_f1 = demo_f0\<lparr>f_ledger_state := f_ledger_state demo_f0 @ [([116], demo_state demo_b1 36 1)],
     f_local_chain := [116]\<rparr>"

definition demo_f2 :: Follower where
  "demo_f2 = demo_f1\<lparr>f_ledger_state := f_ledger_state demo_f1 @ [([177], demo_state demo_b2 74 2)],
     f_local_chain := [177]\<rparr>"

definition demo_f3 :: Follower where
  "demo_f3 = demo_f2\<lparr>f_ledger_state := f_ledger_state demo_f2 @ [([120], demo_state demo_c1 40 1)],
     f_forks := [[120]]\<rparr>"

lemma demo_on_block1: "on_block demo_env demo_b1 demo_f0 = (Ok (), demo_f1)"
proof -
  have v: "validate_header demo_env demo_b1 demo_f0 = (Ok (), demo_f0)"
    by (rule demo_validate [where b = "demo_block 0 []" and n = 0 and c = 0 and hp = 1 and hl = 1])
       (simp_all add: demo_f0_def demo_genesis_def height_def chain_bound_def)
  show ?thesis
    unfolding on_block_def
    by (simp add: demo_block_id bind_act_call bind_act_Ok [of "validate_header demo_env demo_b1", OF v])
       (simp add: act_simps get_item_def demo_f1_def demo_f0_def demo_genesis_def demo_apply demo_block_id)
qed

lemma demo_on_block2: "on_block demo_env demo_b2 demo_f1 = (Ok (), demo_f2)"
proof -
  have v: "validate_header demo_env demo_b2 demo_f1 = (Ok (), demo_f1)"
    by (rule demo_validate [where b = demo_b1 and n = 36 and c = 1 and hp = 2 and hl = 1])
       (simp_all add: demo_f1_def demo_f0_def demo_genesis_def height_def chain_bound_def)
  show ?thesis
    unfolding on_block_def
    by (simp add: demo_block_id bind_act_call bind_act_Ok [of "validate_header demo_env demo_b2", OF v])
       (simp add: act_simps get_item_def demo_f2_def demo_f1_def demo_f0_def demo_genesis_def demo_apply demo_block_id)
qed

lemma demo_on_block3: "on_block demo_env demo_c1 demo_f2 = (Ok (), demo_f3)"
proof -
  have v: "validate_header demo_env demo_c1 demo_f2 = (Ok (), demo_f2)"
    by (rule demo_validate [where b = "demo_block 0 []" and n = 0 and c = 0 and hp = 1 and hl = 1])
       (simp_all add: demo_f2_def demo_f1_def demo_f0_def demo_genesis_def height_def chain_bound_def)
  have switch: "switch_fork demo_env demo_c1 [120] (demo_f3\<lparr>f_forks := []\<rparr>) = (Ok (), demo_f3)"
    by (simp add: switch_fork_def act_simps list_remove_def fork_choice_def demo_f3_def demo_f2_def demo_f1_def
        demo_f0_def demo_genesis_def demo_lengths common_prefix_depth_def iter_chain_blocks_def chain_bound_def
        demo_block_id demo_k cpd_a.simps cpd_b.simps Let_def chain_density_def slot_less)
  show ?thesis
    unfolding on_block_def
    by (simp add: demo_block_id bind_act_call bind_act_Ok [of "validate_header demo_env demo_c1", OF v])
       (use switch in \<open>simp add: act_simps get_item_def demo_f3_def demo_f2_def demo_f1_def demo_f0_def
         demo_genesis_def demo_apply demo_block_id bind_act_def [of "switch_fork _ _ _"]\<close>)
qed

end
