(* ===== verification/Chain_Properties.thy ===== *)
theory Chain_Properties
  imports Demo
begin

text \<open>
  The properties of the block tree, the fork choice rules, the follower and the leader, each with
  a witness on the instance of \<open>Demo\<close> where it has hypotheses.
\<close>

section \<open>The demo tree is a reachable one\<close>

lemma demo_no_genesis_parent: "no_genesis_parent demo_env demo_genesis b"
  using demo_no_empty_id by (simp add: no_genesis_parent_def demo_genesis_def)

lemma demo_genesis_state [simp]:
  "f_genesis_state demo_f0 = demo_genesis" "f_genesis_state demo_f1 = demo_genesis"
  "f_genesis_state demo_f2 = demo_genesis" "f_genesis_state demo_f3 = demo_genesis"
  by (simp_all add: demo_f0_def demo_f1_def demo_f2_def demo_f3_def)

lemma demo_steps:
  "fstep demo_env demo_f0 demo_f1" "fstep demo_env demo_f1 demo_f2" "fstep demo_env demo_f2 demo_f3"
  using fstep.receive [OF _ demo_on_block1] fstep.receive [OF _ demo_on_block2]
    fstep.receive [OF _ demo_on_block3] demo_no_genesis_parent by simp_all

lemma demo_run: "(fstep demo_env)\<^sup>*\<^sup>* demo_f0 demo_f3"
  using demo_steps by (meson converse_rtranclp_into_rtranclp rtranclp.rtrancl_refl)

lemma demo_genesis_id: "block_id demo_env (ls_block demo_genesis) \<noteq> Ok (parent_of demo_genesis)"
  by (simp add: demo_genesis_def demo_block_id)

lemma demo_k_nonneg: "0 \<le> cfg_k demo_config"
  by (simp add: demo_k)

lemma demo_linv0: "linv demo_env demo_f0"
  by (rule Follower_init_linv [OF demo_init demo_k_nonneg demo_genesis_id])

lemma demo_linv: "linv demo_env demo_f3"
  by (rule ledger.run_inv [OF demo_run demo_linv0])

lemma demo_finv0: "finv demo_env demo_f0"
  by (rule linvD(1) [OF demo_linv0])

lemma demo_finv: "finv demo_env demo_f3"
  by (rule linvD(1) [OF demo_linv])

lemma demo_gid: "gid demo_env demo_f3 = [57]" "gid demo_env demo_f0 = [57]"
  by (simp_all add: demo_genesis_def the_id_def demo_block_id)

abbreviation "demo_tree \<equiv> f_ledger_state demo_f3"

lemma demo_tree_eq: "demo_tree =
    [([57], demo_genesis), ([116], demo_state demo_b1 36 1), ([177], demo_state demo_b2 74 2),
     ([120], demo_state demo_c1 40 1)]"
  by (simp add: demo_f3_def demo_f2_def demo_f1_def demo_f0_def)

lemma demo_tree_ok: "tree_ok demo_env [57] demo_tree"
  using finvD(2) [OF demo_finv] unfolding demo_gid .

lemma demo_keys: "keys demo_tree = {[57], [116], [177], [120]}"
  by (simp add: demo_tree_eq keys_def)

lemma demo_chains:
  "chain demo_tree [177] = [demo_state demo_b2 74 2, demo_state demo_b1 36 1, demo_genesis]"
  "chain demo_tree [120] = [demo_state demo_c1 40 1, demo_genesis]"
  "chain demo_tree [116] = [demo_state demo_b1 36 1, demo_genesis]"
  "chain demo_tree [57] = [demo_genesis]"
  by (simp_all add: chain_def chain_bound_def demo_tree_eq demo_genesis_def)

section \<open>The block tree\<close>

text \<open>
  C10: \<open>common_prefix_depth\<close> finds the deepest common ancestor of two blocks of the tree. It
  returns how many blocks either chain has above it, and both suffixes, oldest block first, with
  the common ancestor at their head.
\<close>

theorem common_prefix_depth_correct:
  assumes "tree_ok E g S" and "a \<in> keys S" and "b \<in> keys S"
  shows "\<exists>us vs c rest. chain S a = us @ c # rest \<and> chain S b = vs @ c # rest \<and>
    set us \<inter> set (chain S b) = {} \<and>
    common_prefix_depth E a b S =
      Ok (length us, rev (map ls_block (us @ [c])), length vs, rev (map ls_block (vs @ [c])))"
  by (rule common_prefix_depth_forks [OF assms]) (intro exI conjI, assumption+)

theorem common_prefix_depth_correct_witness:
  "\<exists>us vs c rest. chain demo_tree [177] = us @ c # rest \<and> chain demo_tree [120] = vs @ c # rest \<and>
    set us \<inter> set (chain demo_tree [120]) = {} \<and>
    common_prefix_depth demo_env [177] [120] demo_tree =
      Ok (length us, rev (map ls_block (us @ [c])), length vs, rev (map ls_block (vs @ [c])))"
  by (rule common_prefix_depth_correct [OF demo_tree_ok]) (simp_all add: demo_keys)

section \<open>Fork choice\<close>

text \<open>
  C11: the Praos rule \<open>maxvalid_mc\<close> always answers with the local tip or one of the forks, and
  moving to its answer undoes at most \<open>k\<close> blocks and never shortens the chain.
\<close>

theorem maxvalid_mc_safe:
  assumes "tree_ok E g S" and "c \<in> keys S" and "set fs \<subseteq> keys S" and "0 \<le> k"
  shows "\<exists>t \<in> set (c # fs). maxvalid_mc E c fs k S = Ok t \<and>
    suffix (drop (nat k) (chain S c)) (chain S t) \<and> length (chain S c) \<le> length (chain S t)"
  using praos.select_total [OF assms(1-3), of k] by (auto simp: extends_upto_def)

theorem maxvalid_mc_safe_witness:
  "\<exists>t \<in> set [[120], [177]]. maxvalid_mc demo_env [120] [[177]] 1 demo_tree = Ok t \<and>
    suffix (drop (nat 1) (chain demo_tree [120])) (chain demo_tree t) \<and>
    length (chain demo_tree [120]) \<le> length (chain demo_tree t)"
  by (rule maxvalid_mc_safe [OF demo_tree_ok]) (simp_all add: demo_keys)

text \<open>
  C12: while no two candidates fork deeper than \<open>k\<close> blocks, the Genesis rule \<open>maxvalid_bg\<close> and the
  Praos rule give the same answer, and it is a longest chain among the candidates.
\<close>

theorem fork_choice_longest:
  assumes "tree_ok E g S" and "c \<in> keys S" and "set fs \<subseteq> keys S" and "shallow E k S (c # fs)"
  shows "\<exists>t \<in> set (c # fs). maxvalid_bg E c fs k s S = Ok t \<and> maxvalid_mc E c fs k S = Ok t \<and>
    (\<forall>x \<in> set (c # fs). length (chain S x) \<le> length (chain S t))"
proof -
  obtain t where t: "maxvalid_bg E c fs k s S = Ok t" "t \<in> set (c # fs)"
    using genesis.select_total [OF assms(1-3), of k s] by blast
  have "length (chain S x) \<le> length (chain S t)" if "x \<in> set (c # fs)" for x
  proof (rule genesis.select_max [OF assms(1) _ _ t(1) that])
    show "set (c # fs) \<subseteq> keys S" using assms(2,3) by simp
    show "bg_better E k s S a b \<longleftrightarrow> length (chain S a) < length (chain S b)"
      if "a \<in> set (c # fs)" "b \<in> set (c # fs)" for a b
      using that assms by (intro bg_better_shallow [OF assms(1)]) (auto dest: shallowD)
  qed
  moreover have "maxvalid_mc E c fs k S = maxvalid_bg E c fs k s S"
    by (rule maxvalid_agree [OF assms]) simp
  ultimately show ?thesis using t by auto
qed

theorem fork_choice_longest_witness:
  "\<exists>t. maxvalid_bg demo_env [120] [[177]] 2 6 demo_tree = Ok t \<and>
    maxvalid_mc demo_env [120] [[177]] 2 demo_tree = Ok t \<and>
    length (chain demo_tree [177]) \<le> length (chain demo_tree t)"
proof -
  have "shallow demo_env 2 demo_tree [[120], [177]]"
    by (simp add: shallow_def common_prefix_depth_def iter_chain_blocks_def chain_bound_def demo_tree_eq
        demo_genesis_def demo_block_id cpd_a.simps cpd_b.simps)
  from fork_choice_longest [OF demo_tree_ok _ _ this, of 6] obtain t where
      "maxvalid_bg demo_env [120] [[177]] 2 6 demo_tree = Ok t" "maxvalid_mc demo_env [120] [[177]] 2 demo_tree = Ok t"
      "\<forall>x \<in> set [[120], [177]]. length (chain demo_tree x) \<le> length (chain demo_tree t)"
    by (auto simp: demo_keys)
  then show ?thesis by auto
qed

text \<open>
  on a fork deeper than \<open>k\<close> the Genesis rule leaves the local chain exactly when the other
  one has more blocks in the \<open>s\<close> slots after the common ancestor.
\<close>

theorem maxvalid_bg_density:
  assumes "tree_ok E g S" and "a \<in> keys S" and "b \<in> keys S"
    and "chain S a = us @ c # rest" and "chain S b = vs @ c # rest" and "set us \<inter> set (chain S b) = {}"
    and "k < int (length us)" and "end_slot = Slot (absolute_slot (bh_slot (ls_block c)) + s)"
  shows "maxvalid_bg E a [b] k s S =
    Ok (if length (filter (\<lambda>st. bh_slot (ls_block st) < end_slot) us)
         < length (filter (\<lambda>st. bh_slot (ls_block st) < end_slot) vs) then b else a)"
proof -
  have wf: "wf_states E S" using assms(1) by (simp add: tree_ok_def)
  obtain us' vs' c' rest' where
    f: "chain S a = us' @ c' # rest'" "chain S b = vs' @ c' # rest'" "set us' \<inter> set (chain S b) = {}" and
    q: "common_prefix_depth E a b S =
      Ok (length us', rev (map ls_block (us' @ [c'])), length vs', rev (map ls_block (vs' @ [c'])))"
    by (rule common_prefix_depth_forks [OF assms(1-3)])
  have "us' @ c' # rest' = us @ c # rest" using f(1) assms(4) by simp
  then have "us' = us \<and> c' = c \<and> rest' = rest"
    using f assms(4-6) by (auto simp: append_eq_append_conv2 Cons_eq_append_conv append_eq_Cons_conv)
  moreover from this have "vs' = vs" using f(2) assms(5) by simp
  ultimately have q': "common_prefix_depth E a b S =
      Ok (length us, ls_block c # rev (map ls_block us), length vs, ls_block c # rev (map ls_block vs))"
    using q by simp
  have count: "chain_density (ls_block c # rev (map ls_block xs)) t =
      length (filter (\<lambda>st. bh_slot (ls_block st) < t) xs) + (if bh_slot (ls_block c) < t then 1 else 0)"
    for xs t
    by (simp add: chain_density_def rev_filter [symmetric] filter_map o_def)
  show ?thesis using assms(7,8) by (simp add: q' count Let_def)
qed

theorem maxvalid_bg_density_witness:
  "maxvalid_bg demo_env [177] [[120]] 1 6 demo_tree = Ok [177]"
  using maxvalid_bg_density [OF demo_tree_ok, of "[177]" "[120]" "[demo_state demo_b2 74 2, demo_state demo_b1 36 1]"
      demo_genesis "[]" "[demo_state demo_c1 40 1]" 1 "Slot 6" 6]
  by (simp add: demo_keys demo_chains demo_genesis_def slot_less) (simp add: demo_state_def demo_block_def)

end
