(* ===== verification/Follower_Properties.thy ===== *)
theory Follower_Properties
  imports Chain_Properties
begin

text \<open>
  The properties of the follower along whole runs, of the ledger states it keeps, of its epoch
  states, and of the leader. A run is any sequence of the steps of \<open>fstep\<close>: calls of \<open>on_block\<close>
  and \<open>to_online\<close>, accepted or refused.
\<close>

section \<open>Runs\<close>

text \<open>
  C2: along every run from a fresh follower, the local chain and the forks are exactly the leaves
  of the block tree, each once, and the last immutable block is in the tree.
\<close>

theorem tips_are_leaves:
  assumes "Follower_init E gs c = Ok f0" and "0 \<le> cfg_k c" and "block_id E (ls_block gs) \<noteq> Ok (parent_of gs)"
    and "(fstep E)\<^sup>*\<^sup>* f0 f"
  shows "distinct (f_local_chain f # f_forks f) \<and>
    set (f_local_chain f # f_forks f) = leaves (f_ledger_state f) \<and>
    tree_ok E (gid E f) (f_ledger_state f) \<and> f_lib f \<in> keys (f_ledger_state f)"
  using follower.run_inv [OF assms(4) Follower_init_Ok(1) [OF assms(1-3)]]
  by (simp add: finv_def tip_inv_def)

theorem tips_are_leaves_witness:
  "distinct (f_local_chain demo_f3 # f_forks demo_f3) \<and>
    set (f_local_chain demo_f3 # f_forks demo_f3) = leaves demo_tree \<and>
    tree_ok demo_env (gid demo_env demo_f3) demo_tree \<and> f_lib demo_f3 \<in> keys demo_tree"
  by (rule tips_are_leaves [OF demo_init demo_k_nonneg demo_genesis_id demo_run])

text \<open>
  C1: whatever blocks arrive, the last immutable block is never reverted: its chain only grows,
  and it stays on the local chain.
\<close>

theorem lib_never_reverts:
  assumes "finv E f" and "(fstep E)\<^sup>*\<^sup>* f f'"
  shows "suffix (chain (f_ledger_state f) (f_lib f)) (chain (f_ledger_state f') (f_lib f')) \<and>
    suffix (chain (f_ledger_state f') (f_lib f')) (chain (f_ledger_state f') (f_local_chain f'))"
proof -
  have inv: "finv E f'" by (rule follower.run_inv [OF assms(2,1)])
  have "advances f f'" by (rule follower.run_rel [OF assms(2,1)])
  moreover have "suffix (chain (f_ledger_state f') (f_lib f')) (chain (f_ledger_state f') (f_local_chain f'))"
  proof (cases "f_state f'")
    case ONLINE
    then have "f_lib f' \<in> set (chain_ids E (f_ledger_state f') (f_local_chain f'))"
      using inv by (simp add: finv_def lib_spec_def)
    then show ?thesis by (simp add: anc_iff_suffix [OF finvD(3) [OF inv] finvD(4) [OF inv]])
  next
    case BOOTSTRAPPING
    then have "f_lib f' = gid E f'" using inv by (simp add: finv_def)
    then show ?thesis using chain_root [OF finvD(2) [OF inv] finvD(5) [OF inv]] by simp
  qed
  ultimately show ?thesis by (simp add: advances_def lib_ext_def)
qed

theorem lib_never_reverts_witness:
  "suffix (chain (f_ledger_state demo_f0) (f_lib demo_f0)) (chain demo_tree (f_lib demo_f3)) \<and>
    suffix (chain demo_tree (f_lib demo_f3)) (chain demo_tree (f_local_chain demo_f3))"
  by (rule lib_never_reverts [OF demo_finv0 demo_run])

text \<open>
  C3: once online, the last immutable block is the one \<open>k\<close> below the tip (genesis while the chain
  is shorter), and every block kept in the tree is its ancestor or its descendant.
\<close>

theorem online_lib_depth:
  assumes "Follower_init E gs c = Ok f0" and "0 \<le> cfg_k c" and "block_id E (ls_block gs) \<noteq> Ok (parent_of gs)"
    and "(fstep E)\<^sup>*\<^sup>* f0 f" and "f_state f = ONLINE"
  shows "(if nat (cfg_k (f_config f)) < length (chain (f_ledger_state f) (f_local_chain f))
      then chain (f_ledger_state f) (f_lib f) =
        drop (nat (cfg_k (f_config f))) (chain (f_ledger_state f) (f_local_chain f))
      else f_lib f = gid E f) \<and>
    (\<forall>h \<in> keys (f_ledger_state f).
       suffix (chain (f_ledger_state f) (f_lib f)) (chain (f_ledger_state f) h) \<or>
       suffix (chain (f_ledger_state f) h) (chain (f_ledger_state f) (f_lib f)))"
proof -
  have inv: "finv E f" by (rule follower.run_inv [OF assms(4) Follower_init_Ok(1) [OF assms(1-3)]])
  have "kept E (f_ledger_state f) (f_lib f) h" if "h \<in> keys (f_ledger_state f)" for h
    using inv that by (simp add: finv_def)
  then have "\<forall>h \<in> keys (f_ledger_state f).
       suffix (chain (f_ledger_state f) (f_lib f)) (chain (f_ledger_state f) h) \<or>
       suffix (chain (f_ledger_state f) h) (chain (f_ledger_state f) (f_lib f))"
    using anc_iff_suffix [OF finvD(3) [OF inv]] finvD(4) [OF inv] by (auto simp: kept_def)
  moreover have "lib_spec E f (f_lib f)" using inv assms(5) by (simp add: finv_def)
  ultimately show ?thesis by (simp add: lib_spec_def)
qed

definition demo_f4 :: Follower where
  "demo_f4 = snd (to_online demo_env demo_f3)"

lemma demo_to_online:
  "to_online demo_env demo_f3 = (Ok (), demo_f3\<lparr>f_state := ONLINE, f_lib := [116], f_forks := [],
     f_ledger_state := [([57], demo_genesis), ([116], demo_state demo_b1 36 1), ([177], demo_state demo_b2 74 2)]\<rparr>)"
  by (simp add: to_online_def update_lib_def act_simps immutable_block_def Let_def demo_f3_def demo_f2_def demo_f1_def
      demo_f0_def demo_genesis_def demo_k demo_block_id is_ancestor_def chain_bound_def)

lemma demo_online_run: "(fstep demo_env)\<^sup>*\<^sup>* demo_f0 demo_f4" "f_state demo_f4 = ONLINE"
proof -
  have "to_online demo_env demo_f3 = (fst (to_online demo_env demo_f3), demo_f4)" by (simp add: demo_f4_def)
  then have "fstep demo_env demo_f3 demo_f4" by (rule fstep.go_online)
  with demo_run show "(fstep demo_env)\<^sup>*\<^sup>* demo_f0 demo_f4" by (rule rtranclp.rtrancl_into_rtrancl)
  show "f_state demo_f4 = ONLINE" by (simp add: demo_f4_def demo_to_online)
qed

lemma demo_f4_fields:
  "f_ledger_state demo_f4 = [([57], demo_genesis), ([116], demo_state demo_b1 36 1), ([177], demo_state demo_b2 74 2)]"
  "f_lib demo_f4 = [116]" "f_local_chain demo_f4 = [177]" "f_config demo_f4 = demo_config"
  unfolding demo_f4_def demo_to_online by (simp_all add: demo_f3_def demo_f2_def demo_f1_def demo_f0_def)

lemma demo_f4_chains:
  "chain (f_ledger_state demo_f4) [177] = [demo_state demo_b2 74 2, demo_state demo_b1 36 1, demo_genesis]"
  "chain (f_ledger_state demo_f4) [116] = [demo_state demo_b1 36 1, demo_genesis]"
  by (simp_all add: chain_def chain_bound_def demo_f4_fields(1) demo_genesis_def)

theorem online_lib_depth_witness:
  "chain (f_ledger_state demo_f4) (f_lib demo_f4) = drop 1 (chain (f_ledger_state demo_f4) (f_local_chain demo_f4))"
  using online_lib_depth [OF demo_init demo_k_nonneg demo_genesis_id demo_online_run]
  by (simp add: demo_f4_fields(2-4) demo_f4_chains demo_k)

section \<open>One call of on_block\<close>

lemma demo_on_block_orphan: "on_block demo_env (demo_block 5 [3]) demo_f3 = (Err ParentNotFound, demo_f3)"
  by (simp add: on_block_def validate_header_def act_simps demo_block_id demo_tree_eq bind_act_def)

text \<open>
  C4: \<open>on_block\<close> always returns, and a block it refuses with any exception leaves the tree, the
  tips, the last immutable block and the mode as they were: only the memo table may have grown.
\<close>

theorem on_block_atomic:
  assumes "finv E f" and "no_genesis_parent E (f_genesis_state f) b" and "on_block E b f = (r, f')"
  shows "r \<noteq> Diverge \<and> (\<forall>e. r = Err e \<longrightarrow> f' = f\<lparr>f_epoch_state := f_epoch_state f'\<rparr>)"
  by (rule on_block_cases [OF assms]) auto

theorem on_block_atomic_witness:
  "snd (on_block demo_env (demo_block 5 [3]) demo_f3) =
    demo_f3\<lparr>f_epoch_state := f_epoch_state (snd (on_block demo_env (demo_block 5 [3]) demo_f3))\<rparr>"
  using on_block_atomic [OF demo_finv _ demo_on_block_orphan] by (simp add: demo_no_genesis_parent demo_on_block_orphan)

text \<open>
  C5: \<open>on_block\<close> drops a known block without effect, raises \<open>ParentNotFound\<close> for a block whose
  parent is not in the tree, and \<open>ImmutableFork\<close> for one whose parent lies below the last
  immutable block; in the three cases the follower does not change at all.
\<close>

theorem on_block_refuses:
  assumes "finv E f" and "block_id E b = Ok i"
  shows "(i \<in> keys (f_ledger_state f) \<longrightarrow> on_block E b f = (Ok (), f)) \<and>
    (i \<notin> keys (f_ledger_state f) \<longrightarrow> bh_parent b \<notin> keys (f_ledger_state f) \<longrightarrow>
      on_block E b f = (Err ParentNotFound, f)) \<and>
    (i \<notin> keys (f_ledger_state f) \<longrightarrow> bh_parent b \<in> keys (f_ledger_state f) \<longrightarrow>
      length (chain (f_ledger_state f) (bh_parent b)) < length (chain (f_ledger_state f) (f_lib f)) \<longrightarrow>
      on_block E b f = (Err ImmutableFork, f))"
proof (cases "i \<in> keys (f_ledger_state f)")
  case True
  then show ?thesis using on_block_known [OF assms(2)] by simp
next
  case new: False
  note wf = finvD(3) [OF assms(1)] and lib = finvD(4) [OF assms(1)]
  show ?thesis
  proof (cases "bh_parent b \<in> keys (f_ledger_state f)")
    case True
    then obtain st where p: "map_of (f_ledger_state f) (bh_parent b) = Some st" by (rule keysE)
    have "validate_header E b f = (Err ImmutableFork, f)"
      if "length (chain (f_ledger_state f) (bh_parent b)) < length (chain (f_ledger_state f) (f_lib f))"
      using that p by (simp add: validate_header_def act_simps height_eq [OF wf True] height_eq [OF wf lib])
    then show ?thesis using True new by (auto simp: on_block_unfold [OF assms(2) new] bind_act_Err)
  next
    case False
    then have "validate_header E b f = (Err ParentNotFound, f)"
      by (simp add: validate_header_def act_simps keys_None)
    then show ?thesis using False new by (simp add: on_block_unfold [OF assms(2) new] bind_act_Err)
  qed
qed

theorem on_block_refuses_witness: "on_block demo_env (demo_block 5 [3]) demo_f3 = (Err ParentNotFound, demo_f3)"
  using on_block_refuses [OF demo_finv, of "demo_block 5 [3]" "[70]"] by (simp add: demo_block_id demo_keys)

text \<open>
  a new block that \<open>on_block\<close> accepts has the last immutable block on its chain, its leader
  proof is bound to its slot and parent by a note committed to at genesis and not spent there,
  and while bootstrapping it is in the tree afterwards and nothing has left it.
\<close>

theorem on_block_accepts:
  assumes "linv E f" and "no_genesis_parent E (f_genesis_state f) b" and "on_block E b f = (Ok (), f')"
    and "block_id E b = Ok i" and "i \<notin> keys (f_ledger_state f)"
  shows "suffix (chain (f_ledger_state f) (f_lib f)) (chain (f_ledger_state f) (bh_parent b)) \<and>
    leader_ok E (f_genesis_state f) b \<and>
    (f_state f = BOOTSTRAPPING \<longrightarrow> keys (f_ledger_state f') = insert i (keys (f_ledger_state f)))"
proof -
  note inv = linvD(1) [OF assms(1)]
  show ?thesis
  proof (rule on_block_cases [OF inv assms(2,3)])
    fix j
    assume "block_id E b = Ok j" and "j \<in> keys (f_ledger_state f)"
    then show ?thesis using assms(4,5) by simp
  next
    assume ins: "inserted E b f f'"
    then obtain st0 m where st0: "map_of (f_ledger_state f) (bh_parent b) = Some st0"
      and h: "length (chain (f_ledger_state f) (f_lib f)) \<le> length (chain (f_ledger_state f) (bh_parent b))"
      and acc: "accepted_proof E b f (f\<lparr>f_epoch_state := m\<rparr>)"
      unfolding inserted_def by blast
    have "f_lib f \<in> set (chain_ids E (f_ledger_state f) (bh_parent b))"
      by (rule accepted_above_lib [OF inv keys_Some [OF st0] h])
    then have "suffix (chain (f_ledger_state f) (f_lib f)) (chain (f_ledger_state f) (bh_parent b))"
      by (simp add: anc_iff_suffix [OF finvD(3) [OF inv] finvD(4) [OF inv]])
    then show ?thesis
      using accepted_leader_ok [OF assms(1) acc] on_block_bootstrapping(2) [OF inv assms(2) _ assms(3,4)] by blast
  qed simp
qed

theorem on_block_accepts_witness:
  "leader_ok demo_env (f_genesis_state demo_f0) demo_b1 \<and>
    keys (f_ledger_state demo_f1) = insert [116] (keys (f_ledger_state demo_f0))"
proof -
  have "[116] \<notin> keys (f_ledger_state demo_f0)" "f_state demo_f0 = BOOTSTRAPPING" by (simp_all add: demo_f0_def keys_def)
  with on_block_accepts [OF demo_linv0 _ demo_on_block1, of "[116]"] show ?thesis
    by (simp add: demo_no_genesis_parent demo_block_id)
qed

section \<open>Ledger states\<close>

text \<open>
  C7: in every reachable follower, the state stored for a block counts the leaders on its chain
  above genesis, and has the commitments and nullifiers of the genesis state.
\<close>

theorem ledger_counts_chain:
  assumes "Follower_init E gs c = Ok f0" and "0 \<le> cfg_k c" and "block_id E (ls_block gs) \<noteq> Ok (parent_of gs)"
    and "(fstep E)\<^sup>*\<^sup>* f0 f" and "map_of (f_ledger_state f) h = Some st"
  shows "leader_count st = leader_count gs + int (length (chain (f_ledger_state f) h) - 1) \<and>
    commitments st = commitments gs \<and> nullifiers st = nullifiers gs"
proof -
  have lin: "linv E f" by (rule ledger.run_inv [OF assms(4) Follower_init_linv [OF assms(1-3)]])
  have "advances f0 f" by (rule follower.run_rel [OF assms(4) Follower_init_Ok(1) [OF assms(1-3)]])
  then have "f_genesis_state f = gs" using Follower_init_Ok(2) [OF assms(1-3)] by (simp add: advances_def)
  then show ?thesis using linvD(4) [OF lin assms(5)] by (simp add: grown_def)
qed

theorem ledger_counts_chain_witness:
  "leader_count (demo_state demo_b2 74 2) = leader_count demo_genesis + int (length (chain demo_tree [177]) - 1) \<and>
    commitments (demo_state demo_b2 74 2) = commitments demo_genesis \<and>
    nullifiers (demo_state demo_b2 74 2) = nullifiers demo_genesis"
  by (rule ledger_counts_chain [OF demo_init demo_k_nonneg demo_genesis_id demo_run]) (simp add: demo_tree_eq)

text \<open>
  C6: in every reachable follower, each stored block but genesis was built on its parent's state:
  its state is \<open>apply\<close> of the parent's, and its leader proof verifies against the genesis notes.
\<close>

theorem stored_blocks_justified:
  assumes "Follower_init E gs c = Ok f0" and "0 \<le> cfg_k c" and "block_id E (ls_block gs) \<noteq> Ok (parent_of gs)"
    and "(fstep E)\<^sup>*\<^sup>* f0 f" and "map_of (f_ledger_state f) h = Some st" and "h \<noteq> gid E f"
  shows "\<exists>st0. map_of (f_ledger_state f) (bh_parent (ls_block st)) = Some st0 \<and>
    apply_block E st0 (ls_block st) = Ok st \<and> leader_ok E (f_genesis_state f) (ls_block st)"
proof -
  have lin: "linv E f" by (rule ledger.run_inv [OF assms(4) Follower_init_linv [OF assms(1-3)]])
  from linvD(2) [OF lin] assms(5,6) show ?thesis by (auto simp: replayed_def derives_def)
qed

theorem stored_blocks_justified_witness:
  "\<exists>st0. map_of demo_tree (bh_parent (ls_block (demo_state demo_b2 74 2))) = Some st0 \<and>
    apply_block demo_env st0 (ls_block (demo_state demo_b2 74 2)) = Ok (demo_state demo_b2 74 2) \<and>
    leader_ok demo_env (f_genesis_state demo_f3) (ls_block (demo_state demo_b2 74 2))"
  by (rule stored_blocks_justified [OF demo_init demo_k_nonneg demo_genesis_id demo_run, of "[177]"])
     (simp add: demo_tree_eq, subst demo_gid, simp)

text \<open>
  \<open>blocks_by_slot\<close> yields the blocks of the tree from the given slot on, sorted by slot; blocks
  of one slot come in the order they entered the tree.
\<close>

theorem blocks_by_slot_sorted:
  "blocks_by_slot f s = sort_key bh_slot (filter (\<lambda>b. s \<le> bh_slot b) (map (ls_block \<circ> snd) (f_ledger_state f)))"
  by (rule blocks_by_slot_sort)

end
