(* ===== verification/Epoch_Properties.thy ===== *)
theory Epoch_Properties
  imports Follower_Properties
begin

text \<open>
  The properties of epochs and epoch states, of the encodings a block identifier is made of, and
  of the leader.
\<close>

section \<open>Epoch states\<close>

lemma init_einv:
  assumes "Follower_init E gs c = Ok f" and "0 \<le> cfg_k c" and "block_id E (ls_block gs) \<noteq> Ok (parent_of gs)"
    and "epochs_ok c"
  shows "einv E f"
proof -
  note init = Follower_init_Ok [OF assms(1-3)]
  have "f_epoch_state f = Map.empty" using assms(1) by (auto simp: Follower_init_def res_simps)
  then show ?thesis using init assms(4) by (simp add: einv_def memo_ok_def)
qed

text \<open>
  C8: the memo table of \<open>compute_epoch_state\<close> is invisible: along every run, wherever the
  recursion without a table returns or raises within the depth allowed, the call answers the same,
  whatever was remembered on other forks before.
\<close>

theorem epoch_memo_invisible:
  assumes "Follower_init E gs c = Ok f0" and "0 \<le> cfg_k c" and "block_id E (ls_block gs) \<noteq> Ok (parent_of gs)"
    and "epochs_ok c" and "(cstep E)\<^sup>*\<^sup>* f0 f" and "t \<in> keys (f_ledger_state f)"
    and "epoch_state_spec E (f_config f) (f_genesis_state f) n e (chain (f_ledger_state f) t) \<noteq> Err RecursionError"
  shows "fst (compute_epoch_state E n e t f) =
    epoch_state_spec E (f_config f) (f_genesis_state f) n e (chain (f_ledger_state f) t)"
proof -
  have inv: "einv E f" by (rule epochs.run_inv [OF assms(5) init_einv [OF assms(1-4)]])
  obtain r f' where run: "compute_epoch_state E n e t f = (r, f')" by (cases "compute_epoch_state E n e t f")
  have "agrees r (\<lambda>n. epoch_state_spec E (f_config f) (f_genesis_state f) n e (chain (f_ledger_state f) t)) n"
    using compute_epoch_state_memo [OF run] inv assms(6) by (simp add: einv_def)
  from agrees_spec [OF this assms(7)] run show ?thesis by simp
qed

lemma demo_epochs_ok: "epochs_ok demo_config"
  by (simp add: epochs_ok_def demo_lengths)

definition demo_fd :: Follower where
  "demo_fd = snd (on_block demo_env (demo_block 25 [57]) demo_f0)"

lemma demo_cstep: "(cstep demo_env)\<^sup>*\<^sup>* demo_f0 demo_fd"
proof -
  have "on_block demo_env (demo_block 25 [57]) demo_f0 =
      (fst (on_block demo_env (demo_block 25 [57]) demo_f0), demo_fd)" by (simp add: demo_fd_def)
  moreover have "fresh_id demo_env demo_f0 (demo_block 25 [57])" by (simp add: fresh_id_def demo_f0_def)
  ultimately have "cstep demo_env demo_f0 demo_fd"
    by (intro cstep.receive_fresh) (simp_all add: demo_no_genesis_parent)
  then show ?thesis by simp
qed

lemma demo_fd_facts:
  "f_config demo_fd = demo_config" "f_genesis_state demo_fd = demo_genesis" "[57] \<in> keys (f_ledger_state demo_fd)"
proof -
  have run: "(fstep demo_env)\<^sup>*\<^sup>* demo_f0 demo_fd"
    using demo_cstep by (induction rule: rtranclp_induct) (auto intro: cstep_fstep rtranclp.rtrancl_into_rtrancl)
  have "advances demo_f0 demo_fd" by (rule follower.run_rel [OF run demo_finv0])
  then show c: "f_config demo_fd = demo_config" and g: "f_genesis_state demo_fd = demo_genesis"
    by (simp_all add: advances_def, simp add: demo_f0_def)
  have "gid demo_env demo_fd \<in> keys (f_ledger_state demo_fd)"
    by (rule keys_Some [OF finvD(6) [OF follower.run_inv [OF run demo_finv0]]])
  then show "[57] \<in> keys (f_ledger_state demo_fd)" using g demo_gid by simp
qed

theorem epoch_memo_invisible_witness:
  "fst (compute_epoch_state demo_env 5 (Epoch 1) [57] demo_fd) =
    epoch_state_spec demo_env (f_config demo_fd) (f_genesis_state demo_fd) 5 (Epoch 1)
      (chain (f_ledger_state demo_fd) [57])"
  by (rule epoch_memo_invisible [OF demo_init demo_k_nonneg demo_genesis_id demo_epochs_ok demo_cstep])
     (simp_all add: demo_fd_facts epoch_state_spec_deep)

text \<open>
  An epoch is answered at once for a tip when a call for it needs no nested call: it is epoch 0, or the table
  has an entry for it and its nonce snapshot.
\<close>

definition at_once :: "Env \<Rightarrow> Follower \<Rightarrow> hash \<Rightarrow> Epoch \<Rightarrow> bool" where
  "at_once E f t e \<longleftrightarrow> epoch e = 0 \<or>
     (\<exists>ns i st. nonce_snapshot f e t = Ok ns \<and> block_id E (ls_block ns) = Ok i \<and> f_epoch_state f (e, i) = Some st)"

lemma exhausted_iff:
  assumes "einv E f" and "t \<in> keys (f_ledger_state f)" and l: "epoch_length (f_config f) = Ok l"
  shows "fst (compute_epoch_state E n e t f) = Err RecursionError \<longleftrightarrow>
    (\<forall>k<n. \<not> at_once E f t (Epoch (epoch e - int k)))"
proof (induction n arbitrary: e)
  case (Suc n)
  have inv: "finv E f" "epochs_ok (f_config f)" using assms(1) by (simp_all add: einv_def)
  note wf = finvD(3) [OF inv(1)]
  have split: "(\<forall>k<Suc n. \<not> at_once E f t (Epoch (epoch e - int k))) \<longleftrightarrow>
      \<not> at_once E f t e \<and> (\<forall>k<n. \<not> at_once E f t (Epoch (epoch (prev e) - int k)))"
    by (cases e) (simp add: All_less_Suc2 prev_def algebra_simps)
  show ?case
  proof (cases "epoch e = 0")
    case True
    then have "at_once E f t e" by (simp add: at_once_def)
    then show ?thesis using True unfolding split by simp
  next
    case e: False
    obtain q where q: "epoch_relative_nonce_slot (f_config f) = Ok q" using l by (auto simp: epoch_length_def res_simps)
    have nn: "0 \<le> l" "0 \<le> q" using inv(2) l q by (simp_all add: epochs_ok_def)
    note snap = snapshots_eq [OF wf l q, of e t]
    from epoch_state_spec_key [OF finvD(2) [OF inv(1)] finvD(6) [OF inv(1)] assms(2) l q nn refl, of e]
    obtain i where i: "block_id E (ls_block (first_before (nonce_slot l q e) (f_genesis_state f)
        (chain (f_ledger_state f) t))) = Ok i" by blast
    note step = compute_epoch_state_Suc [OF e snap i, of n]
    have memo: "at_once E f t e \<longleftrightarrow> f_epoch_state f (e, i) \<noteq> None"
      using e snap(2) i by (auto simp: at_once_def)
    show ?thesis
    proof (cases "f_epoch_state f (e, i)")
      case (Some st)
      then show ?thesis using step memo by (simp add: split)
    next
      case None
      obtain r1 f1 where c: "compute_epoch_state E n (prev e) t f = (r1, f1)"
        by (cases "compute_epoch_state E n (prev e) t f")
      have "fst (compute_epoch_state E (Suc n) e t f) = Err RecursionError \<longleftrightarrow> r1 = Err RecursionError"
        unfolding step using None c infer_not_RecursionError
        by (auto simp: bind_act_def Let_def split: res.splits)
      then show ?thesis using Suc.IH [of "prev e"] c memo None by (simp add: split)
    qed
  qed
qed simp

text \<open>
  C9: The nested calls of \<open>compute_epoch_state\<close>, for a configuration that has an epoch length. It
  always returns or raises. It runs out of the \<open>n\<close> calls the interpreter still allows exactly when
  the call for the epoch and those for the \<open>n - 1\<close> epochs before it find none that is answered at
  once: neither epoch 0 nor an epoch remembered for its nonce snapshot. So an epoch below \<open>n\<close> never
  runs out of them, a negative epoch always does, whatever is remembered, and with nothing
  remembered an epoch from \<open>n\<close> on does as well.
\<close>

theorem epoch_state_depth:
  assumes "einv E f" and "t \<in> keys (f_ledger_state f)" and "epoch_length (f_config f) = Ok l"
    and "compute_epoch_state E n e t f = (r, f')"
  shows "r \<noteq> Diverge \<and>
    (r = Err RecursionError \<longleftrightarrow> (\<forall>k<n. \<not> at_once E f t (Epoch (epoch e - int k)))) \<and>
    (0 \<le> epoch e \<and> epoch e < int n \<longrightarrow> r \<noteq> Err RecursionError) \<and>
    (epoch e < 0 \<longrightarrow> r = Err RecursionError) \<and>
    (f_epoch_state f = Map.empty \<longrightarrow> (r = Err RecursionError \<longleftrightarrow> epoch e < 0 \<or> int n \<le> epoch e))"
proof -
  have inv: "finv E f" "epochs_ok (f_config f)" "memo_ok E f" using assms(1) by (simp_all add: einv_def)
  from compute_epoch_state_memo [OF assms(4) inv(3,1,2) assms(2)] obtain n' where "n \<le> n'"
    and r: "r = epoch_state_spec E (f_config f) (f_genesis_state f) n' e (chain (f_ledger_state f) t)"
    by (auto simp: agrees_def)
  then have deep: "0 \<le> epoch e \<Longrightarrow> epoch e < int n \<Longrightarrow> r \<noteq> Err RecursionError"
    and neg: "epoch e < 0 \<Longrightarrow> r = Err RecursionError"
    using assms(3) by (auto simp: epoch_state_spec_deep epoch_state_spec_negative)
  have exact: "r = Err RecursionError \<longleftrightarrow> (\<forall>k<n. \<not> at_once E f t (Epoch (epoch e - int k)))"
    using exhausted_iff [OF assms(1-3), of n e] assms(4) by simp
  have "r \<noteq> Diverge" by (rule compute_epoch_state_returns [OF assms(4) finvD(3) [OF inv(1)]])
  moreover have "f_epoch_state f = Map.empty \<Longrightarrow> int n \<le> epoch e \<Longrightarrow> r = Err RecursionError"
    unfolding exact by (auto simp: at_once_def)
  ultimately show ?thesis using exact deep neg by (meson linorder_not_less)
qed

lemma demo_einv: "einv demo_env demo_fd"
  by (rule epochs.run_inv [OF demo_cstep init_einv [OF demo_init demo_k_nonneg demo_genesis_id demo_epochs_ok]])

theorem epoch_state_depth_witness:
  "fst (compute_epoch_state demo_env 2 (Epoch 1) [57] demo_fd) \<notin> {Diverge, Err RecursionError} \<and>
   fst (compute_epoch_state demo_env 2 (Epoch (- 1)) [57] demo_fd) = Err RecursionError"
proof -
  note at = epoch_state_depth [OF demo_einv demo_fd_facts(3), of 20 2, OF _ surjective_pairing]
  have l: "epoch_length (f_config demo_fd) = Ok 20" by (simp add: demo_fd_facts demo_lengths)
  show ?thesis
    using at [OF l, of "Epoch 1", THEN conjunct1] at [OF l, of "Epoch 1", THEN conjunct2, THEN conjunct2, THEN conjunct1]
      at [OF l, of "Epoch (- 1)", THEN conjunct2, THEN conjunct2, THEN conjunct2, THEN conjunct1] by simp
qed

section \<open>Slots, epochs, configuration\<close>

text \<open>
  a slot belongs to epoch \<open>e\<close> exactly when it lies in the \<open>epoch_length\<close> slots from
  \<open>e * epoch_length\<close> on, also for negative slots.
\<close>

theorem slot_epoch_range:
  assumes "epoch_length c = Ok l" and "0 < l"
  shows "slot_epoch c s = Ok (Epoch n) \<longleftrightarrow> n * l \<le> absolute_slot s \<and> absolute_slot s < (n + 1) * l"
proof -
  have "n = absolute_slot s div l \<longleftrightarrow> n * l \<le> absolute_slot s \<and> absolute_slot s < (n + 1) * l"
  proof
    assume n: "n = absolute_slot s div l"
    have "absolute_slot s = n * l + absolute_slot s mod l" using n by simp
    moreover have "0 \<le> absolute_slot s mod l" "absolute_slot s mod l < l" using assms(2) by simp_all
    ultimately show "n * l \<le> absolute_slot s \<and> absolute_slot s < (n + 1) * l" by (simp add: algebra_simps)
  next
    assume r: "n * l \<le> absolute_slot s \<and> absolute_slot s < (n + 1) * l"
    then have "absolute_slot s = l * n + (absolute_slot s - n * l)" "0 \<le> absolute_slot s - n * l"
        "absolute_slot s - n * l < l" by (simp_all add: algebra_simps)
    from int_div_pos_eq [OF this] show "n = absolute_slot s div l" by simp
  qed
  then show ?thesis using assms by (auto simp: slot_epoch_def floor_div_def)
qed

theorem slot_epoch_range_witness: "slot_epoch demo_config (Slot 39) = Ok (Epoch 1)"
  using slot_epoch_range [of demo_config 20 "Slot 39" 1] by (simp add: demo_lengths)

text \<open>
  \<open>encode\<close> writes a slot in eight big-endian bytes that read back to it, and raises
  \<open>OverflowError\<close> exactly outside the unsigned 64-bit range.
\<close>

theorem slot_encode_roundtrip:
  "(case slot_encode s of
      Ok bs \<Rightarrow> length bs = 8 \<and> from_bytes bs = absolute_slot s \<and> 0 \<le> absolute_slot s \<and> absolute_slot s < 2 ^ 64
    | Err e \<Rightarrow> e = OverflowError \<and> (absolute_slot s < 0 \<or> 2 ^ 64 \<le> absolute_slot s)
    | Diverge \<Rightarrow> False)"
proof (cases "slot_encode s")
  case (Ok bs)
  then have "to_bytes 8 (absolute_slot s) = Ok bs" by (simp add: slot_encode_def)
  from length_to_bytes [OF this] from_to_bytes [OF this] this Ok show ?thesis
    by (simp add: to_bytes_Ok_iff)
qed (auto simp: slot_encode_def to_bytes_def split: if_splits)

lemma bit_count_numeral: "bit_count (numeral n) = Suc (bit_count (numeral n div 2))"
  by (simp add: bit_count.simps)

lemma bit_count_0_1: "bit_count 0 = 0" "bit_count 1 = 1" "bit_count (Suc 0) = 1"
  by (simp_all add: bit_count.simps)

lemma fl_5_100: "fl (5 / 100) = 3602879701896397 / 72057594037927936" and fl_2160: "fl 2160 = 2160"
  by code_simp+

lemma fl_base_period: "fl (2160 / (3602879701896397 / 72057594037927936)) = 43200"
proof -
  have "quotient_of (2160 / (3602879701896397 / 72057594037927936)) = (155644403121924341760, 3602879701896397)"
    by code_simp
  moreover have "fl_pos 155644403121924341760 3602879701896397 = 43200"
    by (simp add: fl_pos_def bit_count_numeral bit_count_0_1 Let_def round_half_even_def pow2_def)
  ultimately show ?thesis by (simp add: fl_def)
qed

text \<open>
  the parameters of \<open>cryptarchia_v0_0_1\<close>: base periods of 43200 slots, epochs of ten of them, the
  nonce snapshot after six, and a security parameter of three.
\<close>

theorem v0_0_1_parameters:
  "base_period_length (cryptarchia_v0_0_1 stake) = Ok 43200 \<and>
   epoch_relative_nonce_slot (cryptarchia_v0_0_1 stake) = Ok 259200 \<and>
   epoch_length (cryptarchia_v0_0_1 stake) = Ok 432000 \<and>
   security_param (cryptarchia_v0_0_1 stake) = Ok 129600"
proof -
  have "base_period_length (cryptarchia_v0_0_1 stake) =
      bind_res (float_div (fl 2160) (fl (5 / 100))) (\<lambda>x. Ok \<lfloor>x\<rfloor>)"
    unfolding base_period_length_def cryptarchia_v0_0_1_def by simp
  then have "base_period_length (cryptarchia_v0_0_1 stake) = Ok 43200"
    unfolding fl_2160 fl_5_100 by (simp add: float_div_def fl_base_period [simplified])
  then show ?thesis
    by (simp add: epoch_relative_nonce_slot_def epoch_length_def security_param_def cryptarchia_v0_0_1_def)
qed

section \<open>Identifiers\<close>

text \<open>The bytes an identifier hashes after its domain tag.\<close>

definition header_bytes :: "Env \<Rightarrow> BlockHeader \<Rightarrow> (exn, bytes) res" where
  "header_bytes E b =
     bind_res (to_bytes 4 (content_size b)) (\<lambda>size.
     bind_res (slot_encode (bh_slot b)) (\<lambda>s.
     bind_res (epoch_nonce_contribution E (leader_proof b)) (\<lambda>c.
       Ok ([1] @ size @ content_id b @ s @ bh_parent b @ c))))"

lemma block_id_header_bytes:
  "block_id E b = bind_res (header_bytes E b) (\<lambda>x. Ok (sha256 E (ascii ''BLOCK_ID'' @ x)))"
  by (simp add: block_id_def header_bytes_def bind_res_assoc Hash_def)

lemma header_bytes_inj:
  assumes "header_bytes E b = Ok x" and "header_bytes E b' = Ok x"
    and "length (content_id b) = length (content_id b')" and "length (bh_parent b) = length (bh_parent b')"
  shows "content_size b = content_size b' \<and> content_id b = content_id b' \<and> bh_slot b = bh_slot b' \<and>
    bh_parent b = bh_parent b' \<and>
    epoch_nonce_contribution E (leader_proof b) = epoch_nonce_contribution E (leader_proof b')"
proof -
  from assms(1) obtain z s c where 1: "to_bytes 4 (content_size b) = Ok z" "slot_encode (bh_slot b) = Ok s"
      "epoch_nonce_contribution E (leader_proof b) = Ok c" "x = [1] @ z @ content_id b @ s @ bh_parent b @ c"
    by (auto simp: header_bytes_def res_simps)
  from assms(2) obtain z' s' c' where 2: "to_bytes 4 (content_size b') = Ok z'" "slot_encode (bh_slot b') = Ok s'"
      "epoch_nonce_contribution E (leader_proof b') = Ok c'" "x = [1] @ z' @ content_id b' @ s' @ bh_parent b' @ c'"
    by (auto simp: header_bytes_def res_simps)
  have "length z = length z'" "length s = length s'"
    using 1 2 by (auto simp: slot_encode_def dest!: length_to_bytes)
  then have "z = z'" "content_id b = content_id b'" "s = s'" "bh_parent b = bh_parent b'" "c = c'"
    using 1(4) 2(4) assms(3,4) by auto
  moreover from this have "content_size b = content_size b'" "absolute_slot (bh_slot b) = absolute_slot (bh_slot b')"
    using 1 2 by (auto simp: slot_encode_def intro: to_bytes_inj)
  ultimately show ?thesis using 1(3) 2(3) by (auto intro: Slot.expand)
qed

text \<open>
  a block identifier binds the header. Two headers whose content and parent identifiers have
  the same lengths, but which differ in size, content, slot, parent or nonce contribution, have
  different identifiers unless the hash function collides on their two encodings.
\<close>

theorem block_id_binding:
  assumes "block_id E b = Ok i" and "block_id E b' = Ok i'"
    and "length (content_id b) = length (content_id b')" and "length (bh_parent b) = length (bh_parent b')"
    and "(content_size b, content_id b, bh_slot b, bh_parent b, epoch_nonce_contribution E (leader_proof b)) \<noteq>
      (content_size b', content_id b', bh_slot b', bh_parent b', epoch_nonce_contribution E (leader_proof b'))"
    and "header_bytes E b = Ok x" and "header_bytes E b' = Ok x'"
    and "sha256 E (ascii ''BLOCK_ID'' @ x) = sha256 E (ascii ''BLOCK_ID'' @ x') \<Longrightarrow> x = x'"
  shows "i \<noteq> i'"
proof
  assume "i = i'"
  with assms(1,2,6,7) have "sha256 E (ascii ''BLOCK_ID'' @ x) = sha256 E (ascii ''BLOCK_ID'' @ x')"
    by (simp add: block_id_header_bytes)
  then have "x = x'" by (rule assms(8))
  with header_bytes_inj [OF assms(6) _ assms(3,4)] assms(5,7) show False by simp
qed

lemma demo_header_bytes:
  assumes "0 \<le> s" and "s < 256"
  shows "header_bytes demo_env (demo_block s p) =
    Ok ([1, 0, 0, 0, 0] @ (replicate 7 0 @ [word_of_int s]) @ p @ [225 + word_of_int s])"
proof -
  have "content_size (demo_block s p) = 0" "content_id (demo_block s p) = []" by (simp_all add: demo_block_def)
  then show ?thesis
    unfolding header_bytes_def demo_contribution [OF assms]
    by (simp add: demo_slot assms to_bytes_small eval_nat_numeral)
qed

theorem block_id_binding_witness: "([116] :: hash) \<noteq> [120]"
proof -
  have id: "block_id demo_env demo_b1 = Ok [116]" "block_id demo_env demo_c1 = Ok [120]"
    by (simp_all add: demo_block_id)
  show ?thesis
    by (rule block_id_binding [OF id _ _ _ demo_header_bytes demo_header_bytes])
       (simp_all add: demo_block_def demo_env_def ascii_def)
qed

section \<open>Leadership\<close>

text \<open>
  the proof a leader gets for a slot it wins verifies for that slot and parent, and for no
  other, against any set of commitments that has the note's and any set of nullifiers that lacks
  the note's.
\<close>

theorem leader_proof_verifies:
  assumes "try_prove_slot_leader E ld ep s par = Ok (Some p)"
  shows "\<exists>cm nf. commitment E (leader_note ld) = Ok cm \<and> nullifier E (leader_note ld) = Ok nf \<and>
    (\<forall>s' par' cms nfs. verify_leader_proof E p s' par' cms nfs =
      Ok (s' = s \<and> par' = par \<and> cm \<in> cms \<and> nf \<notin> nfs))"
proof -
  from assms obtain w where "is_slot_leader E ld ep s = Ok w" by (auto simp: try_prove_slot_leader_def res_simps)
  from is_slot_leader_note [OF this] obtain cm nf where
      n: "commitment E (leader_note ld) = Ok cm" "nullifier E (leader_note ld) = Ok nf" by blast
  with try_prove_verifies [OF assms n] show ?thesis by blast
qed

definition demo_leader :: Leader where
  "demo_leader = \<lparr>leader_config = demo_config, leader_note = demo_note\<rparr>"

definition demo_epoch :: EpochState where
  "demo_epoch = \<lparr>es_stake_distribution_snapshot = demo_genesis, es_nonce_snapshot = demo_genesis,
     inferred_total_active_stake = 1\<rparr>"

lemma demo_wins:
  "try_prove_slot_leader demo_env demo_leader demo_epoch (Slot 1) [57] =
     Ok (Some \<lparr>lp_note = demo_note, lp_slot = Slot 1, lp_parent = [57]\<rparr>)"
proof -
  have one: "fl 1 = 1" and half: "fl (1 / 2) = 1 / 2" by code_simp+
  have big: "fl (57896044618658097711785492504343953926634992332820282019728792003956564819968) = 
      57896044618658097711785492504343953926634992332820282019728792003956564819968"
    by (simp add: fl_def fl_pos_def bit_count_numeral bit_count_0_1 Let_def round_half_even_def pow2_def)
  have "is_slot_leader demo_env demo_leader demo_epoch (Slot 1) = Ok True"
    unfolding is_slot_leader_def
    by (simp add: demo_leader_def demo_epoch_def total_active_stake_def es_nonce_def demo_genesis_def demo_commitment
        demo_slot encode_sk_def)
       (simp add: demo_note_def to_bytes_small float_div_def one half phi_def demo_config_def demo_env_def
        hash_order_def big Hash_def ascii_def from_bytes_def)
  then show ?thesis by (simp add: try_prove_slot_leader_def demo_leader_def)
qed

theorem leader_proof_verifies_witness:
  "\<exists>cm nf. commitment demo_env (leader_note demo_leader) = Ok cm \<and> nullifier demo_env (leader_note demo_leader) = Ok nf \<and>
    (\<forall>s' par' cms nfs. verify_leader_proof demo_env \<lparr>lp_note = demo_note, lp_slot = Slot 1, lp_parent = [57]\<rparr> s' par' cms nfs =
      Ok (s' = Slot 1 \<and> par' = [57] \<and> cm \<in> cms \<and> nf \<notin> nfs))"
  by (rule leader_proof_verifies [OF demo_wins])

end
