(* ===== verification/Sync_Properties.thy ===== *)
theory Sync_Properties
  imports Epoch_Properties
begin

text \<open>
  The properties of \<open>sync\<close>, for every order in which the interpreter iterates a set, any number of
  rounds and any peers.
\<close>

lemma demo_hash_sound: "f_genesis_state f = demo_genesis \<Longrightarrow> hash_sound demo_env f"
  using demo_no_genesis_parent by (simp add: hash_sound_def)

text \<open>
  C13: \<open>sync\<close>, whether it returns, raises or runs on, and whatever the peers hold, changes the local
  follower by calls of \<open>on_block\<close> only: what it leaves is the follower after some list of blocks, in the
  same mode as before. In particular the last immutable block is not reverted.
\<close>

theorem sync_keeps_lib:
  assumes "finv E f" and "hash_sound E f" and "sync E order n peers cp f = (r, f')"
  shows "(\<exists>bs. f' = fold (\<lambda>b g. snd (on_block E b g)) bs f) \<and> f_state f' = f_state f \<and> finv E f' \<and>
    suffix (chain (f_ledger_state f) (f_lib f)) (chain (f_ledger_state f') (f_lib f'))"
proof -
  have "reaches E f (receive_all E [] f)" using assms(1,2) unfolding reaches_def by blast
  then have "reaches E f f" by simp
  from keepsD [OF keeps_sync this assms(3)] have r: "reaches E f f'" .
  from reachesD [OF r] r show ?thesis by (simp add: reaches_def receive_all_def advances_def lib_ext_def)
qed

theorem sync_keeps_lib_witness:
  "(\<exists>bs. snd (sync demo_env rev 3 [demo_f3] None demo_f0) = fold (\<lambda>b g. snd (on_block demo_env b g)) bs demo_f0) \<and>
    f_state (snd (sync demo_env rev 3 [demo_f3] None demo_f0)) = f_state demo_f0 \<and>
    finv demo_env (snd (sync demo_env rev 3 [demo_f3] None demo_f0)) \<and>
    suffix (chain (f_ledger_state demo_f0) (f_lib demo_f0))
      (chain (f_ledger_state (snd (sync demo_env rev 3 [demo_f3] None demo_f0)))
        (f_lib (snd (sync demo_env rev 3 [demo_f3] None demo_f0))))"
  by (rule sync_keeps_lib [OF demo_finv0 demo_hash_sound]) (simp_all add: prod_eq_iff)

text \<open>
  when \<open>sync\<close> returns, no peer has a tip in a later slot than the local tip.
\<close>

theorem sync_catches_up:
  assumes "sync E order n peers cp f = (Ok u, f')" and "\<forall>p \<in> set peers. finv E p"
  shows "\<exists>t. tip f' = Ok t \<and> (\<forall>p \<in> set peers. \<exists>tp. tip p = Ok tp \<and> bh_slot tp \<le> bh_slot t)"
  by (rule sync_caught_up [OF assms])

lemma demo_tips: "tip demo_f3 = Ok demo_b2" "tip demo_f0 = Ok (demo_block 0 [])" "tip demo_f1 = Ok demo_b1"
  by (simp_all add: tip_def tip_state_def tip_id_def get_item_def demo_f3_def demo_f2_def demo_f1_def demo_f0_def
      demo_genesis_def)

lemma demo_sync_nothing: "sync demo_env rev 1 [demo_f0] None demo_f3 = (Ok (), demo_f3)"
  by (simp add: sync_def bind_act_ret bind_plain_call bind_act_modify demo_tips fetch_blocks_from_def
      filter_and_group_peers_by_tip_def)

theorem sync_catches_up_witness:
  "\<exists>t tp. tip demo_f3 = Ok t \<and> tip demo_f0 = Ok tp \<and> bh_slot tp \<le> bh_slot t"
  using sync_catches_up [OF demo_sync_nothing] demo_finv0 by auto

text \<open>
  C14: \<open>sync\<close> does not return when a round fetches only blocks the local tree has already: a peer
  whose tip is in a later slot, but on a chain the local follower has and does not prefer, keeps
  it fetching the same blocks forever.
\<close>

theorem sync_never_returns:
  assumes "tip f = Ok t" and "fetch_blocks_from E peers (bh_slot t) = Ok bs" and "bs \<noteq> []"
    and "\<forall>b \<in> set bs. \<exists>i. block_id E b = Ok i \<and> i \<in> keys (f_ledger_state f)" and "order [] = []"
  shows "\<forall>n. fst (sync E order n peers None f) = Diverge"
  by (intro allI sync_stuck [of f t E peers bs order] assms)

text \<open>The peer of the witness has c1 (slot 3) as its tip; the local follower has it as a fork.\<close>

definition demo_peer :: Follower where
  "demo_peer = demo_f0\<lparr>f_ledger_state := [([57], demo_genesis), ([120], demo_state demo_c1 40 1)],
     f_local_chain := [120]\<rparr>"

lemma demo_fetch: "fetch_blocks_from demo_env [demo_peer] (Slot 2) = Ok [demo_c1]"
  by (simp add: fetch_blocks_from_def filter_and_group_peers_by_tip_def group_append_def tip_def tip_state_def
      tip_id_def get_item_def demo_peer_def demo_genesis_def demo_block_id blocks_by_slot_def less_eq_Slot_def add_to_slot_def)

theorem sync_never_returns_witness: "\<forall>n. fst (sync demo_env rev n [demo_peer] None demo_f3) = Diverge"
  by (rule sync_never_returns [OF demo_tips(1), of _ _ "[demo_c1]"])
     (simp_all add: demo_fetch demo_block_id demo_keys)

text \<open>
  C15: while bootstrapping, \<open>backfill_fork\<close> from peers of the same genesis, one of which has the
  fork's tip, imports the part of the fork the local tree lacks: the path of headers from a child of a
  stored block to the tip. It returns when all of them were accepted, and the tree has gained exactly
  these. Otherwise it raises with the rest of the path from the first refused block on: the blocks
  before it were accepted and are what the tree has gained, \<open>on_block\<close> refused it with the
  reported cause, and it is not in the tree.
\<close>

theorem backfill_fork_imports:
  assumes "finv E f" and "hash_sound E f" and "f_state f = BOOTSTRAPPING"
    and "good_peers E f peers" and "block_id E b = Ok t"
    and "\<exists>p \<in> set peers. t \<in> keys (f_ledger_state p)"
    and "backfill_fork E peers b f = (r, f')"
  shows "\<exists>bs. linked E t (rev bs) \<and> end_id t (rev bs) \<in> keys (f_ledger_state f) \<and>
    ids_of E bs \<inter> keys (f_ledger_state f) = {} \<and>
    (r = Ok () \<and> t \<in> keys (f_ledger_state f') \<and> keys (f_ledger_state f') = keys (f_ledger_state f) \<union> ids_of E bs \<or>
     (\<exists>e us b' vs. bs = us @ b' # vs \<and> r = Err (InvalidBlockFromBackfillFork e (b' # vs)) \<and>
        keys (f_ledger_state f') = keys (f_ledger_state f) \<union> ids_of E us \<and>
        on_block E b' (receive_all E us f) = (Err e, f') \<and>
        (\<forall>i. block_id E b' = Ok i \<longrightarrow> i \<notin> keys (f_ledger_state f'))))"
  by (rule backfill_imports [OF assms])

theorem backfill_fork_imports_witness:
  "\<exists>bs. linked demo_env [177] (rev bs) \<and> ids_of demo_env bs \<inter> keys (f_ledger_state demo_f0) = {} \<and>
    (fst (backfill_fork demo_env [demo_f3] demo_b2 demo_f0) = Ok () \<and>
       [177] \<in> keys (f_ledger_state (snd (backfill_fork demo_env [demo_f3] demo_b2 demo_f0))) \<or>
     (\<exists>e us b' vs. bs = us @ b' # vs \<and>
        fst (backfill_fork demo_env [demo_f3] demo_b2 demo_f0) = Err (InvalidBlockFromBackfillFork e (b' # vs))))"
proof -
  have "f_state demo_f0 = BOOTSTRAPPING" by (simp add: demo_f0_def)
  moreover have "good_peers demo_env demo_f0 [demo_f3]" using demo_finv by (simp add: good_peers_def)
  moreover have "block_id demo_env demo_b2 = Ok [177]" by (simp add: demo_block_id)
  moreover have "\<exists>p \<in> set [demo_f3]. [177] \<in> keys (f_ledger_state p)" by (simp add: demo_keys)
  moreover have "hash_sound demo_env demo_f0" by (rule demo_hash_sound) simp
  ultimately show ?thesis
    using backfill_fork_imports [OF demo_finv0 _ _ _ _ _ surjective_pairing, of "[demo_f3]" demo_b2 "[177]"] by blast
qed

end
