(* ===== verification/Refill.thy ===== *)
theory Refill
  imports Prelude
begin

text \<open>
  da/assignations/refill.py: the assignment of DA nodes to subnetworks.

  Two things are not code of the repository. \<open>RefillEnv\<close> gives the order into which \<open>random.shuffle\<close>
  brings a list of a given length, as the list of the old positions, and the state its generator
  has afterwards; and the state the seed sets. That state belongs to the module \<open>random\<close>: the
  function borrows it from its caller and gives it back. A proper shuffle (\<open>shuffles\<close>) returns every position once.

  \<open>heapq\<close> is a priority queue. The keys of the two heaps of \<open>fill_subnetworks\<close> are distinct, so the
  layout of the heap in its list is not observable: \<open>heapify\<close> changes nothing, \<open>heappush\<close> adds an
  element and \<open>heappop\<close> removes the least one, or raises \<open>IndexError\<close>. The objects in the heaps and
  lists are identified by \<open>declaration_id\<close> and \<open>subnetwork_id\<close>, which are distinct, and a mutation
  of one replaces the element with its identifier.

  The two \<open>while\<close> loops run for at most \<open>n\<close> rounds; \<open>Diverge\<close> says that a loop was still running.
\<close>

section \<open>Participants and subnetworks\<close>

type_synonym DeclarationId = bytes

record Participant =
  participation :: int
  declaration_id :: DeclarationId

record Subnetwork =
  participants :: "DeclarationId set"
  subnetwork_id :: int

record 'r RefillEnv =
  shuffle_order :: "'r \<Rightarrow> nat \<Rightarrow> nat list \<times> 'r"
  seed_rng :: "bytes \<Rightarrow> 'r"

definition pkey :: "Participant \<Rightarrow> int \<times> DeclarationId" where
  "pkey p = (participation p, declaration_id p)"

definition slen :: "Subnetwork \<Rightarrow> int" where
  "slen s = int (card (participants s))"

definition skey :: "Subnetwork \<Rightarrow> int \<times> int" where
  "skey s = (slen s, subnetwork_id s)"

definition subnetworks_filled_up_to_replication_factor :: "Subnetwork list \<Rightarrow> int \<Rightarrow> bool" where
  "subnetworks_filled_up_to_replication_factor ss rf = list_all (\<lambda>s. rf \<le> slen s) ss"

definition all_nodes_assigned :: "Participant list \<Rightarrow> int \<Rightarrow> bool" where
  "all_nodes_assigned ps avg = list_all (\<lambda>p. avg \<le> participation p) ps"

section \<open>Heaps and sampling\<close>

definition heappop :: "('a \<Rightarrow> 'k :: linorder) \<Rightarrow> 'a list \<Rightarrow> (exn, 'a \<times> 'a list) res" where
  "heappop key xs =
     (if xs = [] then Err IndexError
      else let x = arg_min_list key xs in Ok (x, remove1 x xs))"

definition heappush :: "'a \<Rightarrow> 'a list \<Rightarrow> 'a list" where
  "heappush x xs = x # xs"

fun pop_skip ::
    "('q \<Rightarrow> (exn, 'a \<times> 'q) res) \<Rightarrow> ('a \<Rightarrow> bool) \<Rightarrow> nat \<Rightarrow> 'q \<Rightarrow> 'a list \<Rightarrow> (exn, 'a \<times> 'a list \<times> 'q) res" where
  "pop_skip pop skip 0 q acc = Diverge"
| "pop_skip pop skip (Suc n) q acc =
     bind_res (pop q) (\<lambda>(x, q').
       if skip x then pop_skip pop skip n q' (acc @ [x]) else Ok (x, acc, q'))"

definition heappop_next_for_subnetwork ::
    "Subnetwork \<Rightarrow> Participant list \<Rightarrow> (exn, Participant \<times> Participant list) res" where
  "heappop_next_for_subnetwork s ps =
     bind_res (pop_skip (heappop pkey) (\<lambda>p. declaration_id p \<in> participants s) (Suc (length ps)) ps [])
       (\<lambda>(p, popped, q). Ok (p, foldl (\<lambda>q x. heappush x q) q popped))"

definition slice_to :: "int \<Rightarrow> 'a list \<Rightarrow> 'a list" where
  "slice_to k xs = (if 0 \<le> k then take (nat k) xs else take (length xs - nat (- k)) xs)"

definition sample ::
    "'r RefillEnv \<Rightarrow> ('a \<Rightarrow> 'k :: linorder) \<Rightarrow> 'a list \<Rightarrow> int \<Rightarrow> 'r \<Rightarrow> 'a list \<times> 'r" where
  "sample E key xs k rng =
     (let ys = sort_key key xs;
          (order, rng') = shuffle_order E rng (length ys)
      in (slice_to k (map (\<lambda>i. ys ! i) order), rng'))"

section \<open>Filling and balancing\<close>

fun fill_subnetworks ::
    "nat \<Rightarrow> Participant list \<Rightarrow> Subnetwork list \<Rightarrow> int \<Rightarrow> int \<Rightarrow>
     (exn, Participant list \<times> Subnetwork list) res" where
  "fill_subnetworks n ps ss avg rf =
     (if subnetworks_filled_up_to_replication_factor ss rf \<and> all_nodes_assigned ps avg then Ok (ps, ss)
      else case n of
        0 \<Rightarrow> Diverge
      | Suc m \<Rightarrow>
          bind_res (heappop skey ss) (\<lambda>(s, ss').
          bind_res (heappop_next_for_subnetwork s ps) (\<lambda>(p, ps').
            fill_subnetworks m
              (heappush (p\<lparr>participation := participation p + 1\<rparr>) ps')
              (heappush (s\<lparr>participants := insert (declaration_id p) (participants s)\<rparr>) ss')
              avg rf)))"

declare fill_subnetworks.simps [simp del]

definition update_subnetwork ::
    "int \<Rightarrow> (DeclarationId set \<Rightarrow> DeclarationId set) \<Rightarrow> Subnetwork list \<Rightarrow> Subnetwork list" where
  "update_subnetwork i g ss = map (\<lambda>s. if subnetwork_id s = i then s\<lparr>participants := g (participants s)\<rparr> else s) ss"

definition max_subnetwork :: "Subnetwork list \<Rightarrow> (exn, Subnetwork) res" where
  "max_subnetwork ss = (if ss = [] then Err ValueError else Ok (last (sort_key skey ss)))"

definition min_subnetwork :: "Subnetwork list \<Rightarrow> (exn, Subnetwork) res" where
  "min_subnetwork ss = (if ss = [] then Err ValueError else Ok (arg_min_list skey ss))"

fun balance_subnetworks_shrink ::
    "'r RefillEnv \<Rightarrow> nat \<Rightarrow> Subnetwork list \<Rightarrow> 'r \<Rightarrow> (exn, Subnetwork list \<times> 'r) res" where
  "balance_subnetworks_shrink E n ss rng =
     bind_res (max_subnetwork ss) (\<lambda>mx.
     bind_res (min_subnetwork ss) (\<lambda>mn.
       if slen mx - slen mn > 1
       then case n of
         0 \<Rightarrow> Diverge
       | Suc m \<Rightarrow>
           let diff_count = (slen mx - slen mn) div 2;
               diff_participants = sorted_list_of_set (participants mx - participants mn);
               (moved, rng') = sample E id diff_participants diff_count rng
           in balance_subnetworks_shrink E m
                (update_subnetwork (subnetwork_id mx) (\<lambda>A. A - set moved)
                  (update_subnetwork (subnetwork_id mn) (\<lambda>A. A \<union> set moved) ss)) rng'
       else Ok (ss, rng)))"

declare balance_subnetworks_shrink.simps [simp del]

text \<open>One participant of the loop of \<open>balance_subnetworks_grow\<close>, which leaves \<open>k\<close> of its subnetworks.\<close>

fun leave_subnetworks :: "DeclarationId \<Rightarrow> Subnetwork list \<Rightarrow> Subnetwork list \<Rightarrow> Subnetwork list" where
  "leave_subnetworks d [] ss = ss"
| "leave_subnetworks d (c # cs) ss =
     leave_subnetworks d cs (update_subnetwork (subnetwork_id c) (\<lambda>A. A - {d}) ss)"

fun grow_loop ::
    "'r RefillEnv \<Rightarrow> int \<Rightarrow> Participant list \<Rightarrow> Subnetwork list \<Rightarrow> Participant list \<Rightarrow> 'r \<Rightarrow>
     Subnetwork list \<times> Participant list \<times> 'r" where
  "grow_loop E avg [] ss ps rng = (ss, ps, rng)"
| "grow_loop E avg (p # todo) ss ps rng =
     (if participation p > avg
      then
        let d = declaration_id p;
            (chosen, rng') = sample E skey (sort_key skey (filter (\<lambda>s. d \<in> participants s) ss))
              (participation p - avg) rng
        in grow_loop E avg todo (leave_subnetworks d chosen ss)
             (map (\<lambda>q. if declaration_id q = d
                       then q\<lparr>participation := participation q - int (length chosen)\<rparr> else q) ps) rng'
      else grow_loop E avg todo ss ps rng)"

definition balance_subnetworks_grow ::
    "'r RefillEnv \<Rightarrow> Subnetwork list \<Rightarrow> Participant list \<Rightarrow> int \<Rightarrow> 'r \<Rightarrow> Subnetwork list \<times> Participant list \<times> 'r" where
  "balance_subnetworks_grow E ss ps avg rng = grow_loop E avg (sort_key pkey ps) ss ps rng"

definition count_in :: "DeclarationId set list \<Rightarrow> DeclarationId \<Rightarrow> int" where
  "count_in As d = int (length (filter (\<lambda>A. d \<in> A) As))"

fun enum_subnetworks :: "int \<Rightarrow> DeclarationId set list \<Rightarrow> Subnetwork list" where
  "enum_subnetworks i [] = []"
| "enum_subnetworks i (A # As) = \<lparr>participants = A, subnetwork_id = i\<rparr> # enum_subnetworks (i + 1) As"

text \<open>
  \<open>with rand(seed)\<close>: the state of the module's generator is saved, seeded, and set back when the body
  ends. An exception of the body leaves the generator function at its \<open>yield\<close>, so nothing is set back.
\<close>

definition rand :: "'r RefillEnv \<Rightarrow> bytes \<Rightarrow> ('r, exn, 'a) action \<Rightarrow> ('r, exn, 'a) action" where
  "rand E seed body prev_rand =
     (case body (seed_rng E seed) of
        (Ok x, rng) \<Rightarrow> (Ok x, prev_rand)
      | (r, rng) \<Rightarrow> (r, rng))"

text \<open>The body of the \<open>with\<close> statement, and the function.\<close>

definition assignations_body ::
    "'r RefillEnv \<Rightarrow> nat \<Rightarrow> DeclarationId list \<Rightarrow> DeclarationId set list \<Rightarrow> int \<Rightarrow>
     ('r, exn, DeclarationId set list) action" where
  "assignations_body E n new_nodes_list previous_subnets rf rng =
     (if new_nodes_list = [] then (Err ZeroDivisionError, rng)
      else
        let avg = max ((int (length previous_subnets) * rf) div int (length new_nodes_list)) 1;
            previous_nodes = \<Union> (set previous_subnets);
            new_nodes = set new_nodes_list;
            unavailable_nodes = previous_nodes - new_nodes;
            active_assignations = map (\<lambda>A. A - unavailable_nodes) previous_subnets;
            available_nodes = map (\<lambda>d. \<lparr>participation = count_in active_assignations d, declaration_id = d\<rparr>)
                                  (remdups new_nodes_list);
            subnetworks = enum_subnetworks 0 active_assignations
        in case (if card previous_nodes > card new_nodes
                 then bind_res (balance_subnetworks_shrink E n subnetworks rng) (\<lambda>(ss, rng'). Ok (ss, available_nodes, rng'))
                 else Ok (balance_subnetworks_grow E subnetworks available_nodes avg rng)) of
             Ok (ss, ps, rng') \<Rightarrow>
               (bind_res (fill_subnetworks n ps ss avg rf) (\<lambda>(_, ss). Ok (map participants (sort_key subnetwork_id ss))), rng')
           | Err e \<Rightarrow> (Err e, rng)
           | Diverge \<Rightarrow> (Diverge, rng))"

definition calculate_subnetwork_assignations ::
    "'r RefillEnv \<Rightarrow> nat \<Rightarrow> DeclarationId list \<Rightarrow> DeclarationId set list \<Rightarrow> int \<Rightarrow> bytes \<Rightarrow>
     ('r, exn, DeclarationId set list) action" where
  "calculate_subnetwork_assignations E n new_nodes_list previous_subnets rf seed =
     (if int (length new_nodes_list) < rf then raise ValueError
      else rand E seed (assignations_body E n new_nodes_list previous_subnets rf))"

lemma rand_Ok: "body (seed_rng E seed) = (Ok x, rng) \<Longrightarrow> rand E seed body w = (Ok x, w)"
  by (simp add: rand_def)

end
