(* ===== verification/Refill_Queue.thy ===== *)
theory Refill_Queue
  imports Refill
begin

text \<open>
  The priority queue the assignment works with, as an interface: what it holds is a multiset, \<open>pop\<close>
  returns a least element. The search of \<open>heappop_next_for_subnetwork\<close> is proved on the interface:
  it returns a least element among those it does not skip, and fails only if it skips them all.
  Both heaps of the code are instances.
\<close>

locale priority_queue =
  fixes key :: "'a \<Rightarrow> 'k :: linorder"
    and pop :: "'q \<Rightarrow> (exn, 'a \<times> 'q) res"
    and push :: "'a \<Rightarrow> 'q \<Rightarrow> 'q"
    and elems :: "'q \<Rightarrow> 'a multiset"
  assumes pop_empty: "elems q = {#} \<Longrightarrow> pop q = Err IndexError"
    and pop_least: "elems q \<noteq> {#} \<Longrightarrow>
      \<exists>x q'. pop q = Ok (x, q') \<and> elems q = add_mset x (elems q') \<and> (\<forall>y \<in># elems q. key x \<le> key y)"
    and push_elems: "elems (push x q) = add_mset x (elems q)"
begin

lemma push_all: "elems (foldl (\<lambda>q x. push x q) q xs) = elems q + mset xs"
  by (induction xs arbitrary: q) (simp_all add: push_elems)

lemma pop_skip_found:
  "size (elems q) < n \<Longrightarrow> \<exists>x \<in># elems q. \<not> skip x \<Longrightarrow>
   \<exists>x sk q'. pop_skip pop skip n q acc = Ok (x, acc @ sk, q') \<and> \<not> skip x \<and>
     elems q = add_mset x (elems q' + mset sk) \<and> (\<forall>y \<in># elems q. skip y \<or> key x \<le> key y)"
proof (induction n arbitrary: q acc)
  case (Suc n)
  have "elems q \<noteq> {#}" using Suc.prems(2) by auto
  then obtain x q' where p: "pop q = Ok (x, q')" "elems q = add_mset x (elems q')" "\<forall>y \<in># elems q. key x \<le> key y"
    using pop_least by blast
  show ?case
  proof (cases "skip x")
    case False
    with p show ?thesis by (intro exI [of _ x] exI [of _ "[]"] exI [of _ q']) simp
  next
    case True
    have "size (elems q') < n" using Suc.prems(1) p(2) by simp
    moreover have "\<exists>x \<in># elems q'. \<not> skip x" using Suc.prems(2) p(2) True by auto
    ultimately obtain z sk q'' where IH: "pop_skip pop skip n q' (acc @ [x]) = Ok (z, (acc @ [x]) @ sk, q'')"
        "\<not> skip z" "elems q' = add_mset z (elems q'' + mset sk)" "\<forall>y \<in># elems q'. skip y \<or> key z \<le> key y"
      using Suc.IH [of q' "acc @ [x]"] by blast
    then show ?thesis using p True
      by (intro exI [of _ z] exI [of _ "x # sk"] exI [of _ q'']) simp
  qed
qed simp

lemma pop_skip_exhausted:
  "size (elems q) < n \<Longrightarrow> \<forall>x \<in># elems q. skip x \<Longrightarrow> pop_skip pop skip n q acc = Err IndexError"
proof (induction n arbitrary: q acc)
  case (Suc n)
  show ?case
  proof (cases "elems q = {#}")
    case True
    then show ?thesis by (simp add: pop_empty)
  next
    case False
    then obtain x q' where "pop q = Ok (x, q')" "elems q = add_mset x (elems q')" using pop_least by blast
    with Suc show ?thesis by simp
  qed
qed simp

end

lemma arg_min_list_least:
  "xs \<noteq> [] \<Longrightarrow> arg_min_list key xs \<in> set xs \<and> (\<forall>y \<in> set xs. key (arg_min_list key xs) \<le> (key y :: 'k :: linorder))"
proof (induction key xs rule: arg_min_list.induct)
  case (2 f x y zs)
  then show ?case by (auto simp: Let_def)
qed simp_all

lemma heappop_nonempty:
  "xs \<noteq> [] \<Longrightarrow> \<exists>x. heappop key xs = Ok (x, remove1 x xs) \<and> x \<in> set xs \<and> (\<forall>y \<in> set xs. key x \<le> key y)"
  using arg_min_list_least [of xs key] by (auto simp: heappop_def Let_def)

interpretation heap: priority_queue key "heappop key" heappush mset for key
proof
  fix q :: "'a list"
  assume "mset q \<noteq> {#}"
  then obtain x where "heappop key q = Ok (x, remove1 x q)" "x \<in> set q" "\<forall>y \<in> set q. key x \<le> key y"
    using heappop_nonempty [of q key] by auto
  then show "\<exists>x q'. heappop key q = Ok (x, q') \<and> mset q = add_mset x (mset q') \<and> (\<forall>y \<in># mset q. key x \<le> key y)"
    by (intro exI [of _ x] exI [of _ "remove1 x q"]) simp
qed (simp_all add: heappop_def heappush_def)

text \<open>The participant \<open>fill_subnetworks\<close> chooses for a subnetwork.\<close>

lemma next_participant:
  assumes "\<exists>p \<in> set ps. declaration_id p \<notin> participants s"
  shows "\<exists>p ps'. heappop_next_for_subnetwork s ps = Ok (p, ps') \<and> declaration_id p \<notin> participants s \<and>
    mset ps = add_mset p (mset ps') \<and>
    (\<forall>q \<in> set ps. declaration_id q \<notin> participants s \<longrightarrow> pkey p \<le> pkey q)"
proof -
  have "\<exists>p sk q. pop_skip (heappop pkey) (\<lambda>p. declaration_id p \<in> participants s) (Suc (length ps)) ps [] = Ok (p, [] @ sk, q) \<and>
      \<not> declaration_id p \<in> participants s \<and> mset ps = add_mset p (mset q + mset sk) \<and>
      (\<forall>y \<in># mset ps. declaration_id y \<in> participants s \<or> pkey p \<le> pkey y)"
    by (rule heap.pop_skip_found) (use assms in auto)
  then obtain p sk q where "pop_skip (heappop pkey) (\<lambda>p. declaration_id p \<in> participants s) (Suc (length ps)) ps [] = Ok (p, sk, q)"
      "declaration_id p \<notin> participants s" "mset ps = add_mset p (mset q + mset sk)"
      "\<forall>y \<in> set ps. declaration_id y \<in> participants s \<or> pkey p \<le> pkey y"
    unfolding append_Nil set_mset_mset by blast
  then show ?thesis
    by (intro exI [of _ p] exI [of _ "foldl (\<lambda>q x. heappush x q) q sk"])
       (auto simp: heappop_next_for_subnetwork_def heap.push_all simp del: pop_skip.simps)
qed

lemma no_next_participant:
  assumes "\<forall>p \<in> set ps. declaration_id p \<in> participants s"
  shows "heappop_next_for_subnetwork s ps = Err IndexError"
proof -
  have "pop_skip (heappop pkey) (\<lambda>p. declaration_id p \<in> participants s) (Suc (length ps)) ps [] = Err IndexError"
    by (rule heap.pop_skip_exhausted) (use assms in auto)
  then show ?thesis by (simp add: heappop_next_for_subnetwork_def)
qed

end
