(* ===== verification/Refill_Fill.thy ===== *)
theory Refill_Fill
  imports Refill_Queue
begin

text \<open>
  \<open>fill_subnetworks\<close>. \<open>assigned\<close> is what the assignment always satisfies: the participants are the
  nodes of \<open>N\<close>, each once, subnetworks hold nodes of \<open>N\<close> only, and the participation recorded for a
  node is the number of subnetworks that hold it. Every round keeps it and adds one node to a
  subnetwork, so the loop ends after at most as many rounds as there are free places, and it never
  pops an empty heap as long as a subnetwork can hold as many nodes as it must. With fewer nodes it
  always does in the end.
\<close>

definition assigned :: "DeclarationId set \<Rightarrow> Participant list \<Rightarrow> Subnetwork list \<Rightarrow> bool" where
  "assigned N ps ss \<longleftrightarrow>
     distinct (map declaration_id ps) \<and> declaration_id ` set ps = N \<and>
     distinct (map subnetwork_id ss) \<and> (\<forall>s \<in> set ss. participants s \<subseteq> N) \<and>
     (\<forall>p \<in> set ps. participation p = count_in (map participants ss) (declaration_id p))"

definition balanced :: "Subnetwork list \<Rightarrow> bool" where
  "balanced ss \<longleftrightarrow> (\<forall>s \<in> set ss. \<forall>t \<in> set ss. slen s \<le> slen t + 1)"

definition room :: "DeclarationId set \<Rightarrow> Subnetwork list \<Rightarrow> nat" where
  "room N ss = (\<Sum>s\<leftarrow>ss. card N - card (participants s))"

lemma count_in_mset: "count_in As d = int (size (filter_mset (\<lambda>A. d \<in> A) (mset As)))"
  by (simp add: count_in_def flip: mset_filter size_mset)

lemma count_in_Cons: "count_in (A # As) d = of_bool (d \<in> A) + count_in As d"
  by (simp add: count_in_def)

lemma count_in_le: "count_in As d \<le> int (length As)"
  by (simp add: count_in_def)

lemma count_in_full: "count_in As d = int (length As) \<longleftrightarrow> (\<forall>A \<in> set As. d \<in> A)"
proof (induction As)
  case (Cons A As)
  have "count_in As d \<le> int (length As)" by (rule count_in_le)
  with Cons show ?case by (auto simp: count_in_Cons)
qed (simp add: count_in_def)

lemma assigned_mset:
  assumes "mset ps = mset ps'" and "mset ss = mset ss'"
  shows "assigned N ps ss = assigned N ps' ss'"
proof -
  have "mset (map declaration_id ps) = mset (map declaration_id ps')"
      "mset (map subnetwork_id ss) = mset (map subnetwork_id ss')"
    using assms by simp_all
  then have "distinct (map declaration_id ps) = distinct (map declaration_id ps')"
      "distinct (map subnetwork_id ss) = distinct (map subnetwork_id ss')"
    by (metis mset_eq_imp_distinct_iff)+
  moreover have "set ps = set ps'" "set ss = set ss'" using assms by (metis mset_eq_setD)+
  ultimately show ?thesis by (simp add: assigned_def count_in_mset assms(2))
qed

lemma assigned_step:
  assumes "assigned N (p # ps) (s # ss)" and "declaration_id p \<notin> participants s"
  shows "assigned N (p\<lparr>participation := participation p + 1\<rparr> # ps)
    (s\<lparr>participants := insert (declaration_id p) (participants s)\<rparr> # ss)"
proof -
  let ?d = "declaration_id p"
  from assms(1) have ids: "distinct (?d # map declaration_id ps)" "insert ?d (declaration_id ` set ps) = N"
      "distinct (subnetwork_id s # map subnetwork_id ss)" "participants s \<subseteq> N" "\<forall>t \<in> set ss. participants t \<subseteq> N"
    and cnt: "participation p = count_in (participants s # map participants ss) ?d"
      "\<forall>q \<in> set ps. participation q = count_in (participants s # map participants ss) (declaration_id q)"
    by (simp_all add: assigned_def)
  have other: "declaration_id q \<noteq> ?d" if "q \<in> set ps" for q using ids(1) that by (metis distinct.simps(2) image_eqI set_map)
  have "insert ?d (participants s) \<subseteq> N" using ids(2,4) by blast
  moreover have "participation p + 1 = count_in (insert ?d (participants s) # map participants ss) ?d"
    using cnt(1) assms(2) by (simp add: count_in_Cons)
  moreover have "\<forall>q \<in> set ps. participation q = count_in (insert ?d (participants s) # map participants ss) (declaration_id q)"
    using cnt(2) other by (simp add: count_in_Cons)
  ultimately show ?thesis unfolding assigned_def using ids by simp
qed

lemma slen_insert:
  "finite (participants s) \<Longrightarrow> d \<notin> participants s \<Longrightarrow> slen (s\<lparr>participants := insert d (participants s)\<rparr>) = slen s + 1"
  by (simp add: slen_def)

lemma balanced_step:
  assumes "balanced (s # ss)" and "\<forall>t \<in> set ss. slen s \<le> slen t" and "slen s' = slen s + 1"
  shows "balanced (s' # ss)"
  using assms by (fastforce simp: balanced_def)

lemma room_step:
  assumes "participants s \<subseteq> N" and "finite N" and "d \<in> N" and "d \<notin> participants s"
  shows "room N (s\<lparr>participants := insert d (participants s)\<rparr> # ss) < room N (s # ss)"
proof -
  have "card (participants s) < card N" using assms by (intro psubset_card_mono) auto
  moreover have "finite (participants s)" using assms finite_subset by blast
  ultimately show ?thesis using assms(4) by (simp add: room_def)
qed

lemma room_mset: "mset ss = mset ss' \<Longrightarrow> room N ss = room N ss'"
  unfolding room_def by (metis mset_map sum_mset_sum_list)

text \<open>While the loop is not done, its smallest subnetwork lacks a node.\<close>

lemma smallest_lacks_node:
  assumes inv: "assigned N ps ss" and fin: "finite N" and ne: "ss \<noteq> []"
    and rf: "rf \<le> int (card N)" and avg: "avg \<le> int (length ss)"
    and go: "\<not> (subnetworks_filled_up_to_replication_factor ss rf \<and> all_nodes_assigned ps avg)"
    and s: "s \<in> set ss" and least: "\<forall>t \<in> set ss. slen s \<le> slen t"
  shows "\<exists>p \<in> set ps. declaration_id p \<notin> participants s"
proof -
  have sub: "participants t \<subseteq> N" if "t \<in> set ss" for t using inv that by (simp add: assigned_def)
  have "\<exists>t \<in> set ss. slen t < int (card N)"
  proof (cases "subnetworks_filled_up_to_replication_factor ss rf")
    case False
    then obtain t where "t \<in> set ss" "\<not> rf \<le> slen t"
      by (auto simp: subnetworks_filled_up_to_replication_factor_def list_all_iff)
    then show ?thesis using rf by (intro bexI [of _ t]) auto
  next
    case True
    with go obtain p where p: "p \<in> set ps" "participation p < avg"
      by (force simp: all_nodes_assigned_def list_all_iff)
    then have "count_in (map participants ss) (declaration_id p) < int (length (map participants ss))"
      using inv avg by (simp add: assigned_def)
    then obtain t where t: "t \<in> set ss" "declaration_id p \<notin> participants t"
      using count_in_full [of "map participants ss" "declaration_id p"] by auto
    moreover have "declaration_id p \<in> N" using inv p(1) by (auto simp: assigned_def)
    ultimately have "card (participants t) < card N" using sub [OF t(1)] fin by (intro psubset_card_mono) auto
    then show ?thesis using t(1) by (auto simp: slen_def)
  qed
  then obtain t where "t \<in> set ss" "slen t < int (card N)" by blast
  with least have "card (participants s) < card N" by (fastforce simp: slen_def)
  then have "\<not> N \<subseteq> participants s"
    using sub [OF s] by (metis order.irrefl subset_antisym)
  then show ?thesis using inv by (auto simp: assigned_def)
qed

text \<open>One round, for a subnetwork that lacks a node.\<close>

lemma fill_round_for:
  assumes inv: "assigned N ps ss" and fin: "finite N"
    and go: "\<not> (subnetworks_filled_up_to_replication_factor ss rf \<and> all_nodes_assigned ps avg)"
    and s: "heappop skey ss = Ok (s, remove1 s ss)" "s \<in> set ss" "\<forall>t \<in> set ss. skey s \<le> skey t"
    and lacks: "\<exists>p \<in> set ps. declaration_id p \<notin> participants s"
  shows "\<exists>ps' ss'. fill_subnetworks (Suc n) ps ss avg rf = fill_subnetworks n ps' ss' avg rf \<and>
    assigned N ps' ss' \<and> mset (map subnetwork_id ss') = mset (map subnetwork_id ss) \<and>
    room N ss' < room N ss \<and> (balanced ss \<longrightarrow> balanced ss')"
proof -
  define ss' where "ss' = remove1 s ss"
  from s have least: "\<forall>t \<in> set ss. slen s \<le> slen t" by (auto simp: skey_def less_eq_prod_def)
  from next_participant [OF lacks] obtain p ps' where
      p: "heappop_next_for_subnetwork s ps = Ok (p, ps')" "declaration_id p \<notin> participants s"
        "mset ps = add_mset p (mset ps')" by blast
  let ?s = "s\<lparr>participants := insert (declaration_id p) (participants s)\<rparr>"
  let ?ps = "p\<lparr>participation := participation p + 1\<rparr> # ps'" and ?ss = "?s # ss'"
  have mss: "mset ss = mset (s # ss')" using s(2) by (simp add: ss'_def)
  have pop: "heappop skey ss = Ok (s, ss')" using s(1) by (simp add: ss'_def)
  have mps: "mset ps = mset (p # ps')" using p(3) by simp
  have inv1: "assigned N (p # ps') (s # ss')" using inv assigned_mset [OF mps mss] by simp
  have sN: "participants s \<subseteq> N" using inv s(2) by (simp add: assigned_def)
  have pN: "declaration_id p \<in> N" using inv1 by (auto simp: assigned_def)
  have fs: "finite (participants s)" using sN fin finite_subset by blast
  have "fill_subnetworks (Suc n) ps ss avg rf = fill_subnetworks n ?ps ?ss avg rf"
    using go pop p(1) by (subst fill_subnetworks.simps) (auto simp: heappush_def)
  moreover have "assigned N ?ps ?ss" by (rule assigned_step [OF inv1 p(2)])
  moreover have "mset (map subnetwork_id ?ss) = mset (map subnetwork_id ss)"
  proof -
    have "mset (map subnetwork_id ?ss) = image_mset subnetwork_id (mset (s # ss'))" by simp
    then show ?thesis using mss by simp
  qed
  moreover have "room N ?ss < room N ss"
    using room_step [OF sN fin pN p(2), of "ss'"] room_mset [OF mss] by simp
  moreover have "balanced ss \<longrightarrow> balanced ?ss"
  proof
    assume "balanced ss"
    moreover have "set (s # ss') = set ss" using mss by (metis mset_eq_setD)
    ultimately have "balanced (s # ss')" by (simp add: balanced_def)
    moreover have "\<forall>t \<in> set (ss'). slen s \<le> slen t" using least mss by (metis mset_eq_setD set_subset_Cons subsetD)
    ultimately show "balanced ?ss" by (rule balanced_step) (rule slen_insert [OF fs p(2)])
  qed
  ultimately show ?thesis by blast
qed

lemma fill_round:
  assumes inv: "assigned N ps ss" and fin: "finite N" and ne: "ss \<noteq> []"
    and rf: "rf \<le> int (card N)" and avg: "avg \<le> int (length ss)"
    and go: "\<not> (subnetworks_filled_up_to_replication_factor ss rf \<and> all_nodes_assigned ps avg)"
  shows "\<exists>ps' ss'. fill_subnetworks (Suc n) ps ss avg rf = fill_subnetworks n ps' ss' avg rf \<and>
    assigned N ps' ss' \<and> mset (map subnetwork_id ss') = mset (map subnetwork_id ss) \<and>
    room N ss' < room N ss \<and> (balanced ss \<longrightarrow> balanced ss')"
proof -
  obtain s where s: "heappop skey ss = Ok (s, remove1 s ss)" "s \<in> set ss" "\<forall>t \<in> set ss. skey s \<le> skey t"
    using heappop_nonempty [OF ne, of skey] by blast
  then have least: "\<forall>t \<in> set ss. slen s \<le> slen t" by (auto simp: skey_def less_eq_prod_def)
  show ?thesis by (rule fill_round_for [OF inv fin go s smallest_lacks_node [OF inv fin ne rf avg go s(2) least]])
qed

theorem fill_returns:
  "assigned N ps ss \<Longrightarrow> finite N \<Longrightarrow> ss \<noteq> [] \<Longrightarrow> rf \<le> int (card N) \<Longrightarrow> avg \<le> int (length ss) \<Longrightarrow>
   room N ss \<le> n \<Longrightarrow>
   \<exists>ps' ss'. fill_subnetworks n ps ss avg rf = Ok (ps', ss') \<and> assigned N ps' ss' \<and>
     mset (map subnetwork_id ss') = mset (map subnetwork_id ss) \<and>
     subnetworks_filled_up_to_replication_factor ss' rf \<and> all_nodes_assigned ps' avg \<and>
     (balanced ss \<longrightarrow> balanced ss')"
proof (induction n arbitrary: ps ss)
  case 0
  show ?case
  proof (cases "subnetworks_filled_up_to_replication_factor ss rf \<and> all_nodes_assigned ps avg")
    case True
    then have "fill_subnetworks 0 ps ss avg rf = Ok (ps, ss)" by (subst fill_subnetworks.simps) simp
    with 0 True show ?thesis by blast
  next
    case False
    from fill_round [OF 0(1-5) False] obtain ss' where "room N ss' < room N ss" by blast
    with 0 show ?thesis by simp
  qed
next
  case (Suc n)
  show ?case
  proof (cases "subnetworks_filled_up_to_replication_factor ss rf \<and> all_nodes_assigned ps avg")
    case True
    then have "fill_subnetworks (Suc n) ps ss avg rf = Ok (ps, ss)" by (subst fill_subnetworks.simps) simp
    with Suc.prems True show ?thesis by blast
  next
    case False
    from fill_round [OF Suc.prems(1-5) False, of n] obtain ps1 ss1 where
        run: "fill_subnetworks (Suc n) ps ss avg rf = fill_subnetworks n ps1 ss1 avg rf"
        and inv1: "assigned N ps1 ss1" and ids: "mset (map subnetwork_id ss1) = mset (map subnetwork_id ss)"
        and room1: "room N ss1 < room N ss" and bal: "balanced ss \<longrightarrow> balanced ss1" by blast
    have len: "length ss1 = length ss" using ids by (metis length_map size_mset)
    have ne: "ss1 \<noteq> []" using len Suc.prems(3) by auto
    have "room N ss1 \<le> n" using room1 Suc.prems(6) by simp
    from Suc.IH [OF inv1 Suc.prems(2) ne Suc.prems(4) _ this] Suc.prems(5) len ids bal run show ?thesis
      by (metis (no_types, lifting))
  qed
qed

text \<open>
  With fewer nodes than the replication factor no subnetwork can be filled. The loop goes on until
  its smallest subnetwork holds every node, and then the heap of the nodes runs empty.
\<close>

lemma never_filled:
  assumes "assigned N ps ss" and "finite N" and "ss \<noteq> []" and "int (card N) < rf"
  shows "\<not> subnetworks_filled_up_to_replication_factor ss rf"
proof -
  obtain s where s: "s \<in> set ss" using assms(3) by (cases ss) auto
  then have "participants s \<subseteq> N" using assms(1) by (simp add: assigned_def)
  then have "slen s \<le> int (card N)" using assms(2) by (simp add: slen_def card_mono)
  with s assms(4) show ?thesis
    by (force simp: subnetworks_filled_up_to_replication_factor_def list_all_iff)
qed

theorem fill_too_few_nodes:
  "assigned N ps ss \<Longrightarrow> finite N \<Longrightarrow> ss \<noteq> [] \<Longrightarrow> int (card N) < rf \<Longrightarrow> room N ss < n \<Longrightarrow>
   fill_subnetworks n ps ss avg rf = Err IndexError"
proof (induction n arbitrary: ps ss)
  case (Suc n)
  obtain s where s: "heappop skey ss = Ok (s, remove1 s ss)" "s \<in> set ss" "\<forall>t \<in> set ss. skey s \<le> skey t"
    using heappop_nonempty [OF Suc.prems(3), of skey] by blast
  have go: "\<not> (subnetworks_filled_up_to_replication_factor ss rf \<and> all_nodes_assigned ps avg)"
    using never_filled [OF Suc.prems(1-4)] by simp
  show ?case
  proof (cases "\<exists>p \<in> set ps. declaration_id p \<notin> participants s")
    case True
    from fill_round_for [OF Suc.prems(1,2) go s True, of n] obtain ps1 ss1 where
        run: "fill_subnetworks (Suc n) ps ss avg rf = fill_subnetworks n ps1 ss1 avg rf"
        and inv1: "assigned N ps1 ss1" and ids: "mset (map subnetwork_id ss1) = mset (map subnetwork_id ss)"
        and room1: "room N ss1 < room N ss" by blast
    have "length ss1 = length ss" using ids by (metis length_map size_mset)
    then have "ss1 \<noteq> []" using Suc.prems(3) by auto
    moreover have "room N ss1 < n" using room1 Suc.prems(5) by simp
    ultimately show ?thesis using Suc.IH [OF inv1 Suc.prems(2)] Suc.prems(4) run by simp
  next
    case False
    then have "heappop_next_for_subnetwork s ps = Err IndexError" by (intro no_next_participant) blast
    then show ?thesis using go s(1) by (subst fill_subnetworks.simps) auto
  qed
qed simp

end
