(* ===== verification/Refill_Balance.thy ===== *)
theory Refill_Balance
  imports Refill_Fill
begin

text \<open>
  Balancing the subnetworks, before they are filled. \<open>shuffles\<close> is the hypothesis on the random
  generator: a shuffle of a list returns every element once. Shrinking moves nodes from the largest
  to the smallest subnetwork until the sizes differ by at most one; the sum of the squared sizes
  drops in every round. Growing takes nodes out of subnetworks until none is in more than the
  average number of them.
\<close>

definition shuffles :: "'r RefillEnv \<Rightarrow> bool" where
  "shuffles E \<longleftrightarrow> (\<forall>rng n. mset (fst (shuffle_order E rng n)) = mset [0..<n])"

lemma sample_mset:
  assumes "shuffles E" and "sample E key xs k rng = (zs, rng')" and "0 \<le> k"
  shows "mset zs \<subseteq># mset xs" and "length zs = min (nat k) (length xs)"
proof -
  let ?ys = "sort_key key xs"
  obtain order where ord: "shuffle_order E rng (length ?ys) = (order, rng')"
      and zs: "zs = take (nat k) (map (\<lambda>i. ?ys ! i) order)"
    using assms(2,3) by (auto simp: sample_def slice_to_def Let_def split: prod.splits)
  have "mset order = mset [0..<length ?ys]" using assms(1) ord unfolding shuffles_def by (metis fst_conv)
  then have m: "mset (map (\<lambda>i. ?ys ! i) order) = mset (map (\<lambda>i. ?ys ! i) [0..<length ?ys])"
    by (metis mset_map)
  then have m': "mset (map (\<lambda>i. ?ys ! i) order) = mset xs"
    by (simp only: map_nth mset_sort)
  have "mset (map (\<lambda>i. ?ys ! i) order) = mset zs + mset (drop (nat k) (map (\<lambda>i. ?ys ! i) order))"
    unfolding zs by (metis append_take_drop_id mset_append)
  then show "mset zs \<subseteq># mset xs" unfolding m' by simp
  have "length order = length xs" using m' by (metis length_map size_mset)
  then show "length zs = min (nat k) (length xs)" by (simp add: zs min.commute)
qed

lemma ids_update [simp]: "map subnetwork_id (update_subnetwork i g ss) = map subnetwork_id ss"
  by (induction ss) (auto simp: update_subnetwork_def)

lemma update_mset:
  assumes "mset ss = mset (s # R)" and "distinct (map subnetwork_id ss)"
  shows "mset (update_subnetwork (subnetwork_id s) g ss) = mset (s\<lparr>participants := g (participants s)\<rparr> # R)"
proof -
  let ?f = "\<lambda>t. if subnetwork_id t = subnetwork_id s then t\<lparr>participants := g (participants t)\<rparr> else t"
  have "mset (map subnetwork_id ss) = mset (map subnetwork_id (s # R))" using assms(1) by simp
  then have "distinct (map subnetwork_id (s # R))" using assms(2) by (metis mset_eq_imp_distinct_iff)
  then have "map ?f R = R" by (intro map_idI) (auto simp: image_iff)
  moreover have "mset (map ?f ss) = mset (map ?f (s # R))" using assms(1) by simp
  ultimately show ?thesis by (simp add: update_subnetwork_def)
qed

section \<open>Shrinking\<close>

definition energy :: "Subnetwork list \<Rightarrow> nat" where
  "energy ss = (\<Sum>s\<leftarrow>ss. card (participants s) * card (participants s))"

lemma energy_mset: "mset ss = mset ss' \<Longrightarrow> energy ss = energy ss'"
  unfolding energy_def by (simp flip: sum_mset_sum_list)

lemma max_subnetwork_eq:
  assumes "ss \<noteq> []"
  shows "\<exists>s \<in> set ss. max_subnetwork ss = Ok s \<and> (\<forall>t \<in> set ss. skey t \<le> skey s)"
proof -
  let ?ys = "sort_key skey ss"
  have ne: "?ys \<noteq> []" using assms by (metis mset_sort mset_zero_iff)
  then have l: "last ?ys \<in> set ss" by (metis last_in_set set_sort)
  have "skey t \<le> skey (last ?ys)" if "t \<in> set ss" for t
  proof -
    have "sorted (map skey (butlast ?ys @ [last ?ys]))" using sorted_sort_key [of skey ss] ne by simp
    moreover have "t \<in> set (butlast ?ys @ [last ?ys])" using that ne by simp
    ultimately show ?thesis by (auto simp: sorted_append)
  qed
  with l show ?thesis using assms by (auto simp: max_subnetwork_def)
qed

lemma min_subnetwork_eq:
  "ss \<noteq> [] \<Longrightarrow> \<exists>s \<in> set ss. min_subnetwork ss = Ok s \<and> (\<forall>t \<in> set ss. skey s \<le> skey t)"
  using arg_min_list_least [of ss skey] by (auto simp: min_subnetwork_def)

lemma move_squares:
  fixes a b d :: nat
  assumes "1 \<le> d" and "b + 2 * d \<le> a"
  shows "(a - d) * (a - d) + (b + d) * (b + d) < a * a + b * b"
proof -
  define c where "c = a - b - 2 * d"
  have a: "a = b + 2 * d + c" using assms(2) by (simp add: c_def)
  have ad: "a - d = b + d + c" using a by simp
  have "(b + d + c) * (b + d + c) + (b + d) * (b + d) + (2 * (d * d) + 2 * (d * c)) =
      (b + 2 * d + c) * (b + 2 * d + c) + b * b" by algebra
  moreover have "0 < 2 * (d * d)" using assms(1) by simp
  ultimately have "(b + d + c) * (b + d + c) + (b + d) * (b + d) < (b + 2 * d + c) * (b + 2 * d + c) + b * b"
    by linarith
  then show ?thesis unfolding ad unfolding a .
qed

lemma assigned_move:
  assumes "assigned N ps (mx # mn # R)" and "M \<subseteq> participants mx - participants mn"
  shows "assigned N ps (mx\<lparr>participants := participants mx - M\<rparr> # mn\<lparr>participants := participants mn \<union> M\<rparr> # R)"
proof -
  have "count_in ((participants mx - M) # (participants mn \<union> M) # As) x =
      count_in (participants mx # participants mn # As) x" for x As
    using assms(2) by (auto simp: count_in_Cons)
  moreover have "participants mx - M \<subseteq> N" "participants mn \<union> M \<subseteq> N"
    using assms by (auto simp: assigned_def)
  ultimately show ?thesis using assms(1) by (simp add: assigned_def)
qed

lemma shrink_round:
  assumes inv: "assigned N ps ss" and fin: "finite N" and sh: "shuffles E"
    and mx: "mx \<in> set ss" "max_subnetwork ss = Ok mx" and mn: "mn \<in> set ss" "min_subnetwork ss = Ok mn"
    and go: "slen mx - slen mn > 1"
  shows "\<exists>ss' rng'. balance_subnetworks_shrink E (Suc n) ss rng = balance_subnetworks_shrink E n ss' rng' \<and>
    assigned N ps ss' \<and> map subnetwork_id ss' = map subnetwork_id ss \<and> energy ss' < energy ss"
proof -
  let ?d = "(slen mx - slen mn) div 2"
  let ?D = "participants mx - participants mn"
  have sub: "participants mx \<subseteq> N" "participants mn \<subseteq> N" using inv mx mn by (auto simp: assigned_def)
  then have finD: "finite (participants mx)" "finite (participants mn)" using fin finite_subset by blast+
  obtain M rng' where smp: "sample E id (sorted_list_of_set ?D) ?d rng = (M, rng')"
    by (cases "sample E id (sorted_list_of_set ?D) ?d rng")
  have d: "1 \<le> ?d" "slen mn + 2 * ?d \<le> slen mx" using go by linarith+
  then have "0 \<le> ?d" by simp
  note s = sample_mset [OF sh smp this]
  have MD: "set M \<subseteq> ?D"
    using set_mset_mono [OF s(1)] finD by simp
  have distM: "distinct M"
    using s(1) distinct_sorted_list_of_set by (metis distinct_append mset_subset_eq_exists_conv
        mset_append ex_mset mset_eq_imp_distinct_iff)
  have "slen mx - slen mn \<le> int (card ?D)"
  proof -
    have "card (participants mx) \<le> card (?D \<union> participants mn)" using finD by (intro card_mono) auto
    also have "\<dots> \<le> card ?D + card (participants mn)" by (rule card_Un_le)
    finally show ?thesis by (simp add: slen_def)
  qed
  then have "length M = nat ?d" using s(2) d by simp
  then have cardM: "card (set M) = nat ?d" using distinct_card [OF distM] by simp
  let ?mx = "mx\<lparr>participants := participants mx - set M\<rparr>" and ?mn = "mn\<lparr>participants := participants mn \<union> set M\<rparr>"
  have ne: "mx \<noteq> mn" using go by auto
  then obtain R where R: "mset ss = mset (mn # mx # R)"
    using mx(1) mn(1) by (metis ex_mset insert_DiffM insert_noteq_member mset.simps(2) set_mset_mset)
  have dist: "distinct (map subnetwork_id ss)" using inv by (simp add: assigned_def)
  let ?ss1 = "update_subnetwork (subnetwork_id mn) (\<lambda>A. A \<union> set M) ss"
  let ?ss2 = "update_subnetwork (subnetwork_id mx) (\<lambda>A. A - set M) ?ss1"
  have "mset ?ss1 = mset (mx # ?mn # R)" using update_mset [OF R dist, of "\<lambda>A. A \<union> set M"] by simp
  from update_mset [OF this, of "\<lambda>A. A - set M"] dist have m2: "mset ?ss2 = mset (?mx # ?mn # R)" by simp
  have R': "mset ss = mset (mx # mn # R)" using R by simp
  have "assigned N ps (mx # mn # R)" using inv assigned_mset [OF refl R'] by simp
  from assigned_move [OF this MD] have inv2: "assigned N ps ?ss2" using assigned_mset [OF refl m2] by simp
  have cards: "card (participants mx - set M) = card (participants mx) - nat ?d"
      "card (participants mn \<union> set M) = card (participants mn) + nat ?d"
  proof -
    show "card (participants mx - set M) = card (participants mx) - nat ?d"
      using MD cardM by (subst card_Diff_subset) auto
    show "card (participants mn \<union> set M) = card (participants mn) + nat ?d"
      using MD cardM finD by (subst card_Un_disjoint) auto
  qed
  have "(card (participants mx) - nat ?d) * (card (participants mx) - nat ?d) +
      (card (participants mn) + nat ?d) * (card (participants mn) + nat ?d) <
      card (participants mx) * card (participants mx) + card (participants mn) * card (participants mn)"
    by (rule move_squares) (use d in \<open>auto simp: slen_def\<close>)
  then have "energy (?mx # ?mn # R) < energy (mx # mn # R)" by (simp add: energy_def cards)
  then have en: "energy ?ss2 < energy ss" using energy_mset [OF m2] energy_mset [OF R'] by simp
  have "balance_subnetworks_shrink E (Suc n) ss rng = balance_subnetworks_shrink E n ?ss2 rng'"
    using mx(2) mn(2) go smp by (subst balance_subnetworks_shrink.simps) (simp add: Let_def)
  with inv2 en show ?thesis by (intro exI [of _ ?ss2] exI [of _ rng']) simp
qed

lemma shrink_returns:
  "assigned N ps ss \<Longrightarrow> finite N \<Longrightarrow> shuffles E \<Longrightarrow> ss \<noteq> [] \<Longrightarrow> energy ss \<le> n \<Longrightarrow>
   \<exists>ss' rng'. balance_subnetworks_shrink E n ss rng = Ok (ss', rng') \<and> assigned N ps ss' \<and>
     map subnetwork_id ss' = map subnetwork_id ss \<and> balanced ss'"
proof (induction n arbitrary: ss rng)
  case (0 ss rng)
  obtain mx where mx: "mx \<in> set ss" "max_subnetwork ss = Ok mx" "\<forall>t \<in> set ss. skey t \<le> skey mx"
    using max_subnetwork_eq [OF 0(4)] by blast
  obtain mn where mn: "mn \<in> set ss" "min_subnetwork ss = Ok mn" "\<forall>t \<in> set ss. skey mn \<le> skey t"
    using min_subnetwork_eq [OF 0(4)] by blast
  have "\<not> slen mx - slen mn > 1"
    using shrink_round [OF 0(1-3) mx(1,2) mn(1,2), of 0 rng] 0(5) by auto
  moreover from this have "balanced ss" using mx(3) mn(3) by (fastforce simp: balanced_def skey_def less_eq_prod_def)
  ultimately show ?case using mx mn 0 by (subst balance_subnetworks_shrink.simps) auto
next
  case (Suc n)
  obtain mx where mx: "mx \<in> set ss" "max_subnetwork ss = Ok mx" "\<forall>t \<in> set ss. skey t \<le> skey mx"
    using max_subnetwork_eq [OF Suc.prems(4)] by blast
  obtain mn where mn: "mn \<in> set ss" "min_subnetwork ss = Ok mn" "\<forall>t \<in> set ss. skey mn \<le> skey t"
    using min_subnetwork_eq [OF Suc.prems(4)] by blast
  show ?case
  proof (cases "slen mx - slen mn > 1")
    case True
    from shrink_round [OF Suc.prems(1-3) mx(1,2) mn(1,2) True, of n rng] obtain ss' rng' where
        step: "balance_subnetworks_shrink E (Suc n) ss rng = balance_subnetworks_shrink E n ss' rng'"
        "assigned N ps ss'" "map subnetwork_id ss' = map subnetwork_id ss" "energy ss' < energy ss" by blast
    have "ss' \<noteq> []" using step(3) Suc.prems(4) by auto
    moreover have "energy ss' \<le> n" using step(4) Suc.prems(5) by simp
    ultimately show ?thesis using Suc.IH [OF step(2) Suc.prems(2,3), of rng'] step by simp
  next
    case False
    then have "balanced ss" using mx(3) mn(3) by (fastforce simp: balanced_def skey_def less_eq_prod_def)
    with False show ?thesis using mx mn Suc.prems by (subst balance_subnetworks_shrink.simps) auto
  qed
qed

section \<open>Growing\<close>

lemma leave_one:
  assumes inv: "distinct (map subnetwork_id ss)" and c: "c \<in> set ss" and d: "d \<in> participants c"
  shows "count_in (map participants (update_subnetwork (subnetwork_id c) (\<lambda>A. A - {d}) ss)) x =
    count_in (map participants ss) x - of_bool (x = d)"
proof -
  from c obtain R where R: "mset ss = mset (c # R)" by (metis ex_mset multi_member_split set_mset_mset mset.simps(2))
  have eq: "count_in (map participants xs) x = count_in (map participants ys) x" if "mset xs = mset ys" for xs ys
    using that by (simp add: count_in_mset)
  have "count_in (map participants (update_subnetwork (subnetwork_id c) (\<lambda>A. A - {d}) ss)) x =
      count_in (map participants (c\<lparr>participants := participants c - {d}\<rparr> # R)) x"
    by (rule eq [OF update_mset [OF R inv]])
  moreover have "count_in (map participants ss) x = count_in (map participants (c # R)) x" by (rule eq [OF R])
  ultimately show ?thesis using d by (auto simp: count_in_Cons)
qed

lemma update_subset:
  "\<forall>s \<in> set ss. participants s \<subseteq> N \<Longrightarrow> \<forall>s \<in> set (update_subnetwork i (\<lambda>A. A - {d}) ss). participants s \<subseteq> N"
  by (fastforce simp: update_subnetwork_def)

lemma leave_all:
  assumes "distinct (map subnetwork_id ss)" and "distinct (map subnetwork_id cs)"
    and "\<forall>c \<in> set cs. c \<in> set ss \<and> d \<in> participants c" and "\<forall>s \<in> set ss. participants s \<subseteq> N"
  shows "map subnetwork_id (leave_subnetworks d cs ss) = map subnetwork_id ss \<and>
    (\<forall>s \<in> set (leave_subnetworks d cs ss). participants s \<subseteq> N) \<and>
    count_in (map participants (leave_subnetworks d cs ss)) x =
      count_in (map participants ss) x - (if x = d then int (length cs) else 0)"
  using assms
proof (induction cs arbitrary: ss)
  case (Cons c cs)
  let ?ss = "update_subnetwork (subnetwork_id c) (\<lambda>A. A - {d}) ss"
  have "e \<in> set ?ss" if "e \<in> set cs" for e
  proof -
    have "subnetwork_id e \<noteq> subnetwork_id c" using Cons.prems(2) that by (metis distinct.simps(2) image_eqI list.simps(9) set_map)
    moreover have "e \<in> set ss" using Cons.prems(3) that by simp
    ultimately show ?thesis by (force simp: update_subnetwork_def)
  qed
  then have "\<forall>c \<in> set cs. c \<in> set ?ss \<and> d \<in> participants c" using Cons.prems(3) by simp
  with Cons.IH [of ?ss] Cons.prems update_subset [OF Cons.prems(4)] leave_one [OF Cons.prems(1), of c d x]
  show ?case by auto
qed simp

lemma grow_step:
  assumes inv: "assigned N ps ss" and p: "p \<in> set ps" and d: "d = declaration_id p"
    and cs: "mset cs \<subseteq># mset (filter (\<lambda>s. d \<in> participants s) ss)"
  shows "assigned N (map (\<lambda>q. if declaration_id q = d then q\<lparr>participation := participation q - int (length cs)\<rparr> else q) ps)
      (leave_subnetworks d cs ss) \<and>
    map subnetwork_id (leave_subnetworks d cs ss) = map subnetwork_id ss"
proof -
  have ids: "distinct (map subnetwork_id ss)" and sub: "\<forall>s \<in> set ss. participants s \<subseteq> N"
    using inv by (simp_all add: assigned_def)
  have "\<forall>c \<in> set cs. c \<in> set ss \<and> d \<in> participants c"
    using set_mset_mono [OF cs] by auto
  moreover have "distinct (map subnetwork_id cs)"
  proof -
    obtain rest where "mset (filter (\<lambda>s. d \<in> participants s) ss) = mset (cs @ rest)"
      using cs by (metis ex_mset mset_append mset_subset_eq_exists_conv)
    then have "mset (map subnetwork_id (filter (\<lambda>s. d \<in> participants s) ss)) = mset (map subnetwork_id (cs @ rest))"
      by (metis mset_map)
    moreover have "distinct (map subnetwork_id (filter (\<lambda>s. d \<in> participants s) ss))"
      using ids by (rule distinct_map_filter)
    ultimately have "distinct (map subnetwork_id (cs @ rest))" by (metis mset_eq_imp_distinct_iff)
    then show ?thesis by simp
  qed
  ultimately have all: "map subnetwork_id (leave_subnetworks d cs ss) = map subnetwork_id ss"
      "\<forall>s \<in> set (leave_subnetworks d cs ss). participants s \<subseteq> N"
      "\<And>x. count_in (map participants (leave_subnetworks d cs ss)) x =
        count_in (map participants ss) x - (if x = d then int (length cs) else 0)"
    using leave_all [OF ids _ _ sub] by blast+
  let ?ps = "map (\<lambda>q. if declaration_id q = d then q\<lparr>participation := participation q - int (length cs)\<rparr> else q) ps"
  have m: "map declaration_id ?ps = map declaration_id ps" by simp
  have "distinct (map declaration_id ?ps)" unfolding m using inv by (simp add: assigned_def)
  moreover have "declaration_id ` set ?ps = N"
    unfolding set_map [symmetric] m using inv by (simp add: assigned_def)
  moreover have "\<forall>q \<in> set ?ps. participation q = count_in (map participants (leave_subnetworks d cs ss)) (declaration_id q)"
  proof
    fix q'
    assume "q' \<in> set ?ps"
    then obtain q where q: "q \<in> set ps"
      "q' = (if declaration_id q = d then q\<lparr>participation := participation q - int (length cs)\<rparr> else q)" by auto
    have "participation q = count_in (map participants ss) (declaration_id q)" using inv q(1) by (simp add: assigned_def)
    then show "participation q' = count_in (map participants (leave_subnetworks d cs ss)) (declaration_id q')"
      using q(2) all(3) by simp
  qed
  moreover have "distinct (map subnetwork_id (leave_subnetworks d cs ss))" unfolding all(1) by (rule ids)
  ultimately show ?thesis using all(1,2) unfolding assigned_def by (intro conjI)
qed

lemma grow_loop_spec:
  assumes "assigned N ps ss" and "shuffles E" and "grow_loop E avg todo ss ps rng = (ss', ps', rng')"
    and "set todo \<subseteq> set ps" and "distinct (map declaration_id todo)" and "0 \<le> avg"
    and "\<forall>q \<in> set ps. q \<in> set todo \<or> participation q \<le> avg"
  shows "assigned N ps' ss' \<and> map subnetwork_id ss' = map subnetwork_id ss \<and>
    (\<forall>q' \<in> set ps'. \<exists>q \<in> set ps. declaration_id q' = declaration_id q \<and> participation q' = min avg (participation q))"
  using assms
proof (induction todo arbitrary: ss ps rng)
  case (Cons p todo)
  note inv = Cons.prems(1) and sh = Cons.prems(2)
  have p: "p \<in> set ps" "set todo \<subseteq> set ps" using Cons.prems(4) by auto
  show ?case
  proof (cases "participation p > avg")
    case False
    with Cons.prems have run: "grow_loop E avg todo ss ps rng = (ss', ps', rng')"
      and "\<forall>q \<in> set ps. q \<in> set todo \<or> participation q \<le> avg" by auto
    with Cons.IH [OF inv sh run p(2)] Cons.prems(5,6) show ?thesis by simp
  next
    case True
    let ?d = "declaration_id p"
    obtain cs rng1 where smp: "sample E skey (sort_key skey (filter (\<lambda>s. ?d \<in> participants s) ss))
        (participation p - avg) rng = (cs, rng1)"
      by (cases "sample E skey (sort_key skey (filter (\<lambda>s. ?d \<in> participants s) ss)) (participation p - avg) rng")
    have "0 \<le> participation p - avg" using True by simp
    note sm = sample_mset [OF sh smp this]
    let ?ps = "map (\<lambda>q. if declaration_id q = ?d then q\<lparr>participation := participation q - int (length cs)\<rparr> else q) ps"
    let ?ss = "leave_subnetworks ?d cs ss"
    from sm(1) have "mset cs \<subseteq># mset (filter (\<lambda>s. ?d \<in> participants s) ss)" by simp
    from grow_step [OF inv p(1) refl this] have inv1: "assigned N ?ps ?ss"
      and ids: "map subnetwork_id ?ss = map subnetwork_id ss" by blast+
    have run: "grow_loop E avg todo ?ss ?ps rng1 = (ss', ps', rng')"
      using Cons.prems(3) True smp by (simp add: Let_def)
    have "participation p = int (length (filter (\<lambda>s. ?d \<in> participants s) ss))"
      using inv p(1) by (simp add: assigned_def count_in_def filter_map o_def)
    then have len: "int (length cs) = participation p - avg" using sm(2) True Cons.prems(6) by simp
    have same: "q = p" if "q \<in> set ps" "declaration_id q = ?d" for q
      using that p(1) inv by (auto simp: assigned_def distinct_map inj_on_def)
    have other: "declaration_id q \<noteq> ?d" if "q \<in> set todo" for q
      using Cons.prems(5) that by (metis distinct.simps(2) image_eqI list.simps(9) set_map)
    have sub: "set todo \<subseteq> set ?ps"
    proof
      fix q assume "q \<in> set todo"
      with other p(2) show "q \<in> set ?ps" by (force simp: image_iff)
    qed
    have small: "\<forall>q \<in> set ?ps. q \<in> set todo \<or> participation q \<le> avg"
    proof
      fix q'
      assume "q' \<in> set ?ps"
      then obtain q where q: "q \<in> set ps"
        "q' = (if declaration_id q = ?d then q\<lparr>participation := participation q - int (length cs)\<rparr> else q)" by auto
      show "q' \<in> set todo \<or> participation q' \<le> avg"
      proof (cases "declaration_id q = ?d")
        case True
        then have "participation q' = avg" using same [OF q(1)] q(2) len by simp
        then show ?thesis by simp
      next
        case False
        then have "q' = q" "q \<noteq> p" using q(2) by auto
        then show ?thesis using Cons.prems(7) q(1) by auto
      qed
    qed
    have "distinct (map declaration_id todo)" using Cons.prems(5) by simp
    from Cons.IH [OF inv1 sh run sub this Cons.prems(6) small]
    have fin: "assigned N ps' ss'" "map subnetwork_id ss' = map subnetwork_id ?ss"
      and caps: "\<forall>q' \<in> set ps'. \<exists>q1 \<in> set ?ps. declaration_id q' = declaration_id q1 \<and> participation q' = min avg (participation q1)"
      by blast+
    have cap: "\<exists>q \<in> set ps. declaration_id q1 = declaration_id q \<and> min avg (participation q1) = min avg (participation q)"
      if q1: "q1 \<in> set ?ps" for q1
    proof -
      from q1 obtain q where q: "q \<in> set ps"
        "q1 = (if declaration_id q = ?d then q\<lparr>participation := participation q - int (length cs)\<rparr> else q)" by auto
      have "min avg (participation q1) = min avg (participation q)"
      proof (cases "declaration_id q = ?d")
        case True
        then show ?thesis using same [OF q(1)] q(2) len \<open>participation p > avg\<close> by simp
      qed (use q(2) in simp)
      moreover have "declaration_id q1 = declaration_id q" using q(2) by simp
      ultimately show ?thesis using q(1) by (intro bexI [of _ q] conjI)
    qed
    have "\<forall>q' \<in> set ps'. \<exists>q \<in> set ps. declaration_id q' = declaration_id q \<and> participation q' = min avg (participation q)"
    proof
      fix q' assume "q' \<in> set ps'"
      with caps obtain q1 where "q1 \<in> set ?ps" "declaration_id q' = declaration_id q1"
        "participation q' = min avg (participation q1)" by blast
      with cap [of q1] show "\<exists>q \<in> set ps. declaration_id q' = declaration_id q \<and> participation q' = min avg (participation q)"
        by auto
    qed
    then show ?thesis using fin ids by simp
  qed
next
  case Nil
  then have "assigned N ps' ss' \<and> map subnetwork_id ss' = map subnetwork_id ss \<and> ps' = ps"
    and "\<forall>q \<in> set ps'. participation q \<le> avg" by simp_all
  then show ?case by (metis min.absorb2)
qed

lemma grow_returns:
  assumes "assigned N ps ss" and "shuffles E" and "0 \<le> avg"
    and "balance_subnetworks_grow E ss ps avg rng = (ss', ps', rng')"
  shows "assigned N ps' ss' \<and> map subnetwork_id ss' = map subnetwork_id ss \<and>
    (\<forall>q' \<in> set ps'. \<exists>q \<in> set ps. declaration_id q' = declaration_id q \<and> participation q' = min avg (participation q))"
proof -
  have "distinct (map declaration_id (sort_key pkey ps))"
    using assms(1) by (metis assigned_def mset_eq_imp_distinct_iff mset_map mset_sort)
  then show ?thesis
    using assms(4) by (intro grow_loop_spec [OF assms(1,2) _ _ _ assms(3), of "sort_key pkey ps" rng])
      (auto simp: balance_subnetworks_grow_def)
qed

end
