(* ===== verification/Refill_Properties.thy ===== *)
theory Refill_Properties
  imports Refill_Balance
begin

text \<open>
  The properties of the assignment of nodes to subnetworks, for every random generator that
  shuffles properly, with witnesses for one that does not shuffle at all.
\<close>

section \<open>The state the algorithm starts from\<close>

lemma enum_participants: "map participants (enum_subnetworks i As) = As"
  by (induction As arbitrary: i) simp_all

lemma enum_ids: "map subnetwork_id (enum_subnetworks i As) = map (\<lambda>k. i + int k) [0..<length As]"
proof (induction As arbitrary: i)
  case (Cons A As)
  have "map (\<lambda>k. i + int k) [0..<length (A # As)] = i # map (\<lambda>k. i + int (Suc k)) [0..<length As]"
    by (simp add: map_Suc_upt [symmetric] o_def del: upt_Suc upt_conv_Cons)
       (simp add: upt_conv_Cons map_Suc_upt [symmetric] o_def del: upt_Suc)
  with Cons show ?case by (simp add: algebra_simps)
qed simp

lemma enum_distinct: "distinct (map subnetwork_id (enum_subnetworks i As))"
  unfolding enum_ids by (simp add: distinct_map inj_on_def)

lemma length_enum [simp]: "length (enum_subnetworks i As) = length As"
  by (induction As arbitrary: i) simp_all

lemma initial_assigned:
  assumes "As = map (\<lambda>A. A - (\<Union> (set prev) - set nodes)) prev"
  shows "assigned (set nodes) (map (\<lambda>d. \<lparr>participation = count_in As d, declaration_id = d\<rparr>) (remdups nodes))
    (enum_subnetworks 0 As)"
proof -
  have "\<forall>A \<in> set As. A \<subseteq> set nodes" using assms by auto
  then have "\<forall>s \<in> set (enum_subnetworks 0 As). participants s \<subseteq> set nodes"
    using enum_participants [of 0 As] by (metis image_eqI set_map)
  moreover have "distinct (map declaration_id (map (\<lambda>d. \<lparr>participation = count_in As d, declaration_id = d\<rparr>) (remdups nodes)))"
    by (simp add: o_def)
  moreover have "declaration_id ` set (map (\<lambda>d. \<lparr>participation = count_in As d, declaration_id = d\<rparr>) (remdups nodes)) = set nodes"
    by (auto simp: image_iff)
  ultimately show ?thesis using enum_distinct unfolding assigned_def by (simp add: enum_participants)
qed

lemma card_bound: "assigned N ps ss \<Longrightarrow> finite N \<Longrightarrow> s \<in> set ss \<Longrightarrow> card (participants s) \<le> card N"
  by (simp add: assigned_def card_mono)

lemma energy_bound:
  assumes "assigned N ps ss" and "finite N"
  shows "energy ss \<le> length ss * (card N * card N)"
proof -
  have "energy ss \<le> (\<Sum>s\<leftarrow>ss. card N * card N)"
    unfolding energy_def using card_bound [OF assms] by (intro sum_list_mono mult_le_mono) auto
  then show ?thesis by (simp add: sum_list_triv)
qed

lemma room_bound: "0 < card N \<Longrightarrow> room N ss \<le> length ss * (card N * card N)"
proof -
  assume c: "0 < card N"
  have "room N ss \<le> (\<Sum>s\<leftarrow>ss. card N * card N)"
    unfolding room_def
  proof (rule sum_list_mono)
    fix s
    have "card N - card (participants s) \<le> card N * 1" by simp
    also have "\<dots> \<le> card N * card N" using c by (intro mult_le_mono2) simp
    finally show "card N - card (participants s) \<le> card N * card N" .
  qed
  then show ?thesis by (simp add: sum_list_triv)
qed

text \<open>What the whole function returns, with what its first phase left.\<close>

definition average_participation :: "int \<Rightarrow> int \<Rightarrow> int \<Rightarrow> int" where
  "average_participation subnets rf nodes = max ((subnets * rf) div nodes) 1"

lemma average_le: "rf \<le> nodes \<Longrightarrow> 0 < nodes \<Longrightarrow> 1 \<le> subnets \<Longrightarrow> average_participation subnets rf nodes \<le> subnets"
proof -
  assume rf: "rf \<le> nodes" and n: "0 < nodes" and s: "1 \<le> subnets"
  have "(subnets * rf) div nodes \<le> (subnets * nodes) div nodes"
    using rf n s by (intro zdiv_mono1 mult_left_mono) auto
  then show ?thesis using n s by (simp add: average_participation_def)
qed

lemma sort_ids_same_set: "set (map participants (sort_key subnetwork_id ss)) = participants ` set ss"
  by simp

lemma count_in_sorted: "count_in (map participants (sort_key subnetwork_id ss)) d = count_in (map participants ss) d"
  by (simp add: count_in_mset)

lemma assigned_participant:
  assumes "assigned N ps ss" and "d \<in> N"
  obtains p where "p \<in> set ps" and "declaration_id p = d"
proof -
  have "declaration_id ` set ps = N" using assms(1) by (simp add: assigned_def)
  with assms(2) have "d \<in> declaration_id ` set ps" by (simp only:)
  then show ?thesis using that by auto
qed

lemma assigned_participation:
  "assigned N ps ss \<Longrightarrow> p \<in> set ps \<Longrightarrow> participation p = count_in (map participants ss) (declaration_id p)"
  by (simp add: assigned_def)

text \<open>The first phase, up to the loop that fills the subnetworks.\<close>

lemma balancing_returns:
  assumes sh: "shuffles E" and ne: "nodes \<noteq> []" "prev \<noteq> []"
    and n: "length prev * (length nodes * length nodes) \<le> n"
  shows "\<exists>ps ss rng. assignations_body E n nodes prev rf (seed_rng E seed) =
      (bind_res (fill_subnetworks n ps ss (average_participation (int (length prev)) rf (int (length nodes))) rf)
         (\<lambda>(_, ss). Ok (map participants (sort_key subnetwork_id ss))), rng) \<and>
    assigned (set nodes) ps ss \<and> length ss = length prev \<and>
    (card (\<Union> (set prev)) > card (set nodes) \<longrightarrow> balanced ss)"
proof -
  let ?As = "map (\<lambda>A. A - (\<Union> (set prev) - set nodes)) prev"
  let ?ps = "map (\<lambda>d. \<lparr>participation = count_in ?As d, declaration_id = d\<rparr>) (remdups nodes)"
  let ?ss = "enum_subnetworks 0 ?As" and ?rng = "seed_rng E seed"
  let ?avg = "average_participation (int (length prev)) rf (int (length nodes))"
  let ?fill = "\<lambda>ps ss. bind_res (fill_subnetworks n ps ss ?avg rf) (\<lambda>(_, ss). Ok (map participants (sort_key subnetwork_id ss)))"
  have inv: "assigned (set nodes) ?ps ?ss" by (rule initial_assigned) simp
  have len: "length ?ss = length prev" by simp
  have nes: "?ss \<noteq> []" using ne(2) len by (metis length_0_conv)
  have avg0: "0 \<le> ?avg" by (simp add: average_participation_def)
  have body: "assignations_body E n nodes prev rf ?rng =
      (case (if card (\<Union> (set prev)) > card (set nodes)
             then bind_res (balance_subnetworks_shrink E n ?ss ?rng) (\<lambda>(ss, rng). Ok (ss, ?ps, rng))
             else Ok (balance_subnetworks_grow E ?ss ?ps ?avg ?rng)) of
         Ok (ss, ps, rng) \<Rightarrow> (?fill ps ss, rng)
       | Err e \<Rightarrow> (Err e, ?rng) | Diverge \<Rightarrow> (Diverge, ?rng))"
    unfolding assignations_body_def Let_def average_participation_def using ne(1) by (simp only: if_False)
  show ?thesis
  proof (cases "card (\<Union> (set prev)) > card (set nodes)")
    case True
    have "card (set nodes) * card (set nodes) \<le> length nodes * length nodes"
      by (intro mult_le_mono card_length)
    then have "length prev * (card (set nodes) * card (set nodes)) \<le> n"
      using n by (meson le_trans mult_le_mono2)
    then have "energy ?ss \<le> n" using energy_bound [OF inv] len by simp
    from shrink_returns [OF inv _ sh nes this, of ?rng] obtain ss rng where
        r: "balance_subnetworks_shrink E n ?ss ?rng = Ok (ss, rng)" "assigned (set nodes) ?ps ss"
        "map subnetwork_id ss = map subnetwork_id ?ss" "balanced ss" by auto
    have "length ss = length prev" using r(3) len by (metis length_map)
    with r body True show ?thesis
      by (intro exI [of _ ?ps] exI [of _ ss] exI [of _ rng]) simp
  next
    case False
    obtain ss ps rng where g: "balance_subnetworks_grow E ?ss ?ps ?avg ?rng = (ss, ps, rng)"
      by (cases "balance_subnetworks_grow E ?ss ?ps ?avg ?rng")
    from grow_returns [OF inv sh avg0 g] have r: "assigned (set nodes) ps ss" "map subnetwork_id ss = map subnetwork_id ?ss"
      by blast+
    have "length ss = length prev" using r(2) len by (metis length_map)
    with r body False g show ?thesis by (intro exI [of _ ps] exI [of _ ss] exI [of _ rng]) simp
  qed
qed

lemma enough_rounds:
  assumes "length prev * (length nodes * length nodes) \<le> n" and "length ss = length prev" and "nodes \<noteq> []"
  shows "room (set nodes) ss \<le> n"
proof -
  have "card (set nodes) * card (set nodes) \<le> length nodes * length nodes" by (intro mult_le_mono card_length)
  then have "length prev * (card (set nodes) * card (set nodes)) \<le> n" using assms(1) by (meson le_trans mult_le_mono2)
  moreover have "0 < card (set nodes)" using assms(3) by (simp add: card_gt_0_iff)
  ultimately show ?thesis using room_bound [of "set nodes" ss] assms(2) by simp
qed

lemma filled_answer:
  assumes inv: "assigned (set nodes) ps ss" and ne: "ss \<noteq> []"
    and rf: "rf \<le> int (card (set nodes))" and avg: "avg \<le> int (length ss)" and n: "room (set nodes) ss \<le> n"
  shows "\<exists>ps' ss'. fill_subnetworks n ps ss avg rf = Ok (ps', ss') \<and>
    length ss' = length ss \<and>
    (\<forall>A \<in> set (map participants (sort_key subnetwork_id ss')). A \<subseteq> set nodes \<and> rf \<le> int (card A)) \<and>
    (\<forall>d \<in> set nodes. avg \<le> count_in (map participants (sort_key subnetwork_id ss')) d) \<and>
    (balanced ss \<longrightarrow> balanced ss')"
proof -
  obtain ps' ss' where
      run: "fill_subnetworks n ps ss avg rf = Ok (ps', ss')" and inv': "assigned (set nodes) ps' ss'"
      and ids: "mset (map subnetwork_id ss') = mset (map subnetwork_id ss)"
      and full: "subnetworks_filled_up_to_replication_factor ss' rf" "all_nodes_assigned ps' avg"
      and bal: "balanced ss \<longrightarrow> balanced ss'"
    using fill_returns [OF inv finite_set ne rf avg n] by blast
  have len: "length ss' = length ss" using ids by (metis length_map size_mset)
  have parts: "A \<subseteq> set nodes \<and> rf \<le> int (card A)" if "A \<in> set (map participants (sort_key subnetwork_id ss'))" for A
  proof -
    from that obtain s where s: "s \<in> set ss'" "A = participants s" by auto
    have "\<forall>s \<in> set ss'. participants s \<subseteq> set nodes" using inv' by (simp add: assigned_def)
    moreover have "\<forall>s \<in> set ss'. rf \<le> slen s"
      using full(1) by (simp add: subnetworks_filled_up_to_replication_factor_def list_all_iff)
    ultimately show ?thesis using s by (simp add: slen_def)
  qed
  have part: "avg \<le> count_in (map participants (sort_key subnetwork_id ss')) d" if "d \<in> set nodes" for d
  proof -
    note dn = that
    obtain p where p: "p \<in> set ps'" "declaration_id p = d" using assigned_participant [OF inv' dn] .
    then have "participation p = count_in (map participants ss') d" using assigned_participation [OF inv'] by auto
    moreover have "avg \<le> participation p" using full(2) p(1) by (simp add: all_nodes_assigned_def list_all_iff)
    ultimately show ?thesis unfolding count_in_sorted by simp
  qed
  have all_parts: "\<forall>A \<in> set (map participants (sort_key subnetwork_id ss')). A \<subseteq> set nodes \<and> rf \<le> int (card A)"
    by (rule ballI) (rule parts)
  have all_part: "\<forall>d \<in> set nodes. avg \<le> count_in (map participants (sort_key subnetwork_id ss')) d"
    by (rule ballI) (rule part)
  show ?thesis
    by (rule exI [of _ ps'], rule exI [of _ ss'], intro conjI) (rule run len all_parts all_part bal)+
qed

lemma calculate_returns:
  assumes sh: "shuffles E" and ne: "nodes \<noteq> []" "prev \<noteq> []"
    and rf: "rf \<le> int (card (set nodes))" and n: "length prev * (length nodes * length nodes) \<le> n"
  shows "\<exists>res. calculate_subnetwork_assignations E n nodes prev rf seed w = (Ok res, w) \<and> length res = length prev \<and>
    (\<forall>A \<in> set res. A \<subseteq> set nodes \<and> rf \<le> int (card A)) \<and>
    (\<forall>d \<in> set nodes. average_participation (int (length prev)) rf (int (length nodes)) \<le> count_in res d) \<and>
    (card (\<Union> (set prev)) > card (set nodes) \<longrightarrow> (\<forall>A \<in> set res. \<forall>B \<in> set res. card A \<le> card B + 1))"
proof -
  let ?avg = "average_participation (int (length prev)) rf (int (length nodes))"
  have rfl: "rf \<le> int (length nodes)" using rf card_length [of nodes] by linarith
  obtain ps ss rng where body: "assignations_body E n nodes prev rf (seed_rng E seed) =
      (bind_res (fill_subnetworks n ps ss ?avg rf) (\<lambda>(_, ss). Ok (map participants (sort_key subnetwork_id ss))), rng)"
    and inv: "assigned (set nodes) ps ss" and len: "length ss = length prev"
    and bal: "card (\<Union> (set prev)) > card (set nodes) \<longrightarrow> balanced ss"
    using balancing_returns [OF sh ne n, of rf seed] by blast
  have "ss \<noteq> []" using len ne(2) by auto
  moreover have "?avg \<le> int (length ss)" unfolding len using rfl ne by (intro average_le) (auto simp: Suc_le_eq)
  ultimately obtain ps' ss' where f: "fill_subnetworks n ps ss ?avg rf = Ok (ps', ss')" "length ss' = length ss"
      "\<forall>A \<in> set (map participants (sort_key subnetwork_id ss')). A \<subseteq> set nodes \<and> rf \<le> int (card A)"
      "\<forall>d \<in> set nodes. ?avg \<le> count_in (map participants (sort_key subnetwork_id ss')) d"
      "balanced ss \<longrightarrow> balanced ss'"
    using filled_answer [OF inv _ rf _ enough_rounds [OF n len ne(1)]] by blast
  have "assignations_body E n nodes prev rf (seed_rng E seed) = (Ok (map participants (sort_key subnetwork_id ss')), rng)"
    unfolding body f(1) by simp
  from rand_Ok [of "assignations_body E n nodes prev rf" E seed, OF this]
  have "calculate_subnetwork_assignations E n nodes prev rf seed w = (Ok (map participants (sort_key subnetwork_id ss')), w)"
    using rfl by (simp add: calculate_subnetwork_assignations_def)
  moreover have "card (\<Union> (set prev)) > card (set nodes) \<longrightarrow>
      (\<forall>A \<in> set (map participants (sort_key subnetwork_id ss')).
       \<forall>B \<in> set (map participants (sort_key subnetwork_id ss')). card A \<le> card B + 1)"
    using bal f(5) by (fastforce simp: balanced_def slen_def)
  ultimately show ?thesis using f(2-4) len
    by (intro exI [of _ "map participants (sort_key subnetwork_id ss')"]) simp
qed

section \<open>The exceptions\<close>

lemma grow_loop_idle: "\<forall>p \<in> set todo. participation p \<le> avg \<Longrightarrow> grow_loop E avg todo ss ps rng = (ss, ps, rng)"
  by (induction todo) auto

lemma grow_idle: "\<forall>p \<in> set ps. participation p \<le> avg \<Longrightarrow> balance_subnetworks_grow E ss ps avg rng = (ss, ps, rng)"
  by (simp add: balance_subnetworks_grow_def grow_loop_idle)

lemma fill_no_subnetworks:
  "p \<in> set ps \<Longrightarrow> participation p < avg \<Longrightarrow> fill_subnetworks (Suc n) ps [] avg rf = Err IndexError"
  by (auto simp: fill_subnetworks.simps [of "Suc n"] all_nodes_assigned_def list_all_iff heappop_def not_le)

lemma no_subnetworks:
  assumes "rf \<le> int (length (d # nodes))"
  shows "calculate_subnetwork_assignations E (Suc n) (d # nodes) [] rf seed w = (Err IndexError, seed_rng E seed)"
proof -
  let ?ps = "map (\<lambda>x. \<lparr>participation = 0, declaration_id = x\<rparr>) (remdups (d # nodes))"
  have "balance_subnetworks_grow E [] ?ps 1 (seed_rng E seed) = ([], ?ps, seed_rng E seed)"
    by (rule grow_idle) auto
  moreover have "fill_subnetworks (Suc n) ?ps [] 1 rf = Err IndexError"
    by (rule fill_no_subnetworks [of "\<lparr>participation = 0, declaration_id = d\<rparr>"]) auto
  ultimately show ?thesis using assms
    by (simp add: calculate_subnetwork_assignations_def assignations_body_def rand_def Let_def count_in_def del: remdups.simps)
qed

lemma too_few_nodes:
  assumes sh: "shuffles E" and ne: "nodes \<noteq> []" "prev \<noteq> []"
    and few: "int (card (set nodes)) < rf" and rf: "rf \<le> int (length nodes)"
    and n: "length prev * (length nodes * length nodes) < n"
  shows "\<exists>rng. \<forall>w. calculate_subnetwork_assignations E n nodes prev rf seed w = (Err IndexError, rng)"
proof -
  let ?avg = "average_participation (int (length prev)) rf (int (length nodes))"
  have n1: "length prev * (length nodes * length nodes) \<le> n" using n by simp
  obtain ps ss rng where body: "assignations_body E n nodes prev rf (seed_rng E seed) =
      (bind_res (fill_subnetworks n ps ss ?avg rf) (\<lambda>(_, ss). Ok (map participants (sort_key subnetwork_id ss))), rng)"
    and inv: "assigned (set nodes) ps ss" and len: "length ss = length prev"
    using balancing_returns [OF sh ne n1, of rf seed] by blast
  have "room (set nodes) ss \<le> length prev * (length nodes * length nodes)" using enough_rounds [OF le_refl len ne(1)] .
  then have "room (set nodes) ss < n" using n by simp
  moreover have "ss \<noteq> []" using len ne(2) by auto
  ultimately have "fill_subnetworks n ps ss ?avg rf = Err IndexError"
    using fill_too_few_nodes [OF inv finite_set _ few] by blast
  with body rf show ?thesis by (simp add: calculate_subnetwork_assignations_def rand_def)
qed

section \<open>The properties\<close>

definition no_shuffle :: "unit RefillEnv" where
  "no_shuffle = \<lparr>shuffle_order = (\<lambda>rng n. ([0..<n], rng)), seed_rng = (\<lambda>_. ())\<rparr>"

lemma no_shuffle_shuffles: "shuffles no_shuffle"
  by (simp add: shuffles_def no_shuffle_def)

text \<open>
  C16: With at least one subnetwork and at least as many distinct nodes as the replication factor,
  the assignment returns, within a number of rounds of its loops that depends on the sizes only.
  Every subnetwork of the answer consists of the given nodes and has the replication factor, every
  node is in at least the average number of subnetworks, and when the network shrank the sizes of
  the subnetworks differ by at most one. The generator of the module \<open>random\<close> is then as it was.
\<close>
theorem assignation_correct:
  assumes "shuffles E" and "distinct nodes" and "nodes \<noteq> []" "prev \<noteq> []"
    and "rf \<le> int (length nodes)" and "length prev * (length nodes * length nodes) \<le> n"
  shows "\<exists>res. calculate_subnetwork_assignations E n nodes prev rf seed w = (Ok res, w) \<and> length res = length prev \<and>
    (\<forall>A \<in> set res. A \<subseteq> set nodes \<and> rf \<le> int (card A)) \<and>
    (\<forall>d \<in> set nodes. max ((int (length prev) * rf) div int (length nodes)) 1 \<le> count_in res d) \<and>
    (card (\<Union> (set prev)) > card (set nodes) \<longrightarrow> (\<forall>A \<in> set res. \<forall>B \<in> set res. card A \<le> card B + 1))"
proof -
  have "rf \<le> int (card (set nodes))" using assms(2,5) by (simp add: distinct_card)
  from calculate_returns [OF assms(1,3,4) this assms(6)] show ?thesis unfolding average_participation_def .
qed

theorem assignation_correct_witness:
  "\<exists>res. calculate_subnetwork_assignations no_shuffle 18 [[1], [2], [3]] [{[1], [4]}, {[1], [5], [6]}] 2 [] () = (Ok res, ()) \<and>
    length res = 2"
  using assignation_correct [of no_shuffle "[[1], [2], [3]]" "[{[1], [4]}, {[1], [5], [6]}]" 2 18 "[]", OF no_shuffle_shuffles]
  by auto

text \<open>
  C17: Moving nodes out of the largest subnetwork ends with sizes that differ by at most one. It only
  moves nodes: every node stays in as many subnetworks as before, so the participation counts the
  caller holds stay right.
\<close>
theorem shrink_balances:
  assumes "assigned (set nodes) ps ss" and "shuffles E" and "ss \<noteq> []"
    and "length ss * (card (set nodes) * card (set nodes)) \<le> n"
  shows "\<exists>ss' rng'. balance_subnetworks_shrink E n ss rng = Ok (ss', rng') \<and>
    map subnetwork_id ss' = map subnetwork_id ss \<and>
    (\<forall>s \<in> set ss'. \<forall>t \<in> set ss'. card (participants s) \<le> card (participants t) + 1) \<and>
    (\<forall>p \<in> set ps. count_in (map participants ss') (declaration_id p) = count_in (map participants ss) (declaration_id p))"
proof -
  have "energy ss \<le> n" using energy_bound [OF assms(1)] assms(4) by simp
  from shrink_returns [OF assms(1) finite_set assms(2,3) this, of rng] obtain ss' rng' where
      run: "balance_subnetworks_shrink E n ss rng = Ok (ss', rng')" "map subnetwork_id ss' = map subnetwork_id ss"
      and inv: "assigned (set nodes) ps ss'" and bal: "balanced ss'" by blast
  have "\<forall>s \<in> set ss'. \<forall>t \<in> set ss'. card (participants s) \<le> card (participants t) + 1"
    using bal by (fastforce simp: balanced_def slen_def)
  moreover have "\<forall>p \<in> set ps. count_in (map participants ss') (declaration_id p) = count_in (map participants ss) (declaration_id p)"
    using inv assms(1) by (simp add: assigned_def)
  ultimately show ?thesis using run by blast
qed

lemma demo_assigned:
  "assigned (set [[1], [2]]) [\<lparr>participation = 1, declaration_id = [1]\<rparr>, \<lparr>participation = 1, declaration_id = [2]\<rparr>]
    [\<lparr>participants = {[1], [2]}, subnetwork_id = 0\<rparr>, \<lparr>participants = {}, subnetwork_id = 1\<rparr>]"
  by (simp add: assigned_def count_in_def)

theorem shrink_balances_witness:
  "\<exists>ss' rng'. balance_subnetworks_shrink no_shuffle 8
      [\<lparr>participants = {[1], [2]}, subnetwork_id = 0\<rparr>, \<lparr>participants = {}, subnetwork_id = 1\<rparr>] () = Ok (ss', rng') \<and>
    map subnetwork_id ss' = [0, 1]"
  using shrink_balances [OF demo_assigned no_shuffle_shuffles, of 8 "()"] by auto

text \<open>
  When the network grew, a node in more than the average number of subnetworks leaves some of
  them until it is in exactly the average number, and every other node stays in as many as before.
\<close>
theorem grow_caps_participation:
  assumes "assigned N ps ss" and "shuffles E" and "0 \<le> avg"
    and "balance_subnetworks_grow E ss ps avg rng = (ss', ps', rng')" and "d \<in> N"
  shows "count_in (map participants ss') d = min avg (count_in (map participants ss) d)"
proof -
  have inv: "assigned N ps' ss'"
    and cap: "\<forall>q' \<in> set ps'. \<exists>q \<in> set ps. declaration_id q' = declaration_id q \<and> participation q' = min avg (participation q)"
    using grow_returns [OF assms(1-4)] by blast+
  obtain p where p: "p \<in> set ps'" "declaration_id p = d" using assigned_participant [OF inv assms(5)] .
  with cap obtain q where "q \<in> set ps" "declaration_id q = d" "participation p = min avg (participation q)" by auto
  then show ?thesis using p assigned_participation [OF inv p(1)] assigned_participation [OF assms(1)] by simp
qed

lemma demo_grow:
  "balance_subnetworks_grow no_shuffle [\<lparr>participants = {[1]}, subnetwork_id = 0\<rparr>, \<lparr>participants = {[1], [2]}, subnetwork_id = 1\<rparr>]
     [\<lparr>participation = 2, declaration_id = [1]\<rparr>, \<lparr>participation = 1, declaration_id = [2]\<rparr>] 1 () =
   ([\<lparr>participants = {}, subnetwork_id = 0\<rparr>, \<lparr>participants = {[1], [2]}, subnetwork_id = 1\<rparr>],
    [\<lparr>participation = 1, declaration_id = [1]\<rparr>, \<lparr>participation = 1, declaration_id = [2]\<rparr>], ())"
  by (simp add: balance_subnetworks_grow_def pkey_def skey_def slen_def sample_def no_shuffle_def slice_to_def
      update_subnetwork_def insort_key.simps Let_def)

theorem grow_caps_participation_witness:
  "count_in (map participants [\<lparr>participants = {}, subnetwork_id = 0\<rparr>, \<lparr>participants = {[1], [2]}, subnetwork_id = 1\<rparr>]) [1] = min 1
     (count_in (map participants [\<lparr>participants = {[1]}, subnetwork_id = 0\<rparr>, \<lparr>participants = {[1], [2]}, subnetwork_id = 1\<rparr>]) [1])"
  by (rule grow_caps_participation [of "{[1], [2]}", OF _ no_shuffle_shuffles _ demo_grow])
     (auto simp: assigned_def count_in_def)

text \<open>
  C18: The verdict of the assignment, for every input, given a proper shuffle and enough
  rounds. Fewer entries than the replication factor is a \<open>ValueError\<close>, and no node at all a \<open>ZeroDivisionError\<close>. The guard counts entries, not nodes: a list
  that passes it but has fewer distinct nodes than the replication factor ends in an \<open>IndexError\<close>,
  as does an empty list of subnetworks. In every other case the assignment returns. Only a return and the
  \<open>ValueError\<close> leave the generator of the module \<open>random\<close> as it was: an exception of the body skips
  the line that sets it back, and the state the caller goes on with depends on the seed alone.
\<close>
theorem assignation_errors:
  assumes "shuffles E" and "length prev * (length nodes * length nodes) < n"
  shows "if int (length nodes) < rf
      then calculate_subnetwork_assignations E n nodes prev rf seed w = (Err ValueError, w)
    else if nodes = []
      then calculate_subnetwork_assignations E n nodes prev rf seed w = (Err ZeroDivisionError, seed_rng E seed)
    else if prev = []
      then calculate_subnetwork_assignations E n nodes prev rf seed w = (Err IndexError, seed_rng E seed)
    else if int (card (set nodes)) < rf
      then \<exists>rng. \<forall>w. calculate_subnetwork_assignations E n nodes prev rf seed w = (Err IndexError, rng)
    else \<exists>res. calculate_subnetwork_assignations E n nodes prev rf seed w = (Ok res, w)"
proof -
  have n: "length prev * (length nodes * length nodes) \<le> n" using assms(2) by simp
  have none: "calculate_subnetwork_assignations E n nodes [] rf seed w = (Err IndexError, seed_rng E seed)"
    if "nodes \<noteq> []" "\<not> int (length nodes) < rf"
    using that no_subnetworks [of rf "hd nodes" "tl nodes" E "n - 1" seed w] assms(2) by (cases n) auto
  show ?thesis
    using too_few_nodes [OF assms(1) _ _ _ _ assms(2), of rf seed] none
      calculate_returns [OF assms(1) _ _ _ n, of rf seed w]
    by (auto simp: calculate_subnetwork_assignations_def assignations_body_def rand_def not_less)
qed

definition keep_order :: "bytes RefillEnv" where
  "keep_order = \<lparr>shuffle_order = (\<lambda>rng n. ([0..<n], rng)), seed_rng = id\<rparr>"

lemma keep_order_shuffles: "shuffles keep_order"
  by (simp add: shuffles_def keep_order_def)

theorem assignation_errors_witness:
  "calculate_subnetwork_assignations keep_order 10 [[1]] [{}] 2 [7] [5] = (Err ValueError, [5]) \<and>
   (\<exists>rng. \<forall>w. calculate_subnetwork_assignations keep_order 10 [[1], [1], [2]] [{}] 3 [7] w = (Err IndexError, rng)) \<and>
   (\<exists>res. calculate_subnetwork_assignations keep_order 10 [[1], [1], [2]] [{}] 2 [7] [5] = (Ok res, [5]))"
  using assignation_errors [of keep_order "[{}]" "[[1]]" 10 2 "[7]" "[5]", OF keep_order_shuffles]
    assignation_errors [of keep_order "[{}]" "[[1], [1], [2]]" 10 3 "[7]" "[5]", OF keep_order_shuffles]
    assignation_errors [of keep_order "[{}]" "[[1], [1], [2]]" 10 2 "[7]" "[5]", OF keep_order_shuffles]
  by (simp add: insert_commute)

end
