(* ===== verification/Fragments.thy ===== *)
theory Fragments
  imports Prelude
begin

text \<open>
  deprecated/mixnet_v1/packet.py, the part on fragments: a message is cut into chunks that each
  fit the payload of one Sphinx packet, every chunk gets a header of 18 bytes (the identifier of
  its set, the number of fragments, its own index), and the destination puts the chunks together.

  \<open>Payload.max_plain_payload_size()\<close> belongs to pysphinx and is the parameter \<open>mp\<close>; the identifier
  of a set is the parameter \<open>sid\<close> of \<open>set_fragments\<close>. Dictionaries are association lists without
  repeated keys, in insertion order.
\<close>

section \<open>Fragments\<close>

record FragmentHeader =
  set_id :: bytes
  total_fragments :: int
  fragment_id :: int

record Fragment =
  frag_header :: FragmentHeader
  frag_body :: bytes

definition header_SIZE :: int where
  "header_SIZE = 16 + 1 * 2"

definition max_total_fragments :: int where
  "max_total_fragments = 256"

definition header_bytes :: "FragmentHeader \<Rightarrow> (exn, bytes) res" where
  "header_bytes h =
     bind_res (to_bytes 1 (total_fragments h)) (\<lambda>t.
     bind_res (to_bytes 1 (fragment_id h)) (\<lambda>i.
       Ok (set_id h @ t @ i)))"

definition header_from_bytes :: "bytes \<Rightarrow> (exn, FragmentHeader) res" where
  "header_from_bytes data =
     (if int (length data) \<noteq> header_SIZE then Err ValueError
      else Ok \<lparr>set_id = take 16 data,
               total_fragments = from_bytes (take 1 (drop 16 data)),
               fragment_id = from_bytes (take 1 (drop 17 data))\<rparr>)"

definition fragment_bytes :: "Fragment \<Rightarrow> (exn, bytes) res" where
  "fragment_bytes f = bind_res (header_bytes (frag_header f)) (\<lambda>h. Ok (h @ frag_body f))"

definition fragment_from_bytes :: "bytes \<Rightarrow> (exn, Fragment) res" where
  "fragment_from_bytes data =
     bind_res (header_from_bytes (take 18 data)) (\<lambda>h.
       Ok \<lparr>frag_header = h, frag_body = drop 18 data\<rparr>)"

section \<open>Cutting a message\<close>

function batched :: "'a list \<Rightarrow> nat \<Rightarrow> 'a list list" where
  "batched xs n = (if n = 0 \<or> xs = [] then [] else take n xs # batched (drop n xs) n)"
  by pat_completeness auto
termination
  by (relation "measure (\<lambda>(xs, n). length xs)") auto

declare batched.simps [simp del]

definition chunks :: "bytes \<Rightarrow> int \<Rightarrow> (exn, bytes list) res" where
  "chunks data n = (if n < 1 then Err ValueError else Ok (batched data (nat n)))"

definition MAX_PAYLOAD_SIZE :: "int \<Rightarrow> int" where
  "MAX_PAYLOAD_SIZE mp = mp - header_SIZE"

definition set_fragments :: "bytes \<Rightarrow> bytes list \<Rightarrow> Fragment list" where
  "set_fragments sid cs =
     map (\<lambda>(i, c). \<lparr>frag_header = \<lparr>set_id = sid, total_fragments = int (length cs), fragment_id = int i\<rparr>,
                    frag_body = c\<rparr>) (zip [0..<length cs] cs)"

definition fragment_chunks :: "int \<Rightarrow> bytes \<Rightarrow> (exn, bytes list) res" where
  "fragment_chunks mp message =
     bind_res (chunks message (MAX_PAYLOAD_SIZE mp)) (\<lambda>cs.
       if int (length cs) > max_total_fragments then Err ValueError else Ok cs)"

section \<open>Putting a message together\<close>

record FragmentSetReconstructor =
  rec_total :: int
  rec_fragments :: "(int \<times> Fragment) list"

definition FragmentSetReconstructor_init :: "int \<Rightarrow> FragmentSetReconstructor" where
  "FragmentSetReconstructor_init n = \<lparr>rec_total = n, rec_fragments = []\<rparr>"

fun join_bodies :: "(int \<times> Fragment) list \<Rightarrow> int list \<Rightarrow> bytes \<Rightarrow> (exn, bytes) res" where
  "join_bodies d [] message = Ok message"
| "join_bodies d (i # is) message = bind_res (get_item d i) (\<lambda>f. join_bodies d is (message @ frag_body f))"

definition build_message :: "FragmentSetReconstructor \<Rightarrow> (exn, bytes) res" where
  "build_message r = join_bodies (rec_fragments r) [0..rec_total r - 1] []"

definition set_add :: "Fragment \<Rightarrow> (FragmentSetReconstructor, exn, bytes option) action" where
  "set_add f =
     bind_act (modify (\<lambda>r. r\<lparr>rec_fragments := AList.update (fragment_id (frag_header f)) f (rec_fragments r)\<rparr>)) (\<lambda>_ r.
       if int (length (rec_fragments r)) = rec_total r
       then call (\<lambda>r. bind_res (build_message r) (\<lambda>m. Ok (Some m))) r
       else ret None r)"

type_synonym MessageReconstructor = "(bytes \<times> FragmentSetReconstructor) list"

definition reconstructor_add :: "Fragment \<Rightarrow> (MessageReconstructor, exn, bytes option) action" where
  "reconstructor_add f M =
     (let sid = set_id (frag_header f);
          r = (case map_of M sid of
                 Some r \<Rightarrow> r
               | None \<Rightarrow> FragmentSetReconstructor_init (total_fragments (frag_header f)));
          (msg, r') = set_add f r;
          M' = AList.update sid r' M
      in case msg of
           Ok None \<Rightarrow> (Ok None, M')
         | Ok (Some m) \<Rightarrow> (Ok (Some m), AList.delete sid M')
         | Err e \<Rightarrow> (Err e, M')
         | Diverge \<Rightarrow> (Diverge, M'))"

text \<open>Delivering a list of fragments: the messages that \<open>add\<close> returned, in order.\<close>

fun deliver :: "Fragment list \<Rightarrow> (MessageReconstructor, exn, bytes list) action" where
  "deliver [] = ret []"
| "deliver (f # fs) =
     bind_act (reconstructor_add f) (\<lambda>out. bind_act (deliver fs) (\<lambda>msgs.
       ret (case out of None \<Rightarrow> msgs | Some m \<Rightarrow> m # msgs)))"

section \<open>Lemmas on chunks\<close>

lemma concat_batched: "0 < n \<Longrightarrow> concat (batched xs n) = xs"
  by (induction xs n rule: batched.induct) (subst batched.simps, auto)

lemma batched_pieces: "c \<in> set (batched xs n) \<Longrightarrow> c \<noteq> [] \<and> length c \<le> n"
  by (induction xs n rule: batched.induct) (subst (asm) batched.simps, auto split: if_splits)

lemma length_batched: "0 < n \<Longrightarrow> length (batched xs n) = (length xs + (n - 1)) div n"
proof (induction xs n rule: batched.induct)
  case (1 xs n)
  show ?case
  proof (cases "xs = []")
    case False
    with 1 have "length (batched xs n) = Suc ((length xs - n + (n - 1)) div n)"
      by (subst batched.simps) simp
    also have "\<dots> = (length xs + (n - 1)) div n"
    proof (cases "n \<le> length xs")
      case True
      then have "length xs + (n - 1) = (length xs - n + (n - 1)) + n" by simp
      moreover have "(m + n) div n = Suc (m div n)" for m using 1(2) by simp
      ultimately show ?thesis by metis
    next
      case False
      moreover have "0 < length xs" using \<open>xs \<noteq> []\<close> by simp
      ultimately have "length xs + (n - 1) = (length xs - 1) + n" "length xs - 1 < n" "length xs - n + (n - 1) < n"
        by linarith+
      moreover have "m < n \<Longrightarrow> (m + n) div n = 1 \<and> m div n = 0" for m using 1(2) by simp
      ultimately show ?thesis by (metis One_nat_def)
    qed
    finally show ?thesis .
  qed (use 1(2) in \<open>simp add: batched.simps\<close>)
qed

section \<open>Lemmas on headers\<close>

lemma header_roundtrip:
  assumes "length (set_id h) = 16" and "header_bytes h = Ok bs"
  shows "length bs = 18 \<and> header_from_bytes bs = Ok h"
proof -
  obtain t i where t: "to_bytes 1 (total_fragments h) = Ok t" and i: "to_bytes 1 (fragment_id h) = Ok i"
      and bs: "bs = set_id h @ t @ i"
    using assms(2) by (auto simp: header_bytes_def bind_res_Ok_iff)
  have len: "length t = 1" "length i = 1" using t i by (simp_all add: length_to_bytes)
  have "take 1 (drop 16 bs) = t" "take 1 (drop 17 bs) = i" "take 16 bs = set_id h"
    using bs len assms(1) by simp_all
  then show ?thesis
    using bs len assms(1) from_to_bytes [OF t] from_to_bytes [OF i]
    by (simp add: header_from_bytes_def header_SIZE_def)
qed

lemma header_bytes_ok:
  "(\<exists>bs. header_bytes h = Ok bs) \<longleftrightarrow> total_fragments h \<in> {0..255} \<and> fragment_id h \<in> {0..255}"
  by (auto simp: header_bytes_def bind_res_Ok_iff to_bytes_Ok_iff)

lemma header_bytes_overflow:
  "\<not> (total_fragments h \<in> {0..255} \<and> fragment_id h \<in> {0..255}) \<Longrightarrow> header_bytes h = Err OverflowError"
  by (auto simp: header_bytes_def to_bytes_def)

lemma fragment_roundtrip:
  assumes "length (set_id (frag_header f)) = 16" and "fragment_bytes f = Ok bs"
  shows "fragment_from_bytes bs = Ok f"
proof -
  obtain h where h: "header_bytes (frag_header f) = Ok h" and bs: "bs = h @ frag_body f"
    using assms(2) by (auto simp: fragment_bytes_def bind_res_Ok_iff)
  have "length h = 18" "header_from_bytes h = Ok (frag_header f)"
    using header_roundtrip [OF assms(1) h] by simp_all
  then show ?thesis using bs by (simp add: fragment_from_bytes_def)
qed

end
