(* ===== verification/Reassembly.thy ===== *)
theory Reassembly
  imports Fragments
begin

text \<open>
  What \<open>MessageReconstructor\<close> promises, and that it keeps the promise.

  \<open>msgs\<close> maps the identifiers of sets to the chunks of the messages that were sent; a fragment is
  \<open>genuine\<close> when it is one of them. The abstract state is the set of indices received so far for
  every set identifier (\<open>spec_add\<close>); \<open>received\<close> reads it off the dictionaries. \<open>reconstructor_add\<close>
  refines \<open>spec_add\<close> on genuine fragments, delivered in any order, repeated, and interleaved with
  those of other messages.
\<close>

section \<open>The abstract reconstructor\<close>

type_synonym sent = "bytes \<rightharpoonup> bytes list"

definition genuine :: "sent \<Rightarrow> Fragment \<Rightarrow> bool" where
  "genuine msgs f \<longleftrightarrow> (case msgs (set_id (frag_header f)) of
     None \<Rightarrow> False
   | Some cs \<Rightarrow> total_fragments (frag_header f) = int (length cs) \<and>
       fragment_id (frag_header f) \<in> {0..<int (length cs)} \<and>
       frag_body f = cs ! nat (fragment_id (frag_header f)))"

definition spec_add :: "sent \<Rightarrow> Fragment \<Rightarrow> (bytes \<Rightarrow> int set) \<Rightarrow> bytes option \<times> (bytes \<Rightarrow> int set)" where
  "spec_add msgs f S =
     (let sid = set_id (frag_header f); cs = the (msgs sid); A = insert (fragment_id (frag_header f)) (S sid)
      in if A = {0..<int (length cs)} then (Some (concat cs), S(sid := {})) else (None, S(sid := A)))"

definition received :: "MessageReconstructor \<Rightarrow> bytes \<Rightarrow> int set" where
  "received M sid = (case map_of M sid of None \<Rightarrow> {} | Some r \<Rightarrow> fst ` set (rec_fragments r))"

definition partial_set :: "bytes list \<Rightarrow> FragmentSetReconstructor \<Rightarrow> bool" where
  "partial_set cs r \<longleftrightarrow> rec_total r = int (length cs) \<and> distinct (map fst (rec_fragments r)) \<and>
     (\<forall>(i, f) \<in> set (rec_fragments r). i \<in> {0..<int (length cs)} \<and> frag_body f = cs ! nat i)"

definition pending :: "sent \<Rightarrow> MessageReconstructor \<Rightarrow> bool" where
  "pending msgs M \<longleftrightarrow> (\<forall>sid r. map_of M sid = Some r \<longrightarrow>
     rec_fragments r \<noteq> [] \<and>
     (\<exists>cs. msgs sid = Some cs \<and> partial_set cs r \<and> fst ` set (rec_fragments r) \<noteq> {0..<int (length cs)}))"

section \<open>One set\<close>

lemma join_bodies_eq:
  "(\<And>i. i \<in> set is \<Longrightarrow> \<exists>f. map_of d i = Some f \<and> frag_body f = g i) \<Longrightarrow>
   join_bodies d is acc = Ok (acc @ concat (map g is))"
proof (induction "is" arbitrary: acc)
  case (Cons i "is")
  then obtain f where "map_of d i = Some f" "frag_body f = g i" by force
  moreover have "join_bodies d is (acc @ g i) = Ok ((acc @ g i) @ concat (map g is))" by (rule Cons.IH) (simp add: Cons.prems)
  ultimately show ?case by (simp add: get_item_def)
qed simp

lemma map_upto_nth: "map (\<lambda>i. xs ! nat i) [0..int (length xs) - 1] = xs"
proof (rule nth_equalityI)
  fix i
  assume "i < length (map (\<lambda>i. xs ! nat i) [0..int (length xs) - 1])"
  then have "i < length xs" by simp
  then show "map (\<lambda>i. xs ! nat i) [0..int (length xs) - 1] ! i = xs ! i" by (simp add: nth_upto)
qed simp

lemma full_set_message:
  assumes "partial_set cs r" and "fst ` set (rec_fragments r) = {0..<int (length cs)}"
  shows "build_message r = Ok (concat cs)"
proof -
  have "join_bodies (rec_fragments r) [0..int (length cs) - 1] [] = Ok ([] @ concat (map (\<lambda>i. cs ! nat i) [0..int (length cs) - 1]))"
  proof (rule join_bodies_eq)
    fix i
    assume "i \<in> set [0..int (length cs) - 1]"
    then have "i \<in> fst ` set (rec_fragments r)" unfolding assms(2) by simp
    then obtain f where f: "(i, f) \<in> set (rec_fragments r)" by force
    then have "map_of (rec_fragments r) i = Some f" using assms(1) by (simp add: partial_set_def)
    then show "\<exists>f. map_of (rec_fragments r) i = Some f \<and> frag_body f = cs ! nat i"
      using f assms(1) by (auto simp: partial_set_def)
  qed
  then show ?thesis using assms(1) by (simp add: build_message_def partial_set_def map_upto_nth)
qed

lemma partial_set_update:
  assumes "partial_set cs r" and "i \<in> {0..<int (length cs)}" and "frag_body f = cs ! nat i"
  shows "partial_set cs (r\<lparr>rec_fragments := AList.update i f (rec_fragments r)\<rparr>)"
proof -
  have "set (AList.update i f d) \<subseteq> insert (i, f) (set d)" for d :: "(int \<times> Fragment) list"
    by (induction d) auto
  then show ?thesis using assms by (fastforce simp: partial_set_def AList.distinct_update)
qed

lemma partial_set_full:
  assumes "partial_set cs r"
  shows "int (length (rec_fragments r)) = rec_total r \<longleftrightarrow> fst ` set (rec_fragments r) = {0..<int (length cs)}"
proof -
  have "card (fst ` set (rec_fragments r)) = length (rec_fragments r)"
    using assms distinct_card [of "map fst (rec_fragments r)"] by (simp add: partial_set_def)
  moreover have "fst ` set (rec_fragments r) \<subseteq> {0..<int (length cs)}"
    using assms by (force simp: partial_set_def)
  ultimately show ?thesis
    using assms card_subset_eq [of "{0..<int (length cs)}" "fst ` set (rec_fragments r)"]
    by (auto simp: partial_set_def)
qed

lemma set_add_genuine:
  assumes "partial_set cs r" and "fragment_id (frag_header f) \<in> {0..<int (length cs)}"
    and "frag_body f = cs ! nat (fragment_id (frag_header f))"
  shows "\<exists>r'. set_add f r = (Ok (if fst ` set (rec_fragments r') = {0..<int (length cs)} then Some (concat cs) else None), r') \<and>
    partial_set cs r' \<and> fst ` set (rec_fragments r') = insert (fragment_id (frag_header f)) (fst ` set (rec_fragments r))"
proof -
  let ?r = "r\<lparr>rec_fragments := AList.update (fragment_id (frag_header f)) f (rec_fragments r)\<rparr>"
  have r: "partial_set cs ?r" by (rule partial_set_update [OF assms])
  have "set_add f r = (Ok (if fst ` set (rec_fragments ?r) = {0..<int (length cs)} then Some (concat cs) else None), ?r)"
    using partial_set_full [OF r] full_set_message [OF r] by (simp add: set_add_def bind_act_modify)
  moreover have "fst ` set (rec_fragments ?r) = insert (fragment_id (frag_header f)) (fst ` set (rec_fragments r))"
    by (simp add: AList.dom_update)
  ultimately show ?thesis using r by blast
qed

section \<open>All sets\<close>

lemma add_refines:
  assumes inv: "pending msgs M" and gen: "genuine msgs f" and run: "spec_add msgs f (received M) = (out, S)"
  shows "\<exists>M'. reconstructor_add f M = (Ok out, M') \<and> pending msgs M' \<and> received M' = S"
proof -
  let ?sid = "set_id (frag_header f)" and ?i = "fragment_id (frag_header f)"
  obtain cs where cs: "msgs ?sid = Some cs" "total_fragments (frag_header f) = int (length cs)"
      "?i \<in> {0..<int (length cs)}" "frag_body f = cs ! nat ?i"
    using gen by (auto simp: genuine_def split: option.splits)
  define r where "r = (case map_of M ?sid of Some r \<Rightarrow> r | None \<Rightarrow> FragmentSetReconstructor_init (total_fragments (frag_header f)))"
  have r: "partial_set cs r \<and> fst ` set (rec_fragments r) = received M ?sid"
  proof (cases "map_of M ?sid")
    case None
    then show ?thesis by (simp add: r_def received_def partial_set_def FragmentSetReconstructor_init_def cs(2))
  next
    case (Some x)
    then show ?thesis using inv cs(1) by (force simp: r_def received_def pending_def)
  qed
  obtain r' where add: "set_add f r = (Ok (if fst ` set (rec_fragments r') = {0..<int (length cs)} then Some (concat cs) else None), r')"
      and r': "partial_set cs r'" "fst ` set (rec_fragments r') = insert ?i (received M ?sid)"
    using set_add_genuine [OF conjunct1 [OF r] cs(3,4)] conjunct2 [OF r] by metis
  show ?thesis
  proof (cases "insert ?i (received M ?sid) = {0..<int (length cs)}")
    case True
    let ?M = "AList.delete ?sid (AList.update ?sid r' M)"
    have "reconstructor_add f M = (Ok (Some (concat cs)), ?M)"
      using add r' True cs(2) by (simp add: reconstructor_add_def Let_def flip: r_def)
    moreover have "out = Some (concat cs)" "S = (received M)(?sid := {})"
      using run True cs(1) by (simp_all add: spec_add_def Let_def)
    moreover have "received ?M = (received M)(?sid := {})"
      by (rule ext) (simp add: received_def AList.delete_conv' AList.update_conv')
    moreover have "pending msgs ?M"
      using inv by (simp add: pending_def AList.delete_conv' AList.update_conv')
    ultimately show ?thesis by blast
  next
    case False
    let ?M = "AList.update ?sid r' M"
    have "rec_fragments r' \<noteq> []" using r'(2) by auto
    have "reconstructor_add f M = (Ok None, ?M)"
      using add r' False cs(2) by (simp add: reconstructor_add_def Let_def flip: r_def)
    moreover have "out = None" "S = (received M)(?sid := insert ?i (received M ?sid))"
      using run False cs(1) by (simp_all add: spec_add_def Let_def)
    moreover have "received ?M = (received M)(?sid := insert ?i (received M ?sid))"
      by (rule ext) (simp add: received_def AList.update_conv' r'(2))
    moreover have "pending msgs ?M"
      using inv r' False cs(1) \<open>rec_fragments r' \<noteq> []\<close> by (simp add: pending_def AList.update_conv')
    ultimately show ?thesis by blast
  qed
qed

section \<open>Every fragment once\<close>

fun spec_deliver :: "sent \<Rightarrow> Fragment list \<Rightarrow> (bytes \<Rightarrow> int set) \<Rightarrow> bytes list \<times> (bytes \<Rightarrow> int set)" where
  "spec_deliver msgs [] S = ([], S)"
| "spec_deliver msgs (f # fs) S =
     (let (out, S1) = spec_add msgs f S; (outs, S2) = spec_deliver msgs fs S1
      in (case out of None \<Rightarrow> outs | Some m \<Rightarrow> m # outs, S2))"

lemma deliver_refines:
  "pending msgs M \<Longrightarrow> \<forall>f \<in> set fs. genuine msgs f \<Longrightarrow> spec_deliver msgs fs (received M) = (outs, S) \<Longrightarrow>
   \<exists>M'. deliver fs M = (Ok outs, M') \<and> pending msgs M' \<and> received M' = S"
proof (induction fs arbitrary: M outs S)
  case (Cons f fs)
  obtain out S1 where s1: "spec_add msgs f (received M) = (out, S1)" by (cases "spec_add msgs f (received M)")
  obtain outs' S2 where s2: "spec_deliver msgs fs S1 = (outs', S2)" by (cases "spec_deliver msgs fs S1")
  from Cons.prems(2) have "genuine msgs f" by simp
  from add_refines [OF Cons.prems(1) this s1] obtain M1 where
    add: "reconstructor_add f M = (Ok out, M1)" and M1: "pending msgs M1" "received M1 = S1" by blast
  from Cons.IH [OF M1(1)] Cons.prems(2) s2 M1(2) obtain M' where
    "deliver fs M1 = (Ok outs', M')" "pending msgs M'" "received M' = S2" by (metis list.set_intros(2))
  with add show ?case using Cons.prems(3) s1 s2 by (auto simp: bind_act_def)
qed simp

definition indices :: "Fragment list \<Rightarrow> bytes \<Rightarrow> int set" where
  "indices fs sid = (\<lambda>f. fragment_id (frag_header f)) ` {f \<in> set fs. set_id (frag_header f) = sid}"

definition set_ids :: "Fragment list \<Rightarrow> bytes set" where
  "set_ids fs = (\<lambda>f. set_id (frag_header f)) ` set fs"

lemma indices_Cons:
  "indices (f # fs) sid =
     (if set_id (frag_header f) = sid then insert (fragment_id (frag_header f)) (indices fs sid) else indices fs sid)"
  by (auto simp: indices_def)

lemma set_ids_Cons: "set_ids (f # fs) = insert (set_id (frag_header f)) (set_ids fs)"
  by (simp add: set_ids_def)

lemma no_indices: "indices fs sid = {} \<longleftrightarrow> sid \<notin> set_ids fs"
  by (auto simp: indices_def set_ids_def)

lemma genuine_inj:
  assumes "genuine msgs f" and "genuine msgs g"
    and "set_id (frag_header f) = set_id (frag_header g)" and "fragment_id (frag_header f) = fragment_id (frag_header g)"
  shows "f = g"
  using assms by (cases f, cases g, cases "frag_header f", cases "frag_header g")
    (auto simp: genuine_def split: option.splits)

lemma fresh_index:
  assumes "\<forall>g \<in> set (f # fs). genuine msgs g" and "distinct (f # fs)"
  shows "fragment_id (frag_header f) \<notin> indices fs (set_id (frag_header f))"
proof
  assume "fragment_id (frag_header f) \<in> indices fs (set_id (frag_header f))"
  then obtain g where "g \<in> set fs" "set_id (frag_header f) = set_id (frag_header g)"
    "fragment_id (frag_header f) = fragment_id (frag_header g)" by (auto simp: indices_def)
  with assms genuine_inj [of msgs f g] show False by auto
qed

lemma spec_deliver_once:
  assumes "\<forall>f \<in> set fs. genuine msgs f" and "distinct fs"
    and "\<forall>sid. S sid = (if sid \<in> set_ids fs then {0..<int (length (the (msgs sid)))} - indices fs sid else {})"
  shows "\<exists>outs. spec_deliver msgs fs S = (outs, \<lambda>_. {}) \<and>
    mset outs = image_mset (\<lambda>sid. concat (the (msgs sid))) (mset_set (set_ids fs))"
  using assms
proof (induction fs arbitrary: S)
  case Nil
  then show ?case by (auto simp: set_ids_def)
next
  case (Cons f fs)
  let ?sid = "set_id (frag_header f)" and ?i = "fragment_id (frag_header f)"
  let ?full = "{0..<int (length (the (msgs ?sid)))}"
  have i: "?i \<in> ?full" using Cons.prems(1) by (auto simp: genuine_def split: option.splits)
  have fresh: "?i \<notin> indices fs ?sid" by (rule fresh_index [OF Cons.prems(1,2)])
  have sub: "indices fs ?sid \<subseteq> ?full"
    using Cons.prems(1) by (force simp: indices_def genuine_def split: option.splits)
  have S: "S sid = (if sid = ?sid then ?full - insert ?i (indices fs ?sid)
      else if sid \<in> set_ids fs then {0..<int (length (the (msgs sid)))} - indices fs sid else {})" for sid
    using Cons.prems(3) by (simp add: set_ids_Cons indices_Cons)
  then have A: "insert ?i (S ?sid) = ?full - indices fs ?sid" using i fresh by auto
  have gen: "\<forall>f \<in> set fs. genuine msgs f" "distinct fs" using Cons.prems(1,2) by simp_all
  have fin: "finite (set_ids fs)" by (simp add: set_ids_def)
  show ?case
  proof (cases "?sid \<in> set_ids fs")
    case True
    then have "?full - indices fs ?sid \<noteq> ?full" using sub no_indices [of fs ?sid] by blast
    then have add: "spec_add msgs f S = (None, S(?sid := ?full - indices fs ?sid))"
      using A by (simp add: spec_add_def Let_def)
    have "\<forall>sid. (S(?sid := ?full - indices fs ?sid)) sid = (if sid \<in> set_ids fs then {0..<int (length (the (msgs sid)))} - indices fs sid else {})"
      using True S by simp
    from Cons.IH [OF gen this] obtain outs where "spec_deliver msgs fs (S(?sid := ?full - indices fs ?sid)) = (outs, \<lambda>_. {})"
      "mset outs = image_mset (\<lambda>sid. concat (the (msgs sid))) (mset_set (set_ids fs))" by blast
    then show ?thesis using add True by (auto simp: set_ids_Cons insert_absorb)
  next
    case False
    then have "?full - indices fs ?sid = ?full" using no_indices [of fs ?sid] by blast
    then have add: "spec_add msgs f S = (Some (concat (the (msgs ?sid))), S(?sid := {}))"
      using A by (simp add: spec_add_def Let_def)
    have "\<forall>sid. (S(?sid := {})) sid = (if sid \<in> set_ids fs then {0..<int (length (the (msgs sid)))} - indices fs sid else {})"
      using False S by simp
    from Cons.IH [OF gen this] obtain outs where "spec_deliver msgs fs (S(?sid := {})) = (outs, \<lambda>_. {})"
      "mset outs = image_mset (\<lambda>sid. concat (the (msgs sid))) (mset_set (set_ids fs))" by blast
    then show ?thesis using add False fin by (auto simp: set_ids_Cons)
  qed
qed

lemma received_empty:
  assumes "received M = (\<lambda>_. {})" and "pending msgs M"
  shows "M = []"
proof -
  have "map_of M sid = None" for sid
  proof (cases "map_of M sid")
    case (Some r)
    then have "fst ` set (rec_fragments r) = {}" using fun_cong [OF assms(1), of sid] by (simp add: received_def)
    moreover have "rec_fragments r \<noteq> []" using Some assms(2) unfolding pending_def by blast
    ultimately show ?thesis by simp
  qed
  then have "map_of M = Map.empty" by (rule ext)
  then show ?thesis by simp
qed

text \<open>The genuine fragments of all messages sent, each delivered once, in any order.\<close>

theorem deliver_once:
  assumes "\<forall>f \<in> set fs. genuine msgs f" and "distinct fs"
    and "\<forall>sid \<in> set_ids fs. indices fs sid = {0..<int (length (the (msgs sid)))}"
  shows "\<exists>outs. deliver fs [] = (Ok outs, []) \<and>
    mset outs = image_mset (\<lambda>sid. concat (the (msgs sid))) (mset_set (set_ids fs))"
proof -
  have "\<forall>sid. ({} :: int set) = (if sid \<in> set_ids fs then {0..<int (length (the (msgs sid)))} - indices fs sid else {})"
    using assms(3) by simp
  from spec_deliver_once [OF assms(1,2), of "\<lambda>_. {}", OF this] obtain outs where
    o: "spec_deliver msgs fs (\<lambda>_. {}) = (outs, \<lambda>_. {})"
      "mset outs = image_mset (\<lambda>sid. concat (the (msgs sid))) (mset_set (set_ids fs))" by blast
  have start: "pending msgs []" "received [] = (\<lambda>_. {})" by (simp_all add: pending_def received_def fun_eq_iff)
  with deliver_refines [OF start(1) assms(1), of outs "\<lambda>_. {}"] o(1) obtain M' where
    "deliver fs [] = (Ok outs, M')" "pending msgs M'" "received M' = (\<lambda>_. {})" by auto
  with o(2) received_empty show ?thesis by blast
qed

section \<open>The fragments of one message\<close>

lemma nth_set_fragments: "i < length cs \<Longrightarrow> set_fragments sid cs ! i =
    \<lparr>frag_header = \<lparr>set_id = sid, total_fragments = int (length cs), fragment_id = int i\<rparr>, frag_body = cs ! i\<rparr>"
  by (simp add: set_fragments_def)

lemma length_set_fragments [simp]: "length (set_fragments sid cs) = length cs"
  by (simp add: set_fragments_def)

lemma in_set_fragments:
  assumes "f \<in> set (set_fragments sid cs)"
  obtains i where "i < length cs"
    and "f = \<lparr>frag_header = \<lparr>set_id = sid, total_fragments = int (length cs), fragment_id = int i\<rparr>, frag_body = cs ! i\<rparr>"
  using assms by (metis in_set_conv_nth length_set_fragments nth_set_fragments)

lemma set_fragments_header:
  "f \<in> set (set_fragments sid cs) \<Longrightarrow>
   set_id (frag_header f) = sid \<and> fragment_id (frag_header f) \<in> {0..<int (length cs)}"
  by (auto elim: in_set_fragments)

lemma set_fragments_genuine: "msgs sid = Some cs \<Longrightarrow> f \<in> set (set_fragments sid cs) \<Longrightarrow> genuine msgs f"
  by (auto simp: genuine_def elim!: in_set_fragments)

lemma distinct_set_fragments: "distinct (set_fragments sid cs)"
  by (simp add: distinct_conv_nth nth_set_fragments)

lemma deliver_message:
  assumes "mset fs = mset (set_fragments sid cs)" and "cs \<noteq> []"
  shows "deliver fs [] = (Ok [concat cs], [])"
proof -
  let ?msgs = "[sid \<mapsto> cs]"
  have set: "set fs = set (set_fragments sid cs)" using assms(1) by (rule mset_eq_setD)
  have gen: "\<forall>f \<in> set fs. genuine ?msgs f"
    unfolding set by (rule ballI, rule set_fragments_genuine [of _ sid cs]) simp_all
  have dist: "distinct fs" using assms(1) distinct_set_fragments by (metis mset_eq_imp_distinct_iff)
  have member: "\<lparr>frag_header = \<lparr>set_id = sid, total_fragments = int (length cs), fragment_id = int i\<rparr>, frag_body = cs ! i\<rparr> \<in> set fs"
    if "i < length cs" for i
    unfolding set using that by (metis length_set_fragments nth_mem nth_set_fragments)
  have ids: "set_ids fs = {sid}"
  proof
    show "set_ids fs \<subseteq> {sid}" unfolding set_ids_def set by (auto dest: set_fragments_header)
    show "{sid} \<subseteq> set_ids fs" using member [of 0] assms(2) by (force simp: set_ids_def)
  qed
  have "indices fs sid = {0..<int (length cs)}"
  proof
    show "indices fs sid \<subseteq> {0..<int (length cs)}" unfolding indices_def set using set_fragments_header by blast
    show "{0..<int (length cs)} \<subseteq> indices fs sid"
    proof
      fix i assume "i \<in> {0..<int (length cs)}"
      then have "nat i < length cs" "int (nat i) = i" by auto
      with member [of "nat i"] show "i \<in> indices fs sid" by (force simp: indices_def)
    qed
  qed
  with deliver_once [OF gen dist] ids show ?thesis by auto
qed

end
