(* ===== verification/Topology.thy ===== *)
theory Topology
  imports Prelude
begin

text \<open>
  deprecated/mixnet_v1/fisheryates.py and config.py: the shuffle from an entropy and the mixnet
  topology that every node derives from it.

  The module \<open>random\<close> and \<open>uuid.uuid4\<close> are not code of the repository. \<open>Randomness\<close> gives, on a
  state \<open>'w\<close> of the generators, the position \<open>random.choice\<close> takes in a sequence of a given length,
  the order \<open>random.shuffle\<close> brings a sequence of a given length into (the list of the old
  positions), what seeding does, and the identifiers drawn. Private and public keys and the
  \<open>Node\<close> of pysphinx are parameters.
\<close>

section \<open>Randomness\<close>

record 'w Randomness =
  choice_index :: "'w \<Rightarrow> nat \<Rightarrow> nat \<times> 'w"
  shuffle_perm :: "'w \<Rightarrow> nat \<Rightarrow> nat list \<times> 'w"
  seed_with :: "bytes \<Rightarrow> 'w \<Rightarrow> 'w"
  seed_fresh :: "'w \<Rightarrow> 'w"
  uuid4 :: "'w \<Rightarrow> bytes \<times> 'w"

definition random_choice :: "'w Randomness \<Rightarrow> 'a list \<Rightarrow> ('w, exn, 'a) action" where
  "random_choice R xs w =
     (if xs = [] then (Err IndexError, w)
      else let (i, w') = choice_index R w (length xs) in (Ok (xs ! i), w'))"

definition FisherYates_shuffle :: "'w Randomness \<Rightarrow> 'a list \<Rightarrow> bytes \<Rightarrow> 'w \<Rightarrow> 'a list \<times> 'w" where
  "FisherYates_shuffle R elements entropy w =
     (let (order, w1) = shuffle_perm R (seed_with R entropy w) (length elements)
      in (map (\<lambda>i. elements ! i) order, seed_fresh R w1))"

text \<open>
  What the code relies on: a choice is a position of the sequence, a shuffle is a permutation, and
  the order that follows a seed depends on the seed and the length only.
\<close>

definition proper_randomness :: "'w Randomness \<Rightarrow> bool" where
  "proper_randomness R \<longleftrightarrow>
     (\<forall>w n. 0 < n \<longrightarrow> fst (choice_index R w n) < n) \<and>
     (\<forall>w n. mset (fst (shuffle_perm R w n)) = mset [0..<n]) \<and>
     (\<forall>w. length (fst (uuid4 R w)) = 16)"

definition seeded_randomness :: "'w Randomness \<Rightarrow> bool" where
  "seeded_randomness R \<longleftrightarrow>
     (\<forall>e w w' n. fst (shuffle_perm R (seed_with R e w) n) = fst (shuffle_perm R (seed_with R e w') n))"

section \<open>Mix nodes and topologies\<close>

record ('b, 'x) MixNodeInfo =
  identity_private_key :: 'b
  encryption_private_key :: 'x
  addr :: bytes

record MixnetTopologySize =
  num_layers :: int
  num_mixnodes_per_layer :: int

record ('b, 'x) MixnetTopologyConfig =
  mixnode_candidates :: "('b, 'x) MixNodeInfo list"
  topology_size :: MixnetTopologySize
  entropy :: bytes

type_synonym ('b, 'x) MixnetTopology = "('b, 'x) MixNodeInfo list list"

definition identity_public_key :: "('b \<Rightarrow> 'g) \<Rightarrow> ('b, 'x) MixNodeInfo \<Rightarrow> 'g" where
  "identity_public_key get_g1 m = get_g1 (identity_private_key m)"

definition encryption_public_key :: "('x \<Rightarrow> 'y) \<Rightarrow> ('b, 'x) MixNodeInfo \<Rightarrow> 'y" where
  "encryption_public_key public_key m = public_key (encryption_private_key m)"

definition sphinx_node :: "('x \<Rightarrow> bytes \<Rightarrow> 'n) \<Rightarrow> ('b, 'x) MixNodeInfo \<Rightarrow> 'n" where
  "sphinx_node mk_node m = mk_node (encryption_private_key m) (addr m)"

definition num_total_mixnodes :: "MixnetTopologySize \<Rightarrow> int" where
  "num_total_mixnodes s = num_layers s * num_mixnodes_per_layer s"

definition topology_layers :: "MixnetTopologySize \<Rightarrow> 'a list \<Rightarrow> 'a list list" where
  "topology_layers s shuffled =
     (let sampled = py_slice 0 (num_total_mixnodes s) shuffled
      in map (\<lambda>layer_id.
           let start = layer_id * num_mixnodes_per_layer s
           in py_slice start (start + num_mixnodes_per_layer s) sampled) [0..num_layers s - 1])"

definition MixnetTopology_init ::
    "'w Randomness \<Rightarrow> ('b, 'x) MixnetTopologyConfig \<Rightarrow> 'w \<Rightarrow> ('b, 'x) MixnetTopology \<times> 'w" where
  "MixnetTopology_init R config w =
     (let (shuffled, w') = FisherYates_shuffle R (mixnode_candidates config) (entropy config) w
      in (topology_layers (topology_size config) shuffled, w'))"

fun choose_each :: "'w Randomness \<Rightarrow> 'a list list \<Rightarrow> ('w, exn, 'a list) action" where
  "choose_each R [] = ret []"
| "choose_each R (layer # layers) =
     bind_act (random_choice R layer) (\<lambda>m. bind_act (choose_each R layers) (\<lambda>ms. ret (m # ms)))"

definition generate_route ::
    "'w Randomness \<Rightarrow> ('b, 'x) MixnetTopology \<Rightarrow> ('b, 'x) MixNodeInfo \<Rightarrow> ('w, exn, ('b, 'x) MixNodeInfo list) action" where
  "generate_route R layers mix_destination =
     bind_act (choose_each R (py_slice 0 (- 1) layers)) (\<lambda>route. ret (route @ [mix_destination]))"

definition choose_mix_destination ::
    "'w Randomness \<Rightarrow> ('b, 'x) MixnetTopology \<Rightarrow> ('w, exn, ('b, 'x) MixNodeInfo) action" where
  "choose_mix_destination R layers =
     bind_act (call (\<lambda>_. py_index layers (- 1))) (\<lambda>layer. random_choice R layer)"

section \<open>The shuffle\<close>

lemma shuffle_mset:
  assumes "proper_randomness R"
  shows "mset (fst (FisherYates_shuffle R xs e w)) = mset xs"
proof -
  let ?order = "fst (shuffle_perm R (seed_with R e w) (length xs))"
  have "mset (map (\<lambda>i. xs ! i) ?order) = image_mset (\<lambda>i. xs ! i) (mset ?order)" by simp
  also have "mset ?order = mset [0..<length xs]" using assms unfolding proper_randomness_def by blast
  also have "image_mset (\<lambda>i. xs ! i) (mset [0..<length xs]) = mset (map (\<lambda>i. xs ! i) [0..<length xs])"
    by (simp only: mset_map)
  also have "\<dots> = mset xs" by (simp only: map_nth)
  finally show ?thesis by (simp add: FisherYates_shuffle_def split_def Let_def)
qed

lemma shuffle_seeded:
  "seeded_randomness R \<Longrightarrow> fst (FisherYates_shuffle R xs e w) = fst (FisherYates_shuffle R xs e w')"
  unfolding FisherYates_shuffle_def seeded_randomness_def split_def Let_def fst_conv by metis

section \<open>The layers\<close>

lemma layers_slices:
  assumes "0 \<le> num_layers s" and "0 \<le> num_mixnodes_per_layer s"
  shows "topology_layers s xs =
    map (\<lambda>k. take (nat (num_mixnodes_per_layer s)) (drop (k * nat (num_mixnodes_per_layer s))
           (take (nat (num_layers s) * nat (num_mixnodes_per_layer s)) xs))) [0..<nat (num_layers s)]"
proof -
  let ?m = "num_mixnodes_per_layer s" and ?l = "num_layers s"
  let ?ys = "take (nat ?l * nat ?m) xs"
  have ys: "py_slice 0 (num_total_mixnodes s) xs = ?ys"
    using assms by (simp add: py_slice_nonneg num_total_mixnodes_def nat_mult_distrib)
  have upto: "[0..?l - 1] = map int [0..<nat ?l]"
    using upto_int [of "nat ?l"] assms(1) by simp
  have "py_slice (int k * ?m) (int k * ?m + ?m) ?ys = take (nat ?m) (drop (k * nat ?m) ?ys)" for k
  proof -
    have "nat (int k * ?m) = k * nat ?m" using assms(2) by (simp add: nat_mult_distrib)
    moreover have "nat (int k * ?m + ?m) - nat (int k * ?m) = nat ?m"
      using assms(2) by (simp add: nat_add_distrib)
    ultimately show ?thesis using assms(2) by (simp add: py_slice_nonneg)
  qed
  then show ?thesis unfolding topology_layers_def Let_def ys upto by simp
qed

lemma concat_slices: "concat (map (\<lambda>k. take m (drop (k * m) ys)) [0..<l]) = take (l * m) ys"
proof (induction l)
  case (Suc l)
  then have "concat (map (\<lambda>k. take m (drop (k * m) ys)) [0..<Suc l]) = take (l * m) ys @ take m (drop (l * m) ys)" by simp
  also have "\<dots> = take (l * m + m) ys" by (simp only: take_add)
  finally show ?case by (simp add: add.commute)
qed simp

lemma layers_concat:
  assumes "0 \<le> num_layers s" and "0 \<le> num_mixnodes_per_layer s"
  shows "concat (topology_layers s xs) = take (nat (num_layers s) * nat (num_mixnodes_per_layer s)) xs"
  unfolding layers_slices [OF assms] concat_slices by simp

lemma length_layers: "length (topology_layers s xs) = nat (num_layers s)"
  by (simp add: topology_layers_def Let_def)

lemma layer_full:
  assumes "0 \<le> num_layers s" and "0 \<le> num_mixnodes_per_layer s"
    and "num_total_mixnodes s \<le> int (length xs)" and "layer \<in> set (topology_layers s xs)"
  shows "int (length layer) = num_mixnodes_per_layer s"
proof -
  let ?m = "nat (num_mixnodes_per_layer s)" and ?l = "nat (num_layers s)"
  obtain k where k: "k < ?l" "layer = take ?m (drop (k * ?m) (take (?l * ?m) xs))"
    using assms(4) unfolding layers_slices [OF assms(1,2)] by auto
  have "?l * ?m \<le> length xs" using assms(1-3) by (simp add: num_total_mixnodes_def nat_mult_distrib [symmetric] nat_le_iff)
  then have len: "length (take (?l * ?m) xs) = ?l * ?m" by (simp only: length_take min.absorb2)
  have "Suc k * ?m \<le> ?l * ?m" using k(1) by (intro mult_le_mono1) simp
  then have room: "?m \<le> ?l * ?m - k * ?m" unfolding mult_Suc by linarith
  have "length layer = ?m" unfolding k(2) length_take [of ?m] length_drop len using room by (rule min.absorb2)
  then show ?thesis using assms(2) by simp
qed

section \<open>Routes\<close>

lemma random_choice_mem:
  "proper_randomness R \<Longrightarrow> random_choice R xs w = (Ok x, w') \<Longrightarrow> x \<in> set xs"
  by (cases "choice_index R w (length xs)")
     (auto simp: random_choice_def proper_randomness_def Let_def split: if_splits dest!: spec [of _ w] spec [of _ "length xs"])

lemma random_choice_ok: "xs \<noteq> [] \<Longrightarrow> \<exists>x w'. random_choice R xs w = (Ok x, w')"
  by (simp add: random_choice_def split_def Let_def)

lemma random_choice_empty: "random_choice R [] w = (Err IndexError, w)"
  by (simp add: random_choice_def)

lemma choose_each_mem:
  assumes "proper_randomness R" and "choose_each R layers w = (Ok ms, w')"
  shows "list_all2 (\<lambda>m layer. m \<in> set layer) ms layers"
  using assms(2)
proof (induction layers arbitrary: ms w w')
  case (Cons layer layers)
  from Cons.prems have "bind_act (random_choice R layer) (\<lambda>m. bind_act (choose_each R layers) (\<lambda>ms. ret (m # ms))) w = (Ok ms, w')"
    by simp
  then obtain m w1 where 1: "random_choice R layer w = (Ok m, w1)"
      and r: "bind_act (choose_each R layers) (\<lambda>ms. ret (m # ms)) w1 = (Ok ms, w')"
    by (rule bind_act_cases) auto
  from r obtain ms' w2 where 2: "choose_each R layers w1 = (Ok ms', w2)" and "ms = m # ms'"
    by (rule bind_act_cases) auto
  then show ?case using Cons.IH [OF 2] random_choice_mem [OF assms(1) 1] by simp
qed simp

lemma choose_each_ok: "[] \<notin> set layers \<Longrightarrow> \<exists>ms w'. choose_each R layers w = (Ok ms, w')"
proof (induction layers arbitrary: w)
  case (Cons layer layers)
  then obtain m w1 where m: "random_choice R layer w = (Ok m, w1)" using random_choice_ok [of layer R w] by auto
  from Cons obtain ms w2 where "choose_each R layers w1 = (Ok ms, w2)" by (metis list.set_intros(2))
  with m show ?case by (simp add: bind_act_def)
qed simp

lemma route_hops:
  assumes "proper_randomness R" and "generate_route R layers dest w = (Ok route, w')"
  shows "last route = dest \<and> route \<noteq> [] \<and> list_all2 (\<lambda>m layer. m \<in> set layer) (butlast route) (butlast layers)"
proof -
  from assms(2) obtain ms w1 where "choose_each R (butlast layers) w = (Ok ms, w1)" "route = ms @ [dest]"
    unfolding generate_route_def py_slice_butlast by (rule bind_act_cases) auto
  then show ?thesis using choose_each_mem [OF assms(1)] by simp
qed

lemma route_ok:
  assumes "[] \<notin> set layers"
  shows "\<exists>route w'. generate_route R layers dest w = (Ok route, w')"
proof -
  have "[] \<notin> set (butlast layers)" using assms in_set_butlastD by metis
  then obtain ms w1 where "choose_each R (butlast layers) w = (Ok ms, w1)" using choose_each_ok by metis
  then show ?thesis by (simp add: generate_route_def py_slice_butlast bind_act_def)
qed

lemma destination_ok:
  assumes "[] \<notin> set layers" and "layers \<noteq> []"
  shows "\<exists>d w'. choose_mix_destination R layers w = (Ok d, w')"
  using assms random_choice_ok [of "last layers" R w]
  by (simp add: choose_mix_destination_def py_index_last bind_act_call) (metis last_in_set)

lemma destination_mem:
  assumes "proper_randomness R" and "choose_mix_destination R layers w = (Ok d, w')"
  shows "layers \<noteq> [] \<and> d \<in> set (last layers)"
  using assms(2) random_choice_mem [OF assms(1)]
  by (cases "layers = []") (auto simp: choose_mix_destination_def bind_act_call py_index_last)

lemma destination_missing: "choose_mix_destination R [] w = (Err IndexError, w)"
  by (simp add: choose_mix_destination_def bind_act_call)

end
