(* ===== verification/Packet.thy ===== *)
theory Packet
  imports Reassembly Topology
begin

text \<open>
  deprecated/mixnet_v1/packet.py, the packet builder: a flag in front of the message, one Sphinx
  packet per fragment, all to the same destination.

  \<open>SphinxPacket.build\<close> and the payload it carries belong to pysphinx; \<open>Sphinx\<close> holds them: the
  node constructor, the builder (which draws keys and may raise), what a mix node gets from
  processing a packet, and the size of a payload. \<open>carries P S p bs\<close> is what the code relies on:
  the packets built hold the payload they were built from.
\<close>

section \<open>Packets\<close>

datatype MessageFlag = MESSAGE_FLAG_REAL | MESSAGE_FLAG_DROP_COVER

fun flag_bytes :: "MessageFlag \<Rightarrow> bytes" where
  "flag_bytes MESSAGE_FLAG_REAL = [0]"
| "flag_bytes MESSAGE_FLAG_DROP_COVER = [1]"

definition parse_flag :: "bytes \<Rightarrow> (exn, MessageFlag) res" where
  "parse_flag b =
     (if b = [0] then Ok MESSAGE_FLAG_REAL else if b = [1] then Ok MESSAGE_FLAG_DROP_COVER else Err ValueError)"

datatype ('p, 'l) processed =
    ProcessedForwardHop bytes 'p
  | ProcessedFinalHop bytes 'l
  | UnknownHop

record ('w, 'x, 'n, 'p, 'l) Sphinx =
  mk_node :: "'x \<Rightarrow> bytes \<Rightarrow> 'n"
  sphinx_build :: "bytes \<Rightarrow> 'n list \<Rightarrow> 'n \<Rightarrow> ('w, exn, 'p) action"
  sphinx_process :: "'p \<Rightarrow> 'x \<Rightarrow> (exn, ('p, 'l) processed) res"
  max_plain_payload_size :: int

definition draw_uuid :: "'w Randomness \<Rightarrow> ('w, exn, bytes) action" where
  "draw_uuid R w = (let (sid, w') = uuid4 R w in (Ok sid, w'))"

definition FragmentSet_init ::
    "('w, 'x, 'n, 'p, 'l) Sphinx \<Rightarrow> 'w Randomness \<Rightarrow> bytes \<Rightarrow> ('w, exn, Fragment list) action" where
  "FragmentSet_init S R message =
     bind_act (call (\<lambda>_. fragment_chunks (max_plain_payload_size S) message)) (\<lambda>cs.
     bind_act (draw_uuid R) (\<lambda>sid.
       ret (set_fragments sid cs)))"

fun packets_for ::
    "('w, 'x, 'n, 'p, 'l) Sphinx \<Rightarrow> 'w Randomness \<Rightarrow> ('b, 'x) MixnetTopology \<Rightarrow> ('b, 'x) MixNodeInfo \<Rightarrow>
     Fragment list \<Rightarrow> ('w, exn, ('p \<times> ('b, 'x) MixNodeInfo list) list) action" where
  "packets_for S R topology destination [] = ret []"
| "packets_for S R topology destination (f # fs) =
     bind_act (generate_route R topology destination) (\<lambda>route.
     bind_act (call (\<lambda>_. fragment_bytes f)) (\<lambda>bs.
     bind_act (sphinx_build S bs (map (sphinx_node (mk_node S)) route) (sphinx_node (mk_node S) destination)) (\<lambda>packet.
     bind_act (packets_for S R topology destination fs) (\<lambda>out.
       ret ((packet, route) # out)))))"

definition build_packets ::
    "('w, 'x, 'n, 'p, 'l) Sphinx \<Rightarrow> 'w Randomness \<Rightarrow> MessageFlag \<Rightarrow> bytes \<Rightarrow> ('b, 'x) MixnetTopology \<Rightarrow>
     ('w, exn, ('p \<times> ('b, 'x) MixNodeInfo list) list) action" where
  "build_packets S R flag message topology =
     bind_act (choose_mix_destination R topology) (\<lambda>destination.
     bind_act (FragmentSet_init S R (flag_bytes flag @ message)) (\<lambda>fs.
       packets_for S R topology destination fs))"

definition build_real_packets ::
    "('w, 'x, 'n, 'p, 'l) Sphinx \<Rightarrow> 'w Randomness \<Rightarrow> bytes \<Rightarrow> ('b, 'x) MixnetTopology \<Rightarrow>
     ('w, exn, ('p \<times> ('b, 'x) MixNodeInfo list) list) action" where
  "build_real_packets S R message topology = build_packets S R MESSAGE_FLAG_REAL message topology"

definition build_drop_cover_packets ::
    "('w, 'x, 'n, 'p, 'l) Sphinx \<Rightarrow> 'w Randomness \<Rightarrow> bytes \<Rightarrow> ('b, 'x) MixnetTopology \<Rightarrow>
     ('w, exn, ('p \<times> ('b, 'x) MixNodeInfo list) list) action" where
  "build_drop_cover_packets S R message topology = build_packets S R MESSAGE_FLAG_DROP_COVER message topology"

definition parse_msg_and_flag :: "bytes \<Rightarrow> (exn, MessageFlag \<times> bytes) res" where
  "parse_msg_and_flag data =
     (if length data < 1 then Err ValueError
      else bind_res (parse_flag (take 1 data)) (\<lambda>flag. Ok (flag, drop 1 data)))"

text \<open>
  The payload of a packet, as the destination recovers it (\<open>payload\<close>): a packet holds the bytes it
  was built from.
\<close>

definition carries :: "('w, 'x, 'n, 'p, 'l) Sphinx \<Rightarrow> ('p \<Rightarrow> bytes) \<Rightarrow> bool" where
  "carries S payload \<longleftrightarrow>
     (\<forall>bs route dest w p w'. sphinx_build S bs route dest w = (Ok p, w') \<longrightarrow> payload p = bs)"

section \<open>What is built\<close>

lemma packets_for_built:
  assumes "proper_randomness R" and "packets_for S R topology dest fs w = (Ok out, w')"
  shows "list_all2 (\<lambda>f (p, route). \<exists>bs w1 w2. fragment_bytes f = Ok bs \<and>
      sphinx_build S bs (map (sphinx_node (mk_node S)) route) (sphinx_node (mk_node S) dest) w1 = (Ok p, w2)) fs out \<and>
    (\<forall>(p, route) \<in> set out. route \<noteq> [] \<and> last route = dest \<and>
      list_all2 (\<lambda>m layer. m \<in> set layer) (butlast route) (butlast topology))"
  using assms(2)
proof (induction fs arbitrary: out w w')
  case (Cons f fs)
  from Cons.prems show ?case
    unfolding packets_for.simps
  proof (rule bind_act_cases)
    fix route w1
    assume route: "generate_route R topology dest w = (Ok route, w1)"
      and "bind_act (call (\<lambda>_. fragment_bytes f)) (\<lambda>bs.
        bind_act (sphinx_build S bs (map (sphinx_node (mk_node S)) route) (sphinx_node (mk_node S) dest)) (\<lambda>packet.
        bind_act (packets_for S R topology dest fs) (\<lambda>out. ret ((packet, route) # out)))) w1 = (Ok out, w')"
    then obtain bs p w2 out' where bs: "fragment_bytes f = Ok bs"
        and p: "sphinx_build S bs (map (sphinx_node (mk_node S)) route) (sphinx_node (mk_node S) dest) w1 = (Ok p, w2)"
        and rest: "packets_for S R topology dest fs w2 = (Ok out', w')" and out: "out = (p, route) # out'"
      by (auto simp: bind_act_def split: res.splits prod.splits)
    with Cons.IH [OF rest] route_hops [OF assms(1) route] show ?thesis by auto
  qed simp_all
qed simp

lemma packets_for_spec:
  assumes "carries S payload" and "proper_randomness R"
    and "packets_for S R topology dest fs w = (Ok out, w')"
  shows "list_all2 (\<lambda>f (p, route). fragment_bytes f = Ok (payload p)) fs out \<and>
    (\<forall>(p, route) \<in> set out. route \<noteq> [] \<and> last route = dest \<and>
      list_all2 (\<lambda>m layer. m \<in> set layer) (butlast route) (butlast topology))"
  using packets_for_built [OF assms(2,3)] assms(1) unfolding carries_def
  by (auto elim!: list_all2_mono) metis

lemma fragment_chunks_spec:
  assumes "fragment_chunks mp message = Ok cs"
  shows "concat cs = message" and "length cs \<le> 256" and "cs = [] \<longleftrightarrow> message = []"
proof -
  have cs: "chunks message (MAX_PAYLOAD_SIZE mp) = Ok cs" and "length cs \<le> 256"
    using assms by (auto simp: fragment_chunks_def bind_res_Ok_iff max_total_fragments_def split: if_splits)
  then show "length cs \<le> 256" "concat cs = message" "cs = [] \<longleftrightarrow> message = []"
    using concat_batched [of "nat (MAX_PAYLOAD_SIZE mp)" message]
    by (auto simp: chunks_def batched.simps [of message] split: if_splits)
qed

lemma FragmentSet_init_spec:
  assumes "proper_randomness R" and "FragmentSet_init S R message w = (Ok fs, w')"
  shows "\<exists>sid cs. length sid = 16 \<and> fs = set_fragments sid cs \<and> fragment_chunks (max_plain_payload_size S) message = Ok cs"
proof -
  have "length (fst (uuid4 R w)) = 16" using assms(1) by (simp add: proper_randomness_def)
  then show ?thesis using assms(2)
    by (auto simp: FragmentSet_init_def draw_uuid_def bind_act_def split: res.splits prod.splits)
qed

lemma parse_flagged: "parse_msg_and_flag (flag_bytes flag @ message) = Ok (flag, message)"
  by (cases flag) (simp_all add: parse_msg_and_flag_def parse_flag_def)

section \<open>When building succeeds\<close>

definition builds :: "('w, 'x, 'n, 'p, 'l) Sphinx \<Rightarrow> bool" where
  "builds S \<longleftrightarrow> (\<forall>bs route dest w. \<exists>p w'. sphinx_build S bs route dest w = (Ok p, w'))"

lemma packets_for_ok:
  assumes "builds S" and "[] \<notin> set topology"
  shows "\<forall>f \<in> set fs. \<exists>bs. fragment_bytes f = Ok bs \<Longrightarrow>
    \<exists>out w'. packets_for S R topology dest fs w = (Ok out, w') \<and> length out = length fs"
proof (induction fs arbitrary: w)
  case (Cons f fs)
  obtain bs where bs: "fragment_bytes f = Ok bs" using Cons.prems by auto
  obtain route w1 where route: "generate_route R topology dest w = (Ok route, w1)" using route_ok [OF assms(2), of R dest w] by blast
  obtain p w2 where p: "sphinx_build S bs (map (sphinx_node (mk_node S)) route) (sphinx_node (mk_node S) dest) w1 = (Ok p, w2)"
    using assms(1) unfolding builds_def by blast
  obtain out w3 where out: "packets_for S R topology dest fs w2 = (Ok out, w3)" "length out = length fs"
    using Cons.IH [of w2] Cons.prems by auto
  have "packets_for S R topology dest (f # fs) w = (Ok ((p, route) # out), w3)"
    by (simp add: bind_act_def route bs p out(1))
  then show ?case using out(2) by auto
qed simp

lemma short_fragments:
  assumes "length cs \<le> 255" and "f \<in> set (set_fragments sid cs)"
  shows "\<exists>bs. fragment_bytes f = Ok bs"
proof -
  obtain i where "i < length cs"
    "f = \<lparr>frag_header = \<lparr>set_id = sid, total_fragments = int (length cs), fragment_id = int i\<rparr>, frag_body = cs ! i\<rparr>"
    using in_set_fragments [OF assms(2)] by metis
  then have "total_fragments (frag_header f) \<in> {0..255} \<and> fragment_id (frag_header f) \<in> {0..255}"
    using assms(1) by simp
  then obtain bs where "header_bytes (frag_header f) = Ok bs" using header_bytes_ok by blast
  then show ?thesis by (simp add: fragment_bytes_def)
qed

lemma FragmentSet_init_ok:
  assumes "18 < max_plain_payload_size S" and "int (length msg) \<le> 255 * (max_plain_payload_size S - 18)"
  shows "\<exists>sid cs w'. FragmentSet_init S R msg w = (Ok (set_fragments sid cs), w') \<and> length cs \<le> 255 \<and>
    fragment_chunks (max_plain_payload_size S) msg = Ok cs"
proof -
  let ?k = "nat (max_plain_payload_size S - 18)"
  have k: "0 < ?k" using assms(1) by simp
  have "length msg \<le> 255 * ?k" using assms by (simp add: nat_le_iff le_nat_iff)
  then have "length msg + (?k - 1) < 256 * ?k" using k by simp
  then have "(length msg + (?k - 1)) div ?k < 256" using k by (simp add: div_less_iff_less_mult)
  then have len: "length (batched msg ?k) \<le> 255" using length_batched [OF k, of msg] by simp
  then have ch: "fragment_chunks (max_plain_payload_size S) msg = Ok (batched msg ?k)"
    using assms(1) by (simp add: fragment_chunks_def chunks_def MAX_PAYLOAD_SIZE_def header_SIZE_def max_total_fragments_def)
  obtain sid w' where "uuid4 R w = (sid, w')" by (cases "uuid4 R w")
  with ch len show ?thesis by (auto simp: FragmentSet_init_def bind_act_def draw_uuid_def)
qed

lemma build_packets_ok:
  assumes "builds S" and "[] \<notin> set topology" and "topology \<noteq> []"
    and "18 < max_plain_payload_size S" and "int (length msg) < 255 * (max_plain_payload_size S - 18)"
  shows "\<exists>out w'. build_packets S R flag msg topology w = (Ok out, w')"
proof -
  have "int (length (flag_bytes flag @ msg)) \<le> 255 * (max_plain_payload_size S - 18)"
    using assms(5) by (cases flag) simp_all
  note init = FragmentSet_init_ok [OF assms(4) this]
  obtain dest w1 where dest: "choose_mix_destination R topology w = (Ok dest, w1)"
    using destination_ok [OF assms(2,3), of R w] by blast
  obtain sid cs w2 where fs: "FragmentSet_init S R (flag_bytes flag @ msg) w1 = (Ok (set_fragments sid cs), w2)"
    and "length cs \<le> 255" using init [of R w1] by auto
  then obtain out w3 where "packets_for S R topology dest (set_fragments sid cs) w2 = (Ok out, w3)"
    using packets_for_ok [OF assms(1,2), of "set_fragments sid cs"] short_fragments by metis
  with dest fs show ?thesis by (simp add: build_packets_def bind_act_def)
qed

end
