(* ===== verification/Mix_Helpers.thy ===== *)
theory Mix_Helpers
  imports Py_Float
begin

text \<open>
  deprecated/mixnet_v1/poisson.py, utils.py and bls.py: the intervals between emissions, random bytes
  and key generation. \<open>random.randint\<close>, \<open>numpy.random.exponential\<close> (which raises on a scale it does not
  accept) and the key generation of blspy are parameters over a state of the generators. The last
  section holds what client, node and process share: a task and how it is cancelled.
\<close>

record ('w, 'sk) Draws =
  randint :: "int \<Rightarrow> int \<Rightarrow> 'w \<Rightarrow> int \<times> 'w"
  exponential :: "rat \<Rightarrow> ('w, exn, rat) action"
  key_gen :: "bytes \<Rightarrow> 'sk"

text \<open>\<open>bytes([...])\<close> of numbers raises unless they fit a byte.\<close>

definition py_bytes :: "int list \<Rightarrow> (exn, bytes) res" where
  "py_bytes xs = (if \<forall>x \<in> set xs. 0 \<le> x \<and> x < 256 then Ok (map word_of_int xs) else Err ValueError)"

fun draw_ints :: "('w, 'sk) Draws \<Rightarrow> nat \<Rightarrow> 'w \<Rightarrow> int list \<times> 'w" where
  "draw_ints D 0 w = ([], w)"
| "draw_ints D (Suc n) w = (let (x, w1) = randint D 0 255 w; (xs, w2) = draw_ints D n w1 in (x # xs, w2))"

definition random_bytes :: "('w, 'sk) Draws \<Rightarrow> int \<Rightarrow> ('w, exn, bytes) action" where
  "random_bytes D n w =
     (if n \<ge> 0 then let (xs, w') = draw_ints D (nat n) w in (py_bytes xs, w') else (Err AssertionError, w))"

definition generate_bls :: "('w, 'sk) Draws \<Rightarrow> ('w, exn, 'sk) action" where
  "generate_bls D = bind_act (random_bytes D 32) (\<lambda>seed. ret (key_gen D seed))"

definition poisson_interval_sec :: "('w, 'sk) Draws \<Rightarrow> int \<Rightarrow> ('w, exn, rat) action" where
  "poisson_interval_sec D rate_per_min =
     bind_act (call (\<lambda>_. float_div 1 (of_int rate_per_min))) (\<lambda>scale.
     bind_act (exponential D scale) (\<lambda>interval_min.
       ret (fl (interval_min * 60))))"

definition poisson_mean_interval_sec :: "int \<Rightarrow> (exn, rat) res" where
  "poisson_mean_interval_sec rate_per_min =
     bind_res (float_div 1 (of_int rate_per_min)) (\<lambda>x. Ok (fl (x * 60)))"

lemma length_draw_ints: "length (fst (draw_ints D n w)) = n"
  by (induction n arbitrary: w) (auto simp: split_beta Let_def)

lemma draw_ints_range:
  assumes "\<And>a b w. a \<le> b \<Longrightarrow> a \<le> fst (randint D a b w) \<and> fst (randint D a b w) \<le> b"
  shows "\<forall>x \<in> set (fst (draw_ints D n w)). 0 \<le> x \<and> x < 256"
proof (induction n arbitrary: w)
  case (Suc n)
  have "0 \<le> fst (randint D 0 255 w) \<and> fst (randint D 0 255 w) \<le> 255" using assms [of 0 255 w] by simp
  then show ?case using Suc by (auto simp: split_beta Let_def)
qed simp

text \<open>With a proper \<open>randint\<close>, as many bytes as asked for.\<close>

lemma random_bytes_length:
  assumes "\<And>a b w. a \<le> b \<Longrightarrow> a \<le> fst (randint D a b w) \<and> fst (randint D a b w) \<le> b" and "0 \<le> n"
  shows "\<exists>bs. fst (random_bytes D n w) = Ok bs \<and> length bs = nat n"
  using draw_ints_range [OF assms(1), of "nat n" w] length_draw_ints [of D "nat n" w] assms(2)
  by (auto simp: random_bytes_def split_beta Let_def py_bytes_def)

text \<open>A rate that always gives an interval; a rate of zero never does.\<close>

definition timely :: "('w, 'sk) Draws \<Rightarrow> int \<Rightarrow> bool" where
  "timely D rate_per_min \<longleftrightarrow> (\<forall>w. \<exists>s w'. poisson_interval_sec D rate_per_min w = (Ok s, w'))"

lemma no_interval: "poisson_interval_sec D 0 w = (Err ZeroDivisionError, w)"
  by (simp add: poisson_interval_sec_def bind_act_def float_div_def)

section \<open>Tasks\<close>

text \<open>
  A task that runs a loop \<open>while True\<close> is running, has ended with an exception, or was cancelled.
  \<open>task.cancel()\<close> does nothing to a task that has ended; \<open>await task\<close> raises its exception again,
  and \<open>suppress(CancelledError)\<close> lets every exception but that of the cancellation pass.
\<close>

datatype task = Running | Failed exn | Cancelled

fun cancel_task :: "(task, exn, unit) action" where
  "cancel_task Running = (Ok (), Cancelled)"
| "cancel_task Cancelled = (Ok (), Cancelled)"
| "cancel_task (Failed e) = (Err e, Failed e)"

lemma cancel_task_stops: "snd (cancel_task t) \<noteq> Running"
  by (cases t) simp_all

end
