(* ===== verification/Mix_Client.thy ===== *)
theory Mix_Client
  imports Packet Mix_Helpers
begin

text \<open>
  deprecated/mixnet_v1/client.py: the client that emits real and cover packets.

  The client is single-threaded: \<open>send_message\<close>, \<open>set_topology\<close> and one emission each run without
  being interrupted, because putting into an unbounded \<open>asyncio.Queue\<close> never waits. A queue is a
  list, the first element the next to leave. The two queues local to \<open>__run\<close>, of redundant packets
  and of notifications (only their number counts), are fields of the record, and so are the
  generators. \<open>client_step\<close> interleaves the calls of the application with the beginning of the task,
  the notifier, which runs as a task of its own, and the emissions: the times between notifications
  are drawn but not waited for, any order of events is possible. An exception in an emission ends
  the task, one in the notifier ends only the notifier. Cancelling the client cancels the first
  task and leaves the notifier.
\<close>

section \<open>The client\<close>

record ('b, 'x) MixClientConfig =
  emission_rate_per_min :: int
  redundancy :: int
  client_topology :: "('b, 'x) MixnetTopology"

record ('w, 'b, 'x, 'p) MixClient =
  client_config :: "('b, 'x) MixClientConfig"
  real_packet_queue :: "(bytes \<times> 'p) list"
  outbound_socket :: "(bytes \<times> 'p) list"
  client_task :: task
  redundant_real_packet_queue :: "(bytes \<times> 'p) list"
  notifications :: nat
  notifier :: "task option"
  client_world :: 'w

definition MixClient_new :: "('b, 'x) MixClientConfig \<Rightarrow> 'w \<Rightarrow> ('w, 'b, 'x, 'p) MixClient" where
  "MixClient_new config w =
     \<lparr>client_config = config, real_packet_queue = [], outbound_socket = [], client_task = Running,
      redundant_real_packet_queue = [], notifications = 0, notifier = None, client_world = w\<rparr>"

definition set_topology ::
    "('b, 'x) MixnetTopology \<Rightarrow> ('w, 'b, 'x, 'p) MixClient \<Rightarrow> ('w, 'b, 'x, 'p) MixClient" where
  "set_topology topology c = c\<lparr>client_config := (client_config c)\<lparr>client_topology := topology\<rparr>\<rparr>"

definition get_topology :: "('w, 'b, 'x, 'p) MixClient \<Rightarrow> ('b, 'x) MixnetTopology" where
  "get_topology c = client_topology (client_config c)"

definition in_world :: "('w, exn, 'a) action \<Rightarrow> (('w, 'b, 'x, 'p) MixClient, exn, 'a) action" where
  "in_world m c = (case m (client_world c) of (r, w) \<Rightarrow> (r, c\<lparr>client_world := w\<rparr>))"

definition put_real :: "bytes \<times> 'p \<Rightarrow> (('w, 'b, 'x, 'p) MixClient, exn, unit) action" where
  "put_real x = modify (\<lambda>c. c\<lparr>real_packet_queue := real_packet_queue c @ [x]\<rparr>)"

definition put_outbound :: "bytes \<times> 'p \<Rightarrow> (('w, 'b, 'x, 'p) MixClient, exn, unit) action" where
  "put_outbound x = modify (\<lambda>c. c\<lparr>outbound_socket := outbound_socket c @ [x]\<rparr>)"

definition put_redundant :: "bytes \<times> 'p \<Rightarrow> (('w, 'b, 'x, 'p) MixClient, exn, unit) action" where
  "put_redundant x = modify (\<lambda>c. c\<lparr>redundant_real_packet_queue := redundant_real_packet_queue c @ [x]\<rparr>)"

definition put_packets ::
    "(bytes \<times> 'p \<Rightarrow> (('w, 'b, 'x, 'p) MixClient, exn, unit) action) \<Rightarrow> ('p \<times> ('b, 'x) MixNodeInfo list) list \<Rightarrow>
     (('w, 'b, 'x, 'p) MixClient, exn, unit) action" where
  "put_packets put =
     for_each (\<lambda>(packet, route). bind_act (call (\<lambda>_. py_index route 0)) (\<lambda>hop. put (addr hop, packet)))"

definition send_message ::
    "('w, 'x, 'n, 'p, 'l) Sphinx \<Rightarrow> 'w Randomness \<Rightarrow> bytes \<Rightarrow> (('w, 'b, 'x, 'p) MixClient, exn, unit) action" where
  "send_message S R msg c =
     bind_act (in_world (build_real_packets S R msg (client_topology (client_config c))))
       (put_packets put_real) c"

definition subscribe_messages :: "('w, 'b, 'x, 'p) MixClient \<Rightarrow> bytes list" where
  "subscribe_messages c = []"

definition drop_cover :: bytes where
  "drop_cover = map (word_of_nat \<circ> of_char) ''drop cover''"

definition emit_real :: "(('w, 'b, 'x, 'p) MixClient, exn, unit) action" where
  "emit_real c =
     (case real_packet_queue c of
        [] \<Rightarrow> ret () c
      | x # xs \<Rightarrow>
          for_each (\<lambda>_. bind_act (put_redundant x) (\<lambda>_. put_outbound x))
            [0..redundancy (client_config c) - 2] (c\<lparr>real_packet_queue := xs\<rparr>))"

definition emit_cover ::
    "('w, 'x, 'n, 'p, 'l) Sphinx \<Rightarrow> 'w Randomness \<Rightarrow> (('w, 'b, 'x, 'p) MixClient, exn, unit) action" where
  "emit_cover S R c =
     bind_act (in_world (build_drop_cover_packets S R drop_cover (client_topology (client_config c))))
       (put_packets put_outbound) c"

definition emit ::
    "('w, 'x, 'n, 'p, 'l) Sphinx \<Rightarrow> 'w Randomness \<Rightarrow> (('w, 'b, 'x, 'p) MixClient, exn, unit) action" where
  "emit S R c =
     (case redundant_real_packet_queue c of
        x # xs \<Rightarrow> put_outbound x (c\<lparr>redundant_real_packet_queue := xs\<rparr>)
      | [] \<Rightarrow> bind_act emit_real (\<lambda>_. emit_cover S R) c)"

text \<open>
  The beginning of the task creates the notifier; the notifier draws an interval and puts a
  notification; the loop of the task takes one and emits.
\<close>

definition client_starts :: "('w, 'b, 'x, 'p) MixClient \<Rightarrow> ('w, 'b, 'x, 'p) MixClient" where
  "client_starts c = c\<lparr>notifier := Some Running\<rparr>"

definition emission_notifier ::
    "('w, 'sk) Draws \<Rightarrow> ('w, 'b, 'x, 'p) MixClient \<Rightarrow> ('w, 'b, 'x, 'p) MixClient" where
  "emission_notifier D c =
     (case poisson_interval_sec D (emission_rate_per_min (client_config c)) (client_world c) of
        (Ok s, w) \<Rightarrow> c\<lparr>client_world := w, notifications := Suc (notifications c)\<rparr>
      | (Err e, w) \<Rightarrow> c\<lparr>client_world := w, notifier := Some (Failed e)\<rparr>
      | (Diverge, w) \<Rightarrow> c\<lparr>client_world := w\<rparr>)"

definition client_emits ::
    "('w, 'x, 'n, 'p, 'l) Sphinx \<Rightarrow> 'w Randomness \<Rightarrow> (('w, 'b, 'x, 'p) MixClient, exn, unit) action" where
  "client_emits S R c =
     (case emit S R (c\<lparr>notifications := notifications c - 1\<rparr>) of
        (Err e, c') \<Rightarrow> (Err e, c'\<lparr>client_task := Failed e\<rparr>)
      | (r, c') \<Rightarrow> (r, c'))"

definition MixClient_cancel :: "(('w, 'b, 'x, 'p) MixClient, exn, unit) action" where
  "MixClient_cancel c = (case cancel_task (client_task c) of (r, t) \<Rightarrow> (r, c\<lparr>client_task := t\<rparr>))"

text \<open>What can happen to a client.\<close>

inductive client_step ::
    "('w, 'x, 'n, 'p, 'l) Sphinx \<Rightarrow> 'w Randomness \<Rightarrow> ('w, 'sk) Draws \<Rightarrow>
     ('w, 'b, 'x, 'p) MixClient \<Rightarrow> ('w, 'b, 'x, 'p) MixClient \<Rightarrow> bool"
    for S R D where
  send: "send_message S R msg c = (r, c') \<Longrightarrow> client_step S R D c c'"
| topology: "client_step S R D c (set_topology t c)"
| begins: "client_task c = Running \<Longrightarrow> notifier c = None \<Longrightarrow> client_step S R D c (client_starts c)"
| notify: "notifier c = Some Running \<Longrightarrow> client_step S R D c (emission_notifier D c)"
| tick: "client_task c = Running \<Longrightarrow> 0 < notifications c \<Longrightarrow> client_emits S R c = (r, c') \<Longrightarrow> r \<noteq> Diverge \<Longrightarrow>
    client_step S R D c c'"
| cancel: "MixClient_cancel c = (r, c') \<Longrightarrow> client_step S R D c c'"

inductive_cases client_stepE: "client_step S R D c c'"

definition ticks ::
    "('w, 'x, 'n, 'p, 'l) Sphinx \<Rightarrow> 'w Randomness \<Rightarrow> nat \<Rightarrow> (('w, 'b, 'x, 'p) MixClient, exn, unit) action" where
  "ticks S R n = for_each (\<lambda>_. emit S R) [0..<n]"

section \<open>Putting packets\<close>

lemma redundant_copies:
  "for_each (\<lambda>_. bind_act (put_redundant x) (\<lambda>_. put_outbound x)) is c =
   (Ok (), c\<lparr>outbound_socket := outbound_socket c @ replicate (length is) x,
             redundant_real_packet_queue := redundant_real_packet_queue c @ replicate (length is) x\<rparr>)"
  by (induction "is" arbitrary: c) (simp_all add: put_redundant_def put_outbound_def bind_act_def)

definition first_hops :: "('p \<times> ('b, 'x) MixNodeInfo list) list \<Rightarrow> (bytes \<times> 'p) list" where
  "first_hops out = map (\<lambda>(p, route). (addr (hd route), p)) out"

lemma put_packets_outbound:
  "\<forall>(p, route) \<in> set out. route \<noteq> [] \<Longrightarrow>
   put_packets put_outbound out c = (Ok (), c\<lparr>outbound_socket := outbound_socket c @ first_hops out\<rparr>)"
proof (induction out arbitrary: c)
  case (Cons x out)
  then show ?case
    by (cases x) (auto simp: put_packets_def first_hops_def bind_act_def put_outbound_def py_index_def hd_conv_nth)
qed (simp add: put_packets_def first_hops_def)

lemma put_packets_real:
  "\<forall>(p, route) \<in> set out. route \<noteq> [] \<Longrightarrow>
   put_packets put_real out c = (Ok (), c\<lparr>real_packet_queue := real_packet_queue c @ first_hops out\<rparr>)"
proof (induction out arbitrary: c)
  case (Cons x out)
  then show ?case
    by (cases x) (auto simp: put_packets_def first_hops_def bind_act_def put_real_def py_index_def hd_conv_nth)
qed (simp add: put_packets_def first_hops_def)

lemma packets_for_routes:
  "packets_for S R topology dest fs w = (Ok out, w') \<Longrightarrow> \<forall>(p, route) \<in> set out. route \<noteq> []"
proof (induction fs arbitrary: out w w')
  case (Cons f fs)
  then show ?case
    by (fastforce simp: bind_act_def generate_route_def split: res.splits prod.splits)
qed simp

lemma build_packets_routes:
  "build_packets S R flag msg topology w = (Ok out, w') \<Longrightarrow> \<forall>(p, route) \<in> set out. route \<noteq> []"
  unfolding build_packets_def by (elim bind_act_cases) (auto dest: packets_for_routes)

section \<open>One emission\<close>

lemma emit_redundant:
  "redundant_real_packet_queue c = x # xs \<Longrightarrow>
   emit S R c = (Ok (), c\<lparr>redundant_real_packet_queue := xs, outbound_socket := outbound_socket c @ [x]\<rparr>)"
  by (simp add: emit_def put_outbound_def)

definition dequeued :: "('w, 'b, 'x, 'p) MixClient \<Rightarrow> ('w, 'b, 'x, 'p) MixClient" where
  "dequeued c = (case real_packet_queue c of
       [] \<Rightarrow> c
     | x # xs \<Rightarrow>
         let copies = replicate (nat (redundancy (client_config c) - 1)) x
         in c\<lparr>real_packet_queue := xs, outbound_socket := outbound_socket c @ copies,
             redundant_real_packet_queue := redundant_real_packet_queue c @ copies\<rparr>)"

lemma emit_real_eq: "emit_real c = (Ok (), dequeued c)"
  by (cases "real_packet_queue c") (simp_all add: emit_real_def dequeued_def redundant_copies Let_def algebra_simps)

lemma dequeued_simps [simp]:
  "client_config (dequeued c) = client_config c" "client_world (dequeued c) = client_world c"
  "client_task (dequeued c) = client_task c" "notifier (dequeued c) = notifier c" "notifications (dequeued c) = notifications c"
  by (simp_all add: dequeued_def Let_def split: list.splits)

lemma emit_cover_eq:
  "emit_cover S R c = (case build_drop_cover_packets S R drop_cover (client_topology (client_config c)) (client_world c) of
      (Ok out, w) \<Rightarrow> (Ok (), c\<lparr>client_world := w, outbound_socket := outbound_socket c @ first_hops out\<rparr>)
    | (Err e, w) \<Rightarrow> (Err e, c\<lparr>client_world := w\<rparr>)
    | (Diverge, w) \<Rightarrow> (Diverge, c\<lparr>client_world := w\<rparr>))"
proof -
  obtain q w where b: "build_packets S R MESSAGE_FLAG_DROP_COVER drop_cover (client_topology (client_config c)) (client_world c) = (q, w)"
    by (cases "build_packets S R MESSAGE_FLAG_DROP_COVER drop_cover (client_topology (client_config c)) (client_world c)")
  have put: "put_packets put_outbound out c1 = (Ok (), c1\<lparr>outbound_socket := outbound_socket c1 @ first_hops out\<rparr>)"
    if "q = Ok out" for out c1
    by (rule put_packets_outbound) (rule build_packets_routes [OF b [unfolded that]])
  show ?thesis
    by (cases q) (simp_all add: emit_cover_def bind_act_def in_world_def build_drop_cover_packets_def b put)
qed

lemma emit_cover_Ok:
  "emit_cover S R c = (Ok (), c1) \<Longrightarrow>
   \<exists>covers w. c1 = c\<lparr>client_world := w, outbound_socket := outbound_socket c @ covers\<rparr>"
  unfolding emit_cover_eq by (auto split: prod.splits res.splits)

lemma emit_fresh: "redundant_real_packet_queue c = [] \<Longrightarrow> emit S R c = emit_cover S R (dequeued c)"
  by (simp add: emit_def bind_act_Ok [OF emit_real_eq])

lemma for_each_const: "for_each (\<lambda>_. m) (map f xs) = for_each (\<lambda>_. m) xs"
  by (induction xs) auto

lemma ticks_Suc: "ticks S R (Suc n) c = bind_act (emit S R) (\<lambda>_. ticks S R n) c"
proof -
  have "[0..<Suc n] = 0 # map Suc [0..<n]" unfolding map_Suc_upt by (rule upt_conv_Cons) simp
  then show ?thesis by (simp add: ticks_def for_each_const del: upt_Suc)
qed

lemma ticks_drain:
  "redundant_real_packet_queue c = xs @ ys \<Longrightarrow>
   ticks S R (length xs) c = (Ok (), c\<lparr>redundant_real_packet_queue := ys, outbound_socket := outbound_socket c @ xs\<rparr>)"
proof (induction xs arbitrary: c)
  case (Cons x xs)
  then have "emit S R c = (Ok (), c\<lparr>redundant_real_packet_queue := xs @ ys, outbound_socket := outbound_socket c @ [x]\<rparr>)"
    by (simp add: emit_redundant)
  then show ?case using Cons.IH by (simp add: ticks_Suc bind_act_def)
qed (simp add: ticks_def)

section \<open>Cover packets\<close>

definition is_cover :: "('p \<Rightarrow> bytes) \<Rightarrow> 'p \<Rightarrow> bool" where
  "is_cover payload p \<longleftrightarrow> bind_res (fragment_from_bytes (payload p)) (\<lambda>f. parse_msg_and_flag (frag_body f)) =
     Ok (MESSAGE_FLAG_DROP_COVER, drop_cover)"

lemma cover_fragments:
  assumes "29 \<le> mp" and "fragment_chunks mp (flag_bytes MESSAGE_FLAG_DROP_COVER @ drop_cover) = Ok cs"
  shows "cs = [flag_bytes MESSAGE_FLAG_DROP_COVER @ drop_cover]"
proof -
  let ?m = "flag_bytes MESSAGE_FLAG_DROP_COVER @ drop_cover" and ?n = "nat (mp - 18)"
  have len: "length ?m = 11" by (simp add: drop_cover_def)
  then have "?m \<noteq> []" by (metis length_0_conv zero_neq_numeral)
  then have "batched ?m ?n = take ?n ?m # batched (drop ?n ?m) ?n"
    using assms(1) batched.simps [of ?m ?n] by simp
  moreover have "take ?n ?m = ?m" "drop ?n ?m = []" using assms(1) len by (simp_all del: flag_bytes.simps)
  moreover have "cs = batched ?m ?n"
    using assms by (simp add: fragment_chunks_def chunks_def MAX_PAYLOAD_SIZE_def header_SIZE_def
        del: flag_bytes.simps split: if_splits)
  ultimately show ?thesis by (simp add: batched.simps del: flag_bytes.simps)
qed

lemma cover_packets:
  assumes "carries S payload" and "proper_randomness R" and "29 \<le> max_plain_payload_size S"
    and "build_drop_cover_packets S R drop_cover topology w = (Ok out, w')"
  shows "length out = 1 \<and> (\<forall>x \<in> set (first_hops out). is_cover payload (snd x))"
proof -
  let ?m = "flag_bytes MESSAGE_FLAG_DROP_COVER @ drop_cover"
  from assms(4) obtain dest w1 fs w2 where
      fs: "FragmentSet_init S R ?m w1 = (Ok fs, w2)" and out: "packets_for S R topology dest fs w2 = (Ok out, w')"
    unfolding build_drop_cover_packets_def build_packets_def by (elim bind_act_cases) auto
  obtain sid where sid: "length sid = 16" "fs = set_fragments sid [?m]"
    using FragmentSet_init_spec [OF assms(2) fs] cover_fragments [OF assms(3)] by auto
  define f where "f = \<lparr>frag_header = \<lparr>set_id = sid, total_fragments = 1, fragment_id = 0\<rparr>, frag_body = ?m\<rparr>"
  have "fs = [f]" using sid(2) by (simp add: set_fragments_def f_def)
  with packets_for_spec [OF assms(1,2) out] obtain p route where
      o: "out = [(p, route)]" and "fragment_bytes f = Ok (payload p)"
    by (auto simp: list_all2_Cons1)
  then have "fragment_from_bytes (payload p) = Ok f" using fragment_roundtrip [of f] sid(1) by (simp add: f_def)
  then have "is_cover payload p" by (simp add: is_cover_def f_def parse_flagged del: flag_bytes.simps)
  then show ?thesis using o by (simp add: first_hops_def)
qed

text \<open>With a redundancy of at most one, everything the client sends is cover traffic.\<close>

definition covers_only :: "('p \<Rightarrow> bytes) \<Rightarrow> ('w, 'b, 'x, 'p) MixClient \<Rightarrow> bool" where
  "covers_only payload c \<longleftrightarrow> redundancy (client_config c) \<le> 1 \<and> redundant_real_packet_queue c = [] \<and>
     (\<forall>x \<in> set (outbound_socket c). is_cover payload (snd x))"

lemma emit_covers_only:
  assumes "carries S payload" and "proper_randomness R" and "29 \<le> max_plain_payload_size S"
    and "covers_only payload c" and "emit S R c = (r, c')"
  shows "covers_only payload c'"
proof -
  let ?d = "dequeued c"
  have d: "covers_only payload ?d"
    using assms(4) by (auto simp: covers_only_def dequeued_def Let_def split: list.splits)
  obtain q w where b: "build_drop_cover_packets S R drop_cover (client_topology (client_config ?d)) (client_world ?d) = (q, w)"
    by (cases "build_drop_cover_packets S R drop_cover (client_topology (client_config ?d)) (client_world ?d)")
  have run: "emit_cover S R ?d = (r, c')"
    using emit_fresh [of c S R] assms(4,5) by (simp add: covers_only_def)
  show ?thesis
  proof (cases q)
    case (Ok out)
    have "\<forall>x \<in> set (first_hops out). is_cover payload (snd x)"
      using cover_packets [OF assms(1-3) b [unfolded Ok]] by blast
    moreover have "c' = ?d\<lparr>client_world := w, outbound_socket := outbound_socket ?d @ first_hops out\<rparr>"
      using run unfolding emit_cover_eq b Ok by simp
    ultimately show ?thesis using d by (simp add: covers_only_def ball_Un)
  qed (use run d in \<open>auto simp: emit_cover_eq b covers_only_def simp del: dequeued_simps\<close>)
qed

lemma send_message_eq:
  "send_message S R msg c = (case build_real_packets S R msg (client_topology (client_config c)) (client_world c) of
      (Ok out, w) \<Rightarrow> (Ok (), c\<lparr>client_world := w, real_packet_queue := real_packet_queue c @ first_hops out\<rparr>)
    | (Err e, w) \<Rightarrow> (Err e, c\<lparr>client_world := w\<rparr>)
    | (Diverge, w) \<Rightarrow> (Diverge, c\<lparr>client_world := w\<rparr>))"
proof -
  obtain q w where b: "build_packets S R MESSAGE_FLAG_REAL msg (client_topology (client_config c)) (client_world c) = (q, w)"
    by (cases "build_packets S R MESSAGE_FLAG_REAL msg (client_topology (client_config c)) (client_world c)")
  have put: "put_packets put_real out c1 = (Ok (), c1\<lparr>real_packet_queue := real_packet_queue c1 @ first_hops out\<rparr>)"
    if "q = Ok out" for out c1
    by (rule put_packets_real) (rule build_packets_routes [OF b [unfolded that]])
  show ?thesis
    by (cases q) (simp_all add: send_message_def bind_act_def in_world_def build_real_packets_def b put)
qed

lemma send_covers_only:
  assumes "covers_only payload c" and "send_message S R msg c = (r, c')"
  shows "covers_only payload c'"
  using assms by (auto simp: send_message_eq covers_only_def split: prod.splits res.splits)

lemma client_emits_emit:
  assumes "client_emits S R c = (r, c')"
  shows "\<exists>c1. emit S R (c\<lparr>notifications := notifications c - 1\<rparr>) = (r, c1) \<and>
    c' = (case r of Err e \<Rightarrow> c1\<lparr>client_task := Failed e\<rparr> | _ \<Rightarrow> c1)"
  using assms by (auto simp: client_emits_def split: prod.splits res.splits)

lemma emission_notifier_keeps:
  "client_config (emission_notifier D c) = client_config c"
  "redundant_real_packet_queue (emission_notifier D c) = redundant_real_packet_queue c"
  "real_packet_queue (emission_notifier D c) = real_packet_queue c"
  "outbound_socket (emission_notifier D c) = outbound_socket c"
  "client_task (emission_notifier D c) = client_task c"
  by (simp_all add: emission_notifier_def split: prod.split res.split)

lemma MixClient_cancel_eq:
  "MixClient_cancel c = (r, c') \<Longrightarrow> c' = c\<lparr>client_task := snd (cancel_task (client_task c))\<rparr> \<and> r = fst (cancel_task (client_task c))"
  by (auto simp: MixClient_cancel_def split: prod.splits)

lemma step_covers_only:
  assumes "carries S payload" and "proper_randomness R" and "29 \<le> max_plain_payload_size S"
    and "covers_only payload c" and "client_step S R D c c'"
  shows "covers_only payload c'"
  using assms(5)
proof (rule client_stepE)
  fix r
  assume "client_emits S R c = (r, c')"
  then obtain c1 where "emit S R (c\<lparr>notifications := notifications c - 1\<rparr>) = (r, c1)"
      and c': "c' = (case r of Err e \<Rightarrow> c1\<lparr>client_task := Failed e\<rparr> | _ \<Rightarrow> c1)"
    using client_emits_emit by blast
  moreover have "covers_only payload (c\<lparr>notifications := notifications c - 1\<rparr>)" using assms(4) by (simp add: covers_only_def)
  ultimately have "covers_only payload c1" by (blast intro: emit_covers_only [OF assms(1-3)])
  with c' show ?thesis by (cases r) (simp_all add: covers_only_def)
next
  assume "c' = emission_notifier D c"
  with assms(4) show ?thesis by (simp add: covers_only_def emission_notifier_keeps)
next
  fix r
  assume "MixClient_cancel c = (r, c')"
  then show ?thesis using assms(4) by (auto dest!: MixClient_cancel_eq simp: covers_only_def)
qed (use assms(4) send_covers_only [OF assms(4)] in
      \<open>simp_all add: covers_only_def set_topology_def client_starts_def\<close>)

end
