(* ===== verification/Mix_Node.thy ===== *)
theory Mix_Node
  imports Mix_Client
begin

text \<open>
  deprecated/mixnet_v1/node.py: the mix node, a server that handles every packet in a task of its own.

  A node's queues are lists, and \<open>tasks\<close> is its set of tasks, in the order of their creation. Such a
  task draws its delay when it begins, from a generator whose state is whatever the other tasks have
  left; it then sleeps and may end at any time. A task that raises, when it draws or when it
  processes, ends without output. \<open>node_step\<close> is what can happen inside the node, \<open>node_run\<close> a run,
  labelled with the packets that arrive. Cancelling stops the loop that accepts packets; the tasks
  of the accepted ones go on. The lemmas show that no packet is lost or sent twice (\<open>load\<close>) and that
  the node comes to rest only when it has done what it may (\<open>work\<close>).
\<close>

section \<open>The mix node\<close>

record 'x MixNodeConfig =
  mixnode_private_key :: 'x
  delay_rate_per_min :: int

datatype 'p service = Created (service_packet: 'p) | Asleep (service_packet: 'p)

record ('x, 'p, 'l) MixNode =
  node_config :: "'x MixNodeConfig"
  inbound_socket :: "(bytes \<times> 'p) list"
  node_outbound_socket :: "(bytes \<times> ('p + 'l)) list"
  node_task :: task
  tasks :: "'p service list"

definition MixNode_new :: "'x MixNodeConfig \<Rightarrow> ('x, 'p, 'l) MixNode" where
  "MixNode_new config = \<lparr>node_config = config, inbound_socket = [], node_outbound_socket = [], node_task = Running, tasks = []\<rparr>"

definition node_accept :: "('x, 'p, 'l) MixNode \<Rightarrow> ('x, 'p, 'l) MixNode" where
  "node_accept n = (case inbound_socket n of
       [] \<Rightarrow> n
     | (a, packet) # rest \<Rightarrow> n\<lparr>inbound_socket := rest, tasks := tasks n @ [Created packet]\<rparr>)"

definition remove_task :: "nat \<Rightarrow> ('x, 'p, 'l) MixNode \<Rightarrow> ('x, 'p, 'l) MixNode" where
  "remove_task i n = n\<lparr>tasks := take i (tasks n) @ drop (Suc i) (tasks n)\<rparr>"

definition task_begins ::
    "('w, 'sk) Draws \<Rightarrow> 'w \<Rightarrow> nat \<Rightarrow> ('x, 'p, 'l) MixNode \<Rightarrow> ('x, 'p, 'l) MixNode" where
  "task_begins D w i n =
     (case fst (poisson_interval_sec D (delay_rate_per_min (node_config n)) w) of
        Ok delay_sec \<Rightarrow> n\<lparr>tasks := (tasks n)[i := Asleep (service_packet (tasks n ! i))]\<rparr>
      | Err e \<Rightarrow> remove_task i n
      | Diverge \<Rightarrow> n)"

definition process_packet ::
    "('w, 'x, 'n, 'p, 'l) Sphinx \<Rightarrow> 'p \<Rightarrow> 'x \<Rightarrow> (exn, bytes \<times> ('p + 'l)) res" where
  "process_packet S packet key =
     bind_res (sphinx_process S packet key) (\<lambda>processed.
       case processed of
         ProcessedForwardHop next_node_address next_packet \<Rightarrow> Ok (next_node_address, Inl next_packet)
       | ProcessedFinalHop destination_node_address payload \<Rightarrow> Ok (destination_node_address, Inr payload)
       | UnknownHop \<Rightarrow> Err UnknownHeaderTypeError)"

definition task_ends ::
    "('w, 'x, 'n, 'p, 'l) Sphinx \<Rightarrow> nat \<Rightarrow> ('x, 'p, 'l) MixNode \<Rightarrow> ('x, 'p, 'l) MixNode" where
  "task_ends S i n =
     (case process_packet S (service_packet (tasks n ! i)) (mixnode_private_key (node_config n)) of
        Ok x \<Rightarrow> (remove_task i n)\<lparr>node_outbound_socket := node_outbound_socket n @ [x]\<rparr>
      | _ \<Rightarrow> remove_task i n)"

definition MixNode_cancel :: "(('x, 'p, 'l) MixNode, exn, unit) action" where
  "MixNode_cancel n = (case cancel_task (node_task n) of (r, t) \<Rightarrow> (r, n\<lparr>node_task := t\<rparr>))"

inductive node_step ::
    "('w, 'x, 'n, 'p, 'l) Sphinx \<Rightarrow> ('w, 'sk) Draws \<Rightarrow> ('x, 'p, 'l) MixNode \<Rightarrow> ('x, 'p, 'l) MixNode \<Rightarrow> bool"
    for S D where
  accept: "node_task n = Running \<Longrightarrow> node_step S D n (node_accept n)"
| task_begin: "i < length (tasks n) \<Longrightarrow> tasks n ! i = Created p \<Longrightarrow> node_step S D n (task_begins D w i n)"
| finish: "i < length (tasks n) \<Longrightarrow> tasks n ! i = Asleep p \<Longrightarrow> node_step S D n (task_ends S i n)"
| cancel: "MixNode_cancel n = (r, n') \<Longrightarrow> node_step S D n n'"

inductive_cases node_stepE: "node_step S D n n'"

definition arrives :: "bytes \<times> 'p \<Rightarrow> ('x, 'p, 'l) MixNode \<Rightarrow> ('x, 'p, 'l) MixNode" where
  "arrives x n = n\<lparr>inbound_socket := inbound_socket n @ [x]\<rparr>"

inductive node_run ::
    "('w, 'x, 'n, 'p, 'l) Sphinx \<Rightarrow> ('w, 'sk) Draws \<Rightarrow> (bytes \<times> 'p) list \<Rightarrow>
     ('x, 'p, 'l) MixNode \<Rightarrow> ('x, 'p, 'l) MixNode \<Rightarrow> bool"
    for S D where
  start: "node_run S D [] n n"
| arrive: "node_run S D xs m n \<Longrightarrow> node_run S D (xs @ [x]) m (arrives x n)"
| move: "node_run S D xs m n \<Longrightarrow> node_step S D n n' \<Longrightarrow> node_run S D xs m n'"

lemma node_run_steps: "node_run S D xs m n \<Longrightarrow> (node_step S D)\<^sup>*\<^sup>* n n' \<Longrightarrow> node_run S D xs m n'"
  by (rotate_tac, induction rule: rtranclp_induct) (auto intro: node_run.move)

section \<open>Nothing is lost, nothing is sent twice\<close>

text \<open>
  \<open>load v t n\<close> adds up, over all packets of a node, the weight \<open>v\<close> of those not processed yet and the
  weight \<open>t\<close> of what is to leave. When the weight of a packet is that of what it is processed to, no
  step changes the load.
\<close>

definition load ::
    "('p \<Rightarrow> 'y multiset) \<Rightarrow> (bytes \<times> ('p + 'l) \<Rightarrow> 'y multiset) \<Rightarrow> ('x, 'p, 'l) MixNode \<Rightarrow> 'y multiset" where
  "load v t n = sum_list (map t (node_outbound_socket n)) + sum_list (map (v \<circ> service_packet) (tasks n)) +
     sum_list (map (v \<circ> snd) (inbound_socket n))"

definition balanced ::
    "('w, 'x, 'n, 'p, 'l) Sphinx \<Rightarrow> 'x \<Rightarrow> ('p \<Rightarrow> 'y multiset) \<Rightarrow> (bytes \<times> ('p + 'l) \<Rightarrow> 'y multiset) \<Rightarrow> bool" where
  "balanced S key v t \<longleftrightarrow> (\<forall>p. v p = (case process_packet S p key of Ok x \<Rightarrow> t x | _ \<Rightarrow> {#}))"

lemma sum_list_remove:
  fixes v :: "'a \<Rightarrow> 'y :: comm_monoid_add"
  assumes "i < length xs"
  shows "sum_list (map v xs) = v (xs ! i) + sum_list (map v (take i xs @ drop (Suc i) xs))"
proof -
  have "sum_list (map v xs) = sum_list (map v (take i xs @ xs ! i # drop (Suc i) xs))"
    using assms by (simp only: id_take_nth_drop [symmetric])
  then show ?thesis by (simp add: add.left_commute)
qed

lemma sum_list_same:
  assumes "v y = v (xs ! i)"
  shows "map v (xs[i := y]) = map v xs"
  using assms by (cases "i < length xs") (simp_all add: map_update list_update_same_conv list_update_beyond)

lemma load_arrives: "load v t (arrives x n) = load v t n + v (snd x)"
  by (simp add: load_def arrives_def add.assoc)

lemma load_begins:
  assumes "timely D (delay_rate_per_min (node_config n))"
  shows "load v t (task_begins D w i n) = load v t n"
proof -
  obtain s w' where "poisson_interval_sec D (delay_rate_per_min (node_config n)) w = (Ok s, w')"
    using assms unfolding timely_def by blast
  then show ?thesis by (simp add: task_begins_def load_def sum_list_same)
qed

lemma load_ends:
  assumes "i < length (tasks n)" and "balanced S (mixnode_private_key (node_config n)) v t"
  shows "load v t (task_ends S i n) = load v t n"
proof -
  let ?p = "service_packet (tasks n ! i)"
  have v: "v ?p = (case process_packet S ?p (mixnode_private_key (node_config n)) of Ok x \<Rightarrow> t x | _ \<Rightarrow> {#})"
    using assms(2) unfolding balanced_def by blast
  show ?thesis
    using sum_list_remove [OF assms(1), of "v \<circ> service_packet"] v
    by (cases "process_packet S ?p (mixnode_private_key (node_config n))")
       (simp_all add: task_ends_def load_def remove_task_def)
qed

lemma step_config: "node_step S D n n' \<Longrightarrow> node_config n' = node_config n"
  by (auto elim!: node_stepE simp: node_accept_def task_begins_def task_ends_def MixNode_cancel_def remove_task_def
      split: list.splits prod.splits res.splits)

lemma step_load:
  assumes "node_step S D n n'" and "timely D (delay_rate_per_min (node_config n))"
    and "balanced S (mixnode_private_key (node_config n)) v t"
  shows "load v t n' = load v t n"
  using assms(1)
proof (rule node_stepE)
  assume "n' = node_accept n"
  then show ?thesis
    by (cases "inbound_socket n") (auto simp: node_accept_def load_def add_ac split: prod.split)
next
  fix r
  assume "MixNode_cancel n = (r, n')"
  then show ?thesis by (auto simp: MixNode_cancel_def load_def split: prod.splits)
qed (simp_all add: load_begins [OF assms(2)] load_ends [OF _ assms(3)])

lemma run_load:
  assumes "node_run S D xs m n" and "timely D (delay_rate_per_min (node_config m))"
    and "balanced S (mixnode_private_key (node_config m)) v t"
  shows "load v t n = load v t m + sum_list (map (v \<circ> snd) xs) \<and> node_config n = node_config m"
  using assms
proof (induction rule: node_run.induct)
  case (arrive xs m n x)
  then show ?case by (simp add: load_arrives add.assoc) (simp add: arrives_def)
next
  case (move xs m n n')
  then show ?case using step_load [OF move.hyps(2), of v t] step_config [OF move.hyps(2)] by simp
qed simp

text \<open>What leaves a node, and what is left to do once it has been cancelled.\<close>

definition output_of :: "('w, 'x, 'n, 'p, 'l) Sphinx \<Rightarrow> 'x \<Rightarrow> 'p \<Rightarrow> (bytes \<times> ('p + 'l)) multiset" where
  "output_of S key p = (case process_packet S p key of Ok x \<Rightarrow> {#x#} | _ \<Rightarrow> {#})"

lemma balanced_outputs: "balanced S key (output_of S key) (\<lambda>x. {#x#})"
  by (simp add: balanced_def output_of_def)

lemma cancelled_accepts_nothing:
  assumes "node_step S D n n'" and "node_task n \<noteq> Running"
  shows "node_task n' \<noteq> Running \<and> inbound_socket n' = inbound_socket n"
  using assms cancel_task_stops [of "node_task n"]
  by (auto elim!: node_stepE simp: MixNode_cancel_def task_begins_def task_ends_def remove_task_def
      split: prod.splits res.splits)

text \<open>With a rate of zero every task raises as it begins.\<close>

lemma rate_zero_silent:
  assumes "node_run S D xs m n" and "delay_rate_per_min (node_config m) = 0"
    and "list_all (\<lambda>s. s = Created (service_packet s)) (tasks m)"
  shows "node_outbound_socket n = node_outbound_socket m"
proof -
  have "node_outbound_socket n = node_outbound_socket m \<and> node_config n = node_config m \<and>
      list_all (\<lambda>s. s = Created (service_packet s)) (tasks n)"
    using assms
  proof (induction rule: node_run.induct)
    case (move xs m n n')
    then have n: "node_outbound_socket n = node_outbound_socket m" "delay_rate_per_min (node_config n) = 0"
      "node_config n = node_config m" "list_all (\<lambda>s. s = Created (service_packet s)) (tasks n)" by simp_all
    from move.hyps(2) show ?case
    proof (rule node_stepE)
      fix i p
      assume "i < length (tasks n)" and "tasks n ! i = Asleep p"
      with n(4) show ?thesis by (auto simp: list_all_length)
    qed (use n in \<open>auto simp: node_accept_def task_begins_def no_interval remove_task_def MixNode_cancel_def
        list_all_iff dest: in_set_takeD in_set_dropD split: list.splits prod.splits\<close>)
  qed (simp_all add: arrives_def)
  then show ?thesis by blast
qed

section \<open>Everything accepted is processed\<close>

text \<open>
  A \<open>work_step\<close> is a move of the node that changes it and is not a cancellation. Each does some of the
  \<open>work\<close>: a waiting packet is to be accepted, a new task to draw its delay, a sleeping one to end. So the
  node comes to rest, and it does so only when there is nothing left it may do.
\<close>

definition work_step ::
    "('w, 'x, 'n, 'p, 'l) Sphinx \<Rightarrow> ('w, 'sk) Draws \<Rightarrow> ('x, 'p, 'l) MixNode \<Rightarrow> ('x, 'p, 'l) MixNode \<Rightarrow> bool" where
  "work_step S D n n' \<longleftrightarrow> node_step S D n n' \<and> node_task n' = node_task n \<and> n' \<noteq> n"

fun task_work :: "'p service \<Rightarrow> nat" where
  "task_work (Created p) = 2"
| "task_work (Asleep p) = 1"

definition work :: "('x, 'p, 'l) MixNode \<Rightarrow> nat" where
  "work n = 3 * length (inbound_socket n) + sum_list (map task_work (tasks n))"

lemma work_step_config: "work_step S D n n' \<Longrightarrow> node_config n' = node_config n"
  unfolding work_step_def by (blast intro: step_config)

lemma begins_timely:
  "timely D (delay_rate_per_min (node_config n)) \<Longrightarrow>
   task_begins D w i n = n\<lparr>tasks := (tasks n)[i := Asleep (service_packet (tasks n ! i))]\<rparr>"
proof -
  assume "timely D (delay_rate_per_min (node_config n))"
  then obtain s w' where "poisson_interval_sec D (delay_rate_per_min (node_config n)) w = (Ok s, w')"
    unfolding timely_def by blast
  then show ?thesis by (simp add: task_begins_def)
qed

lemma task_ends_tasks:
  "tasks (task_ends S i n) = take i (tasks n) @ drop (Suc i) (tasks n)"
  "inbound_socket (task_ends S i n) = inbound_socket n" "node_task (task_ends S i n) = node_task n"
  by (simp_all add: task_ends_def remove_task_def split: res.splits)

lemma work_decreases:
  assumes step: "work_step S D n n'" and D: "timely D (delay_rate_per_min (node_config n))"
  shows "work n' < work n"
proof -
  from step have s: "node_step S D n n'" and same: "node_task n' = node_task n" and ne: "n' \<noteq> n"
    by (simp_all add: work_step_def)
  from s show ?thesis
  proof (rule node_stepE)
    assume "n' = node_accept n"
    with ne show ?thesis
      by (cases "inbound_socket n") (auto simp: node_accept_def work_def split: prod.splits)
  next
    fix i p w
    assume n': "n' = task_begins D w i n" and i: "i < length (tasks n)" "tasks n ! i = Created p"
    have "sum_list (map task_work (tasks n)) = 2 + sum_list (map task_work (take i (tasks n) @ drop (Suc i) (tasks n)))"
      using sum_list_remove [OF i(1), of task_work] i(2) by simp
    moreover have "sum_list (map task_work ((tasks n)[i := Asleep p])) =
        1 + sum_list (map task_work (take i (tasks n) @ drop (Suc i) (tasks n)))"
      using i(1) by (simp add: upd_conv_take_nth_drop)
    ultimately show ?thesis using i by (simp add: n' begins_timely [OF D] work_def)
  next
    fix i p
    assume n': "n' = task_ends S i n" and i: "i < length (tasks n)" "tasks n ! i = Asleep p"
    show ?thesis
      using sum_list_remove [OF i(1), of task_work] i(2) by (simp add: n' work_def task_ends_tasks)
  next
    fix r
    assume "MixNode_cancel n = (r, n')"
    then show ?thesis using same ne by (auto simp: MixNode_cancel_def split: prod.splits)
  qed
qed

lemma work_ends:
  assumes "timely D (delay_rate_per_min (node_config (g 0)))"
  shows "\<exists>k. \<not> work_step S D (g k) (g (Suc k))"
proof (rule ccontr)
  assume "\<nexists>k. \<not> work_step S D (g k) (g (Suc k))"
  then have all: "work_step S D (g k) (g (Suc k))" for k by blast
  have "node_config (g k) = node_config (g 0) \<and> work (g k) + k \<le> work (g 0)" for k
  proof (induction k)
    case (Suc k)
    then have "work (g (Suc k)) < work (g k)" using work_decreases [OF all] assms by simp
    with Suc work_step_config [OF all, of k] show ?case by simp
  qed simp
  from this [of "Suc (work (g 0))"] show False by simp
qed

lemma rest_has_no_tasks:
  assumes rest: "\<nexists>n'. work_step S D n n'" and D: "timely D (delay_rate_per_min (node_config n))"
  shows "tasks n = []" and "node_task n = Running \<Longrightarrow> inbound_socket n = []"
proof -
  show "tasks n = []"
  proof (cases "tasks n")
    case (Cons s ts)
    show ?thesis
    proof (cases s)
      case (Created p)
      with Cons have "node_step S D n (task_begins D undefined 0 n)" by (intro node_step.task_begin) auto
      moreover have "task_begins D undefined 0 n \<noteq> n" "node_task (task_begins D undefined 0 n) = node_task n"
        using Cons Created by (auto simp: begins_timely [OF D] dest: arg_cong [of _ _ tasks])
      ultimately show ?thesis using rest by (auto simp: work_step_def)
    next
      case (Asleep p)
      with Cons have "node_step S D n (task_ends S 0 n)" by (intro node_step.finish) auto
      moreover have "tasks (task_ends S 0 n) \<noteq> tasks n" using Cons by (simp add: task_ends_tasks)
      ultimately show ?thesis using rest task_ends_tasks(3) [of S 0 n] unfolding work_step_def by metis
    qed
  qed simp
  show "inbound_socket n = []" if run: "node_task n = Running"
  proof (cases "inbound_socket n")
    case (Cons x xs)
    have "node_step S D n (node_accept n)" using run by (rule node_step.accept)
    moreover have "inbound_socket (node_accept n) \<noteq> inbound_socket n" "node_task (node_accept n) = node_task n"
      using Cons by (auto simp: node_accept_def split: prod.splits)
    ultimately show ?thesis using rest unfolding work_step_def by metis
  qed simp
qed

lemma work_steps_keep:
  assumes "(work_step S D)\<^sup>*\<^sup>* n n'"
  shows "(node_step S D)\<^sup>*\<^sup>* n n' \<and> node_task n' = node_task n \<and>
    (node_task n \<noteq> Running \<longrightarrow> inbound_socket n' = inbound_socket n)"
  using assms
proof (induction rule: rtranclp_induct)
  case (step y z)
  then have "node_step S D y z" "node_task z = node_task y" by (simp_all add: work_step_def)
  with step cancelled_accepts_nothing [of S D y z] show ?case by (auto intro: rtranclp.rtrancl_into_rtrancl)
qed simp

end
