(* ===== verification/Mix_Process.thy ===== *)
theory Mix_Process
  imports Mix_Node
begin

text \<open>
  deprecated/mixnet_v1/mixnet.py: the process that owns a client and a node and renews the topology
  whenever an entropy arrives.

  \<open>mixnet_step\<close> interleaves the three tasks of the process with the calls of the application. The
  await inside \<open>cancel\<close> lets other tasks run in between; as cancelling one task does not change what
  the others do, that is the same as their running before.
\<close>

section \<open>The mixnet process\<close>

record ('w, 'b, 'x, 'p, 'l) Mixnet =
  topology_config :: "('b, 'x) MixnetTopologyConfig"
  mixclient :: "('w, 'b, 'x, 'p) MixClient"
  mixnode :: "('x, 'p, 'l) MixNode"
  entropy_queue :: "bytes list"
  consumer_task :: task

record ('b, 'x) MixnetConfig =
  config_topology :: "('b, 'x) MixnetTopologyConfig"
  config_client :: "('b, 'x) MixClientConfig"
  config_node :: "'x MixNodeConfig"

definition Mixnet_new :: "('b, 'x) MixnetConfig \<Rightarrow> bytes list \<Rightarrow> 'w \<Rightarrow> ('w, 'b, 'x, 'p, 'l) Mixnet" where
  "Mixnet_new config queue w = \<lparr>topology_config = config_topology config, mixclient = MixClient_new (config_client config) w,
     mixnode = MixNode_new (config_node config), entropy_queue = queue, consumer_task = Running\<rparr>"

definition on_client :: "(('w, 'b, 'x, 'p) MixClient, exn, 'a) action \<Rightarrow> (('w, 'b, 'x, 'p, 'l) Mixnet, exn, 'a) action" where
  "on_client f m = (case f (mixclient m) of (r, c) \<Rightarrow> (r, m\<lparr>mixclient := c\<rparr>))"

definition on_node :: "(('x, 'p, 'l) MixNode, exn, 'a) action \<Rightarrow> (('w, 'b, 'x, 'p, 'l) Mixnet, exn, 'a) action" where
  "on_node f m = (case f (mixnode m) of (r, n) \<Rightarrow> (r, m\<lparr>mixnode := n\<rparr>))"

definition publish_message ::
    "('w, 'x, 'n, 'p, 'l) Sphinx \<Rightarrow> 'w Randomness \<Rightarrow> bytes \<Rightarrow> (('w, 'b, 'x, 'p, 'l) Mixnet, exn, unit) action" where
  "publish_message S R msg = on_client (send_message S R msg)"

definition mixnet_subscribe :: "('w, 'b, 'x, 'p, 'l) Mixnet \<Rightarrow> bytes list" where
  "mixnet_subscribe m = subscribe_messages (mixclient m)"

definition consume_entropy ::
    "'w Randomness \<Rightarrow> ('w, 'b, 'x, 'p, 'l) Mixnet \<Rightarrow> ('w, 'b, 'x, 'p, 'l) Mixnet" where
  "consume_entropy R m = (case entropy_queue m of
       [] \<Rightarrow> m
     | e # rest \<Rightarrow>
         let config = (topology_config m)\<lparr>entropy := e\<rparr>;
             (topology, w) = MixnetTopology_init R config (client_world (mixclient m))
         in m\<lparr>entropy_queue := rest, topology_config := config,
              mixclient := set_topology topology ((mixclient m)\<lparr>client_world := w\<rparr>)\<rparr>)"

definition cancel_consumer :: "(('w, 'b, 'x, 'p, 'l) Mixnet, exn, unit) action" where
  "cancel_consumer m = (case cancel_task (consumer_task m) of (r, t) \<Rightarrow> (r, m\<lparr>consumer_task := t\<rparr>))"

definition Mixnet_cancel :: "(('w, 'b, 'x, 'p, 'l) Mixnet, exn, unit) action" where
  "Mixnet_cancel =
     bind_act cancel_consumer (\<lambda>_.
     bind_act (on_client MixClient_cancel) (\<lambda>_.
       on_node MixNode_cancel))"

definition mixnet_topology :: "('w, 'b, 'x, 'p, 'l) Mixnet \<Rightarrow> ('b, 'x) MixnetTopology" where
  "mixnet_topology m = get_topology (mixclient m)"

inductive mixnet_step ::
    "('w, 'x, 'n, 'p, 'l) Sphinx \<Rightarrow> 'w Randomness \<Rightarrow> ('w, 'sk) Draws \<Rightarrow>
     ('w, 'b, 'x, 'p, 'l) Mixnet \<Rightarrow> ('w, 'b, 'x, 'p, 'l) Mixnet \<Rightarrow> bool"
    for S R D where
  publish: "publish_message S R msg m = (r, m') \<Longrightarrow> mixnet_step S R D m m'"
| entropy_arrives: "mixnet_step S R D m (m\<lparr>entropy_queue := entropy_queue m @ [e]\<rparr>)"
| consume: "consumer_task m = Running \<Longrightarrow> mixnet_step S R D m (consume_entropy R m)"
| begins: "client_task (mixclient m) = Running \<Longrightarrow> notifier (mixclient m) = None \<Longrightarrow>
    mixnet_step S R D m (m\<lparr>mixclient := client_starts (mixclient m)\<rparr>)"
| notify: "notifier (mixclient m) = Some Running \<Longrightarrow>
    mixnet_step S R D m (m\<lparr>mixclient := emission_notifier D (mixclient m)\<rparr>)"
| tick: "client_task (mixclient m) = Running \<Longrightarrow> 0 < notifications (mixclient m) \<Longrightarrow>
    on_client (client_emits S R) m = (r, m') \<Longrightarrow> r \<noteq> Diverge \<Longrightarrow> mixnet_step S R D m m'"
| packet: "mixnet_step S R D m (m\<lparr>mixnode := arrives x (mixnode m)\<rparr>)"
| node: "node_step S D (mixnode m) n \<Longrightarrow> mixnet_step S R D m (m\<lparr>mixnode := n\<rparr>)"
| cancel: "Mixnet_cancel m = (r, m') \<Longrightarrow> mixnet_step S R D m m'"

inductive_cases mixnet_stepE: "mixnet_step S R D m m'"

lemma consume_topology:
  "entropy_queue m = e # rest \<Longrightarrow> mixnet_topology (consume_entropy R m) =
     topology_layers (topology_size (topology_config m))
       (fst (FisherYates_shuffle R (mixnode_candidates (topology_config m)) e (client_world (mixclient m))))"
  by (simp add: consume_entropy_def mixnet_topology_def get_topology_def set_topology_def MixnetTopology_init_def
      split_def Let_def)

section \<open>Cancelling\<close>

text \<open>Neither the task that consumes entropies nor the one that accepts packets can fail.\<close>

definition sound_tasks :: "('w, 'b, 'x, 'p, 'l) Mixnet \<Rightarrow> bool" where
  "sound_tasks m \<longleftrightarrow> consumer_task m \<in> {Running, Cancelled} \<and> node_task (mixnode m) \<in> {Running, Cancelled}"

lemma cancel_sound: "t \<in> {Running, Cancelled} \<Longrightarrow> cancel_task t = (Ok (), Cancelled)"
  by auto

lemma Mixnet_cancel_eq:
  assumes "sound_tasks m"
  shows "Mixnet_cancel m = (case client_task (mixclient m) of
     Failed e \<Rightarrow> (Err e, m\<lparr>consumer_task := Cancelled\<rparr>)
   | _ \<Rightarrow> (Ok (), m\<lparr>consumer_task := Cancelled, mixclient := (mixclient m)\<lparr>client_task := Cancelled\<rparr>,
       mixnode := (mixnode m)\<lparr>node_task := Cancelled\<rparr>\<rparr>))"
  using assms cancel_sound [of "consumer_task m"] cancel_sound [of "node_task (mixnode m)"]
  by (cases "client_task (mixclient m)")
     (simp_all add: sound_tasks_def Mixnet_cancel_def bind_act_def cancel_consumer_def on_client_def on_node_def
       MixClient_cancel_def MixNode_cancel_def)

lemma MixNode_cancel_sound:
  "MixNode_cancel n = (r, n') \<Longrightarrow> n' = n\<lparr>node_task := node_task n'\<rparr> \<and> (node_task n \<in> {Running, Cancelled} \<longrightarrow> node_task n' = Cancelled)"
  by (auto simp: MixNode_cancel_def split: prod.splits)

lemma node_step_sound:
  "node_step S D n n' \<Longrightarrow> node_task n \<in> {Running, Cancelled} \<Longrightarrow> node_task n' \<in> {Running, Cancelled}"
  using MixNode_cancel_sound [of n]
  by (auto elim!: node_stepE simp: node_accept_def task_begins_def task_ends_def remove_task_def
      split: list.splits prod.splits res.splits)

lemma step_sound:
  assumes "mixnet_step S R D m m'" and "sound_tasks m"
  shows "sound_tasks m'"
  using assms(1)
proof (rule mixnet_stepE)
  fix r
  assume "Mixnet_cancel m = (r, m')"
  then show ?thesis using assms(2) unfolding Mixnet_cancel_eq [OF assms(2)] sound_tasks_def
    by (auto split: task.splits)
next
  assume "m' = consume_entropy R m"
  then show ?thesis using assms(2)
    by (auto simp: sound_tasks_def consume_entropy_def Let_def split: list.splits prod.splits)
next
  fix n
  assume "m' = m\<lparr>mixnode := n\<rparr>" and "node_step S D (mixnode m) n"
  then show ?thesis using assms(2) node_step_sound by (simp add: sound_tasks_def del: insert_iff) blast
qed (use assms(2) in \<open>auto simp: sound_tasks_def publish_message_def on_client_def arrives_def split: prod.splits\<close>)

text \<open>What a cancelled process still does.\<close>

definition stopped :: "('w, 'b, 'x, 'p, 'l) Mixnet \<Rightarrow> bool" where
  "stopped m \<longleftrightarrow> sound_tasks m \<and> consumer_task m \<noteq> Running \<and> client_task (mixclient m) \<noteq> Running \<and> node_task (mixnode m) \<noteq> Running"

definition winds_down :: "('w, 'b, 'x, 'p, 'l) Mixnet \<Rightarrow> ('w, 'b, 'x, 'p, 'l) Mixnet \<Rightarrow> bool" where
  "winds_down m m' \<longleftrightarrow> outbound_socket (mixclient m') = outbound_socket (mixclient m) \<and>
     mixnet_topology m' = mixnet_topology m \<and> prefix (inbound_socket (mixnode m)) (inbound_socket (mixnode m')) \<and>
     length (node_outbound_socket (mixnode m')) + length (tasks (mixnode m')) \<le>
       length (node_outbound_socket (mixnode m)) + length (tasks (mixnode m))"

lemma send_message_fields:
  assumes "send_message S R msg c = (r, c')"
  shows "outbound_socket c' = outbound_socket c" "client_task c' = client_task c" "client_config c' = client_config c"
  using assms by (auto simp: send_message_eq split: prod.splits res.splits)

lemma node_winds_down:
  assumes "node_step S D n n'" and "node_task n \<noteq> Running"
  shows "length (node_outbound_socket n') + length (tasks n') \<le> length (node_outbound_socket n) + length (tasks n)"
  using assms
  by (auto elim!: node_stepE simp: task_begins_def task_ends_def remove_task_def MixNode_cancel_def
      split: prod.splits res.splits)

lemma stopped_step:
  assumes "mixnet_step S R D m m'" and "stopped m"
  shows "stopped m' \<and> winds_down m m'"
proof -
  have sound: "sound_tasks m'" using step_sound [OF assms(1)] assms(2) by (simp add: stopped_def)
  note s = assms(2) [unfolded stopped_def]
  from assms(1) show ?thesis
  proof (rule mixnet_stepE)
    fix msg r
    assume "publish_message S R msg m = (r, m')"
    then obtain c where c: "send_message S R msg (mixclient m) = (r, c)" and "m' = m\<lparr>mixclient := c\<rparr>"
      by (auto simp: publish_message_def on_client_def split: prod.splits)
    then show ?thesis using send_message_fields [OF c] s sound
      by (simp add: stopped_def winds_down_def mixnet_topology_def get_topology_def)
  next
    fix n
    assume n: "m' = m\<lparr>mixnode := n\<rparr>" and "node_step S D (mixnode m) n"
    then show ?thesis using s sound cancelled_accepts_nothing [of S D "mixnode m" n] node_winds_down [of S D "mixnode m" n]
      by (simp add: stopped_def winds_down_def mixnet_topology_def)
  next
    fix r
    assume "Mixnet_cancel m = (r, m')"
    then show ?thesis using s sound unfolding Mixnet_cancel_eq [OF conjunct1 [OF s]]
      by (auto simp: stopped_def winds_down_def mixnet_topology_def get_topology_def split: task.splits)
  qed (use s sound in \<open>auto simp: stopped_def winds_down_def mixnet_topology_def get_topology_def arrives_def
      emission_notifier_keeps\<close>)
qed

interpretation stopping: monotone_system "mixnet_step S R D" stopped winds_down
proof unfold_locales
  show "stopped m \<Longrightarrow> mixnet_step S R D m m' \<Longrightarrow> stopped m'" for m m' using stopped_step by blast
  show "stopped m \<Longrightarrow> mixnet_step S R D m m' \<Longrightarrow> winds_down m m'" for m m' using stopped_step by blast
qed (auto simp: winds_down_def)

interpretation process: invariant_system "mixnet_step S R D" sound_tasks
  by unfold_locales (rule step_sound)

lemma sound_new: "sound_tasks (Mixnet_new config queue w)"
  by (simp add: sound_tasks_def Mixnet_new_def MixNode_new_def)

end
