(* ===== verification/Mix_Network.thy ===== *)
theory Mix_Network
  imports Mix_Process
begin

text \<open>
  A network of mix nodes: what packets become of on their way from the client to their destination.

  A network holds the nodes by address. What a node puts into its outbound socket for an address is
  moved to the inbound socket of the node there, or handed over when it is a payload; the code
  leaves that transport to the sockets. \<open>net_run\<close> interleaves the nodes and the transport in any
  order and is labelled with the packets that come from outside.
\<close>

section \<open>The network\<close>

record ('x, 'p, 'l) network =
  node_at :: "bytes \<Rightarrow> ('x, 'p, 'l) MixNode option"
  delivered :: "(bytes \<times> 'l) list"

definition put_node :: "bytes \<Rightarrow> ('x, 'p, 'l) MixNode \<Rightarrow> ('x, 'p, 'l) network \<Rightarrow> ('x, 'p, 'l) network" where
  "put_node a n N = N\<lparr>node_at := (node_at N)(a \<mapsto> n)\<rparr>"

inductive net_step ::
    "('w, 'x, 'n, 'p, 'l) Sphinx \<Rightarrow> ('w, 'sk) Draws \<Rightarrow> ('x, 'p, 'l) network \<Rightarrow> ('x, 'p, 'l) network \<Rightarrow> bool"
    for S D where
  node_moves: "node_at N a = Some n \<Longrightarrow> node_step S D n n' \<Longrightarrow> net_step S D N (put_node a n' N)"
| relay: "node_at N a = Some n \<Longrightarrow> node_outbound_socket n = (d, Inl p) # rest \<Longrightarrow>
    N' = put_node a (n\<lparr>node_outbound_socket := rest\<rparr>) N \<Longrightarrow> node_at N' d = Some n' \<Longrightarrow>
    net_step S D N (put_node d (arrives (d, p) n') N')"
| hand_over: "node_at N a = Some n \<Longrightarrow> node_outbound_socket n = (d, Inr l) # rest \<Longrightarrow>
    net_step S D N (put_node a (n\<lparr>node_outbound_socket := rest\<rparr>) N\<lparr>delivered := delivered N @ [(d, l)]\<rparr>)"

inductive_cases net_stepE: "net_step S D N N'"

inductive net_run ::
    "('w, 'x, 'n, 'p, 'l) Sphinx \<Rightarrow> ('w, 'sk) Draws \<Rightarrow> (bytes \<times> 'p) list \<Rightarrow>
     ('x, 'p, 'l) network \<Rightarrow> ('x, 'p, 'l) network \<Rightarrow> bool"
    for S D where
  net_start: "net_run S D [] N N"
| inject: "net_run S D xs M N \<Longrightarrow> node_at N a = Some n \<Longrightarrow>
    net_run S D (xs @ [(a, p)]) M (put_node a (arrives (a, p) n) N)"
| net_move: "net_run S D xs M N \<Longrightarrow> net_step S D N N' \<Longrightarrow> net_run S D xs M N'"

definition idle_node :: "('x, 'p, 'l) MixNode \<Rightarrow> bool" where
  "idle_node n \<longleftrightarrow> inbound_socket n = [] \<and> tasks n = [] \<and> node_outbound_socket n = []"

definition idle :: "('x, 'p, 'l) network \<Rightarrow> bool" where
  "idle N \<longleftrightarrow> (\<forall>n \<in> ran (node_at N). idle_node n)"

section \<open>What becomes of a packet\<close>

text \<open>The nodes are given by their configurations: a packet at an address ends at a destination.\<close>

inductive resolves ::
    "('w, 'x, 'n, 'p, 'l) Sphinx \<Rightarrow> (bytes \<Rightarrow> 'x MixNodeConfig option) \<Rightarrow> bytes \<Rightarrow> 'p \<Rightarrow> bytes \<times> 'l \<Rightarrow> bool"
    for S C where
  last_hop: "C a = Some cfg \<Longrightarrow> process_packet S p (mixnode_private_key cfg) = Ok (d, Inr l) \<Longrightarrow> resolves S C a p (d, l)"
| next_hop: "C a = Some cfg \<Longrightarrow> process_packet S p (mixnode_private_key cfg) = Ok (d, Inl p') \<Longrightarrow>
    resolves S C d p' x \<Longrightarrow> resolves S C a p x"

inductive_cases resolvesE: "resolves S C a p x"

lemma resolves_unique: "resolves S C a p x \<Longrightarrow> resolves S C a p y \<Longrightarrow> x = y"
proof (induction arbitrary: y rule: resolves.induct)
  case (last_hop a cfg p d l)
  from last_hop.prems show ?case by (rule resolvesE) (auto simp: last_hop.hyps)
next
  case (next_hop a cfg p d p' x)
  from next_hop.prems show ?case by (rule resolvesE) (auto simp: next_hop.hyps(1,2) next_hop.IH)
qed

definition fate ::
    "('w, 'x, 'n, 'p, 'l) Sphinx \<Rightarrow> (bytes \<Rightarrow> 'x MixNodeConfig option) \<Rightarrow> bytes \<Rightarrow> 'p \<Rightarrow> (bytes \<times> 'l) multiset" where
  "fate S C a p = (if \<exists>x. resolves S C a p x then {#THE x. resolves S C a p x#} else {#})"

definition leaving ::
    "('w, 'x, 'n, 'p, 'l) Sphinx \<Rightarrow> (bytes \<Rightarrow> 'x MixNodeConfig option) \<Rightarrow> bytes \<times> ('p + 'l) \<Rightarrow> (bytes \<times> 'l) multiset" where
  "leaving S C x = (case x of (d, Inl p) \<Rightarrow> fate S C d p | (d, Inr l) \<Rightarrow> {#(d, l)#})"

lemma fate_resolves: "resolves S C a p x \<Longrightarrow> fate S C a p = {#x#}"
  using the_equality [of "resolves S C a p" x] resolves_unique [of S C a p x] unfolding fate_def by metis

lemma fate_none: "\<nexists>x. resolves S C a p x \<Longrightarrow> fate S C a p = {#}"
  unfolding fate_def by simp

lemma fate_balanced:
  assumes "C a = Some cfg"
  shows "balanced S (mixnode_private_key cfg) (fate S C a) (leaving S C)"
  unfolding balanced_def
proof
  fix p
  show "fate S C a p = (case process_packet S p (mixnode_private_key cfg) of Ok x \<Rightarrow> leaving S C x | _ \<Rightarrow> {#})"
  proof (cases "process_packet S p (mixnode_private_key cfg)")
    case (Ok x)
    obtain d y where x: "x = (d, y)" by (cases x)
    show ?thesis
    proof (cases y)
      case (Inl p')
      have "resolves S C a p z \<longleftrightarrow> resolves S C d p' z" for z
        using assms Ok x Inl by (auto intro: next_hop elim: resolvesE)
      then have run: "resolves S C a p = resolves S C d p'" by blast
      show ?thesis by (simp add: Ok x Inl leaving_def fate_def run)
    next
      case (Inr l)
      then have "resolves S C a p (d, l)" using assms Ok x by (auto intro: last_hop)
      then show ?thesis using fate_resolves [of S C a p "(d, l)"] by (simp add: Ok x Inr leaving_def)
    qed
  qed (use assms in \<open>auto intro!: fate_none elim: resolvesE\<close>)
qed

section \<open>The network loses nothing\<close>

definition configs :: "('x, 'p, 'l) network \<Rightarrow> bytes \<Rightarrow> 'x MixNodeConfig option" where
  "configs N a = map_option node_config (node_at N a)"

definition node_weight ::
    "('w, 'x, 'n, 'p, 'l) Sphinx \<Rightarrow> (bytes \<Rightarrow> 'x MixNodeConfig option) \<Rightarrow> bytes \<Rightarrow> ('x, 'p, 'l) MixNode option \<Rightarrow> (bytes \<times> 'l) multiset" where
  "node_weight S C a n = (case n of None \<Rightarrow> {#} | Some n \<Rightarrow> load (fate S C a) (leaving S C) n)"

definition net_load ::
    "('w, 'x, 'n, 'p, 'l) Sphinx \<Rightarrow> (bytes \<Rightarrow> 'x MixNodeConfig option) \<Rightarrow> ('x, 'p, 'l) network \<Rightarrow> (bytes \<times> 'l) multiset" where
  "net_load S C N = mset (delivered N) + (\<Sum>a \<in> dom C. node_weight S C a (node_at N a))"

text \<open>Every node of the network is one of those configured, and draws its delays.\<close>

definition served :: "('w, 'sk) Draws \<Rightarrow> (bytes \<Rightarrow> 'x MixNodeConfig option) \<Rightarrow> ('x, 'p, 'l) network \<Rightarrow> bool" where
  "served D C N \<longleftrightarrow> finite (dom C) \<and> configs N = C \<and> (\<forall>cfg \<in> ran C. timely D (delay_rate_per_min cfg))"

lemma servedD:
  assumes "served D C N" and "node_at N a = Some n"
  shows "C a = Some (node_config n)" "timely D (delay_rate_per_min (node_config n))" "a \<in> dom C" "finite (dom C)"
proof -
  show C: "C a = Some (node_config n)" using assms by (auto simp: served_def configs_def)
  then show "timely D (delay_rate_per_min (node_config n))" "a \<in> dom C" "finite (dom C)"
    using assms(1) by (auto simp: served_def ran_def)
qed

lemma put_served:
  assumes "served D C N" and "node_at N a = Some n" and "node_config n' = node_config n"
  shows "served D C (put_node a n' N)"
proof -
  have "configs (put_node a n' N) = configs N" using assms(2,3) by (auto simp: configs_def put_node_def)
  then show ?thesis using assms(1) by (simp add: served_def)
qed

lemma delivered_served: "served D C (N\<lparr>delivered := ds\<rparr>) = served D C N"
  by (simp add: served_def configs_def fun_eq_iff)

lemma put_load:
  assumes "served D C N" and "node_at N a = Some n"
    and "load (fate S C a) (leaving S C) n' + x = load (fate S C a) (leaving S C) n + y"
  shows "net_load S C (put_node a n' N) + x = net_load S C N + y"
proof -
  note a = servedD [OF assms(1,2)]
  have "(\<Sum>b \<in> dom C - {a}. node_weight S C b (node_at (put_node a n' N) b)) = (\<Sum>b \<in> dom C - {a}. node_weight S C b (node_at N b))"
    by (rule sum.cong) (auto simp: put_node_def)
  then show ?thesis
    using assms(2,3) by (simp add: net_load_def sum.remove [OF a(4,3)] put_node_def node_weight_def add_ac)
qed

lemma net_step_load:
  assumes "net_step S D N N'" and "served D C N"
  shows "served D C N' \<and> net_load S C N' = net_load S C N"
  using assms(1)
proof (rule net_stepE)
  fix a n n'
  assume n: "N' = put_node a n' N" "node_at N a = Some n" and step: "node_step S D n n'"
  note a = servedD [OF assms(2) n(2)]
  have "load (fate S C a) (leaving S C) n' = load (fate S C a) (leaving S C) n"
    by (rule step_load [OF step a(2) fate_balanced [of C a, OF a(1)]])
  then show ?thesis
    using put_load [OF assms(2) n(2), of S n' "{#}" "{#}"] put_served [OF assms(2) n(2) step_config [OF step]] n(1) by simp
next
  fix a n d p rest n'
  let ?N1 = "put_node a (n\<lparr>node_outbound_socket := rest\<rparr>) N"
  assume n: "N' = put_node d (arrives (d, p) n') ?N1" "node_at N a = Some n" "node_outbound_socket n = (d, Inl p) # rest"
    "node_at ?N1 d = Some n'"
  have "load (fate S C a) (leaving S C) (n\<lparr>node_outbound_socket := rest\<rparr>) + fate S C d p = load (fate S C a) (leaving S C) n + {#}"
    by (simp add: load_def n(3) leaving_def add_ac)
  from put_load [OF assms(2) n(2) this] have 1: "net_load S C ?N1 + fate S C d p = net_load S C N" by simp
  have s1: "served D C ?N1" by (rule put_served [OF assms(2) n(2)]) simp
  have "load (fate S C d) (leaving S C) (arrives (d, p) n') + {#} = load (fate S C d) (leaving S C) n' + fate S C d p"
    by (simp add: load_arrives)
  from put_load [OF s1 n(4) this] 1 put_served [OF s1 n(4), of "arrives (d, p) n'"] show ?thesis
    by (simp add: n(1) arrives_def)
next
  fix a n d l rest
  assume n: "N' = put_node a (n\<lparr>node_outbound_socket := rest\<rparr>) N\<lparr>delivered := delivered N @ [(d, l)]\<rparr>"
    "node_at N a = Some n" "node_outbound_socket n = (d, Inr l) # rest"
  have "load (fate S C a) (leaving S C) (n\<lparr>node_outbound_socket := rest\<rparr>) + {#(d, l)#} = load (fate S C a) (leaving S C) n + {#}"
    by (simp add: load_def n(3) leaving_def add_ac)
  from put_load [OF assms(2) n(2) this] put_served [OF assms(2) n(2), of "n\<lparr>node_outbound_socket := rest\<rparr>"]
  show ?thesis by (simp add: n(1) delivered_served net_load_def) (simp add: put_node_def add_ac)
qed

lemma net_run_load:
  assumes "net_run S D xs M N" and "served D C M"
  shows "served D C N \<and> net_load S C N = net_load S C M + sum_list (map (\<lambda>(a, p). fate S C a p) xs)"
  using assms
proof (induction rule: net_run.induct)
  case (inject xs M N a n p)
  then have s: "served D C N" by blast
  have "load (fate S C a) (leaving S C) (arrives (a, p) n) + {#} = load (fate S C a) (leaving S C) n + fate S C a p"
    by (simp add: load_arrives)
  from put_load [OF s inject.hyps(2) this] put_served [OF s inject.hyps(2), of "arrives (a, p) n"] inject show ?case
    by (simp add: arrives_def add.assoc)
next
  case (net_move xs M N N')
  then show ?case using net_step_load [OF net_move.hyps(2)] by metis
qed simp

lemma idle_load:
  assumes "idle N"
  shows "net_load S C N = mset (delivered N)"
proof -
  have "node_weight S C a (node_at N a) = {#}" for a
    using assms by (cases "node_at N a") (auto simp: node_weight_def idle_def idle_node_def load_def ran_def)
  then show ?thesis by (simp add: net_load_def)
qed

section \<open>Packets get through\<close>

lemma put_node_simps [simp]:
  "put_node a n (put_node a m N) = put_node a n N" "node_at (put_node a n N) a = Some n" "delivered (put_node a n N) = delivered N"
  by (simp_all add: put_node_def)

lemma put_node_same [simp]: "node_at N a = Some n \<Longrightarrow> put_node a n N = N"
  by (simp add: put_node_def map_upd_triv)

lemma put_node_delivered: "put_node a n (N\<lparr>delivered := ds\<rparr>) = put_node a n N\<lparr>delivered := ds\<rparr>"
  by (simp add: put_node_def)

lemma node_handles:
  assumes "idle_node n" and "node_task n = Running" and "timely D (delay_rate_per_min (node_config n))"
    and "process_packet S p (mixnode_private_key (node_config n)) = Ok x"
  shows "(node_step S D)\<^sup>*\<^sup>* (arrives (b, p) n) (n\<lparr>node_outbound_socket := [x]\<rparr>)"
proof -
  obtain w s w' where draw: "poisson_interval_sec D (delay_rate_per_min (node_config n)) w = (Ok s, w')"
    using assms(3) unfolding timely_def by blast
  have q: "inbound_socket n = []" "tasks n = []" "node_outbound_socket n = []" using assms(1) by (simp_all add: idle_node_def)
  have "node_step S D (arrives (b, p) n) (node_accept (arrives (b, p) n))"
    using assms(2) by (intro node_step.accept) (simp add: arrives_def)
  moreover have "node_accept (arrives (b, p) n) = n\<lparr>tasks := [Created p]\<rparr>"
    using q by (simp add: node_accept_def arrives_def)
  moreover have "node_step S D (n\<lparr>tasks := [Created p]\<rparr>) (task_begins D w 0 (n\<lparr>tasks := [Created p]\<rparr>))"
    by (rule node_step.task_begin) simp_all
  moreover have "task_begins D w 0 (n\<lparr>tasks := [Created p]\<rparr>) = n\<lparr>tasks := [Asleep p]\<rparr>"
    by (simp add: task_begins_def draw)
  moreover have "node_step S D (n\<lparr>tasks := [Asleep p]\<rparr>) (task_ends S 0 (n\<lparr>tasks := [Asleep p]\<rparr>))"
    by (rule node_step.finish) simp_all
  moreover have "task_ends S 0 (n\<lparr>tasks := [Asleep p]\<rparr>) = n\<lparr>node_outbound_socket := [x]\<rparr>"
    using q assms(4) by (simp add: task_ends_def remove_task_def)
  ultimately show ?thesis by (metis (no_types, lifting) converse_rtranclp_into_rtranclp rtranclp.rtrancl_refl)
qed

lemma node_moves_on:
  assumes "(node_step S D)\<^sup>*\<^sup>* n n'"
  shows "(net_step S D)\<^sup>*\<^sup>* (put_node a n N) (put_node a n' N)"
  using assms
proof (induction rule: rtranclp_induct)
  case (step n' n'')
  then show ?case using node_moves [of "put_node a n' N" a n' S D n''] by simp
qed simp

definition ready :: "('w, 'sk) Draws \<Rightarrow> (bytes \<Rightarrow> 'x MixNodeConfig option) \<Rightarrow> ('x, 'p, 'l) network \<Rightarrow> bool" where
  "ready D C N \<longleftrightarrow> served D C N \<and> idle N \<and> (\<forall>n \<in> ran (node_at N). node_task n = Running)"

lemma ready_node:
  assumes "ready D C N" and "C a = Some cfg"
  obtains n where "node_at N a = Some n" "node_config n = cfg" "idle_node n" "node_task n = Running" "timely D (delay_rate_per_min cfg)"
proof -
  have "configs N a = Some cfg" using assms by (simp add: ready_def served_def)
  then obtain n where n: "node_at N a = Some n" "node_config n = cfg" by (auto simp: configs_def)
  then have "n \<in> ran (node_at N)" by (auto simp: ran_def)
  then show ?thesis using that [OF n] assms by (auto simp: ready_def idle_def served_def ran_def)
qed

lemma packet_gets_through:
  assumes "resolves S C a p x" and "ready D C N" and "node_at N a = Some n"
  shows "(net_step S D)\<^sup>*\<^sup>* (put_node a (arrives (b, p) n) N) (N\<lparr>delivered := delivered N @ [x]\<rparr>)"
  using assms
proof (induction arbitrary: b n rule: resolves.induct)
  case (last_hop a cfg p d l)
  obtain m where m: "node_at N a = Some m" "node_config m = cfg" "idle_node m" "node_task m = Running" "timely D (delay_rate_per_min cfg)"
    using ready_node [OF last_hop.prems(1) last_hop.hyps(1)] .
  then have [simp]: "n = m" "m\<lparr>node_outbound_socket := []\<rparr> = m" using last_hop.prems(2) by (simp_all add: idle_node_def)
  let ?N = "put_node a (m\<lparr>node_outbound_socket := [(d, Inr l)]\<rparr>) N"
  have "(net_step S D)\<^sup>*\<^sup>* (put_node a (arrives (b, p) n) N) ?N"
    using node_handles [OF m(3,4), of D S p "(d, Inr l)" b] m(2,5) last_hop.hyps(2) by (simp add: node_moves_on)
  moreover have "net_step S D ?N (N\<lparr>delivered := delivered N @ [(d, l)]\<rparr>)"
    using hand_over [of ?N a "m\<lparr>node_outbound_socket := [(d, Inr l)]\<rparr>" d l "[]" S D] m(1) by simp
  ultimately show ?case by simp
next
  case (next_hop a cfg p d p' x)
  obtain m where m: "node_at N a = Some m" "node_config m = cfg" "idle_node m" "node_task m = Running" "timely D (delay_rate_per_min cfg)"
    using ready_node [OF next_hop.prems(1) next_hop.hyps(1)] .
  then have [simp]: "n = m" "m\<lparr>node_outbound_socket := []\<rparr> = m" using next_hop.prems(2) by (simp_all add: idle_node_def)
  let ?N = "put_node a (m\<lparr>node_outbound_socket := [(d, Inl p')]\<rparr>) N"
  have "(net_step S D)\<^sup>*\<^sup>* (put_node a (arrives (b, p) n) N) ?N"
    using node_handles [OF m(3,4), of D S p "(d, Inl p')" b] m(2,5) next_hop.hyps(2) by (simp add: node_moves_on)
  moreover obtain cfg' where "C d = Some cfg'" using next_hop.hyps(3) by (rule resolvesE) simp_all
  then obtain n' where n': "node_at N d = Some n'" using ready_node [OF next_hop.prems(1)] by metis
  then have "net_step S D ?N (put_node d (arrives (d, p') n') N)"
    using relay [of ?N a "m\<lparr>node_outbound_socket := [(d, Inl p')]\<rparr>" d p' "[]" N n' S D] m(1) by simp
  ultimately show ?case using next_hop.IH [OF next_hop.prems(1) n'] by (meson rtranclp.rtrancl_into_rtrancl rtranclp_trans)
qed

lemma net_run_steps: "net_run S D xs M N \<Longrightarrow> (net_step S D)\<^sup>*\<^sup>* N N' \<Longrightarrow> net_run S D xs M N'"
  by (rotate_tac, induction rule: rtranclp_induct) (auto intro: net_move)

lemma packets_get_through:
  assumes "ready D C M" and "\<forall>(a, p) \<in> set xs. \<exists>x. resolves S C a p x"
  shows "\<exists>ds. net_run S D xs M (M\<lparr>delivered := ds\<rparr>)"
  using assms(2)
proof (induction xs rule: rev_induct)
  case Nil
  have "net_run S D [] M (M\<lparr>delivered := delivered M\<rparr>)" using net_start [of S D M] by simp
  then show ?case by blast
next
  case (snoc y xs)
  obtain a p where y: "y = (a, p)" by (cases y)
  from snoc obtain ds where run: "net_run S D xs M (M\<lparr>delivered := ds\<rparr>)" by auto
  let ?N = "M\<lparr>delivered := ds\<rparr>"
  have ready: "ready D C ?N" using assms(1) by (simp add: ready_def delivered_served idle_def)
  obtain x where x: "resolves S C a p x" using snoc.prems y by auto
  then obtain cfg where "C a = Some cfg" by (rule resolvesE) simp_all
  then obtain n where n: "node_at ?N a = Some n" using ready_node [OF ready] by metis
  from net_run_steps [OF inject [OF run n, of p] packet_gets_through [OF x ready n]]
  show ?case by (auto simp: y)
qed

section \<open>Messages get through\<close>

text \<open>
  What the code relies on: a Sphinx packet, processed with the keys of its route one after the other,
  names the next address each time and at the end the destination, where the payload is what was
  put in.
\<close>

fun travels ::
    "('w, 'x, 'n, 'p, 'l) Sphinx \<Rightarrow> ('l \<Rightarrow> bytes) \<Rightarrow> ('b, 'x) MixNodeInfo list \<Rightarrow> bytes \<Rightarrow> bytes \<Rightarrow> 'p \<Rightarrow> bool" where
  "travels S recover [] d bs p = False"
| "travels S recover [h] d bs p =
     (\<exists>l. sphinx_process S p (encryption_private_key h) = Ok (ProcessedFinalHop d l) \<and> recover l = bs)"
| "travels S recover (h # h' # hs) d bs p =
     (\<exists>p'. sphinx_process S p (encryption_private_key h) = Ok (ProcessedForwardHop (addr h') p') \<and>
       travels S recover (h' # hs) d bs p')"

definition onion :: "('w, 'x, 'n, 'p, 'l) Sphinx \<Rightarrow> ('l \<Rightarrow> bytes) \<Rightarrow> ('b, 'x) MixNodeInfo list \<Rightarrow> bool" where
  "onion S recover infos \<longleftrightarrow>
     (\<forall>bs route dest w p w'. route \<noteq> [] \<and> set route \<subseteq> set infos \<and> dest \<in> set infos \<and>
        sphinx_build S bs (map (sphinx_node (mk_node S)) route) (sphinx_node (mk_node S) dest) w = (Ok p, w') \<longrightarrow>
      travels S recover route (addr dest) bs p)"

text \<open>At the address of every node of the topology there is a node with its key.\<close>

definition hosts :: "(bytes \<Rightarrow> 'x MixNodeConfig option) \<Rightarrow> ('b, 'x) MixNodeInfo list \<Rightarrow> bool" where
  "hosts C infos \<longleftrightarrow> (\<forall>h \<in> set infos. \<exists>cfg. C (addr h) = Some cfg \<and> mixnode_private_key cfg = encryption_private_key h)"

lemma travels_resolves:
  assumes "travels S recover route d bs p" and "hosts C route"
  shows "\<exists>l. resolves S C (addr (hd route)) p (d, l) \<and> recover l = bs"
  using assms
proof (induction S recover route d bs p rule: travels.induct)
  case (2 S recover h d bs p)
  then obtain l cfg where "sphinx_process S p (encryption_private_key h) = Ok (ProcessedFinalHop d l)" "recover l = bs"
    "C (addr h) = Some cfg" "mixnode_private_key cfg = encryption_private_key h" by (auto simp: hosts_def)
  then have "resolves S C (addr h) p (d, l)" by (intro last_hop [of C "addr h" cfg]) (simp_all add: process_packet_def)
  with \<open>recover l = bs\<close> show ?case by auto
next
  case (3 S recover h h' hs d bs p)
  from 3(2,3) obtain p' cfg where p': "sphinx_process S p (encryption_private_key h) = Ok (ProcessedForwardHop (addr h') p')"
    "travels S recover (h' # hs) d bs p'" "C (addr h) = Some cfg" "mixnode_private_key cfg = encryption_private_key h"
    by (auto simp: hosts_def)
  with 3(1) 3(3) obtain l where "resolves S C (addr h') p' (d, l)" "recover l = bs" by (auto simp: hosts_def)
  with p' have "resolves S C (addr h) p (d, l)" by (intro next_hop [of C "addr h" cfg]) (simp_all add: process_packet_def)
  with \<open>recover l = bs\<close> show ?case by auto
qed simp

text \<open>The packets of a message resolve to its fragments, at one destination.\<close>

lemma route_in_topology:
  assumes "route \<noteq> []" and "last route = dest" and "dest \<in> set (last topology)" and "topology \<noteq> []"
    and "list_all2 (\<lambda>m layer. m \<in> set layer) (butlast route) (butlast topology)"
  shows "set route \<subseteq> set (concat topology)"
proof
  fix h
  assume "h \<in> set route"
  then consider "h \<in> set (butlast route)" | "h = dest"
    using assms(1,2) by (metis UnE append_butlast_last_id list.set(1) list.set(2) set_append singletonD)
  then show "h \<in> set (concat topology)"
  proof cases
    case 1
    then obtain i where "i < length (butlast route)" "h = butlast route ! i" by (metis in_set_conv_nth)
    then have "h \<in> set (butlast topology ! i)" "i < length (butlast topology)"
      using assms(5) by (auto simp: list_all2_conv_all_nth)
    then show ?thesis by (metis UN_I in_set_butlastD nth_mem set_concat)
  next
    case 2
    then show ?thesis using assms(3,4) by (metis UN_I last_in_set set_concat)
  qed
qed

lemma built_packets_resolve:
  assumes "onion S recover (concat topology)" and "hosts C (concat topology)" and "proper_randomness R"
    and "topology \<noteq> []" and "dest \<in> set (last topology)" and "packets_for S R topology dest fs w = (Ok out, w')"
  shows "list_all2 (\<lambda>f x. \<exists>l. resolves S C (fst x) (snd x) (addr dest, l) \<and> fragment_bytes f = Ok (recover l)) fs (first_hops out)"
proof -
  note built = packets_for_built [OF assms(3,6)]
  have dest: "dest \<in> set (concat topology)" using assms(4,5) last_in_set [of topology] by auto
  have "list_all2 (\<lambda>f y. \<exists>l. resolves S C (addr (hd (snd y))) (fst y) (addr dest, l) \<and> fragment_bytes f = Ok (recover l)) fs out"
  proof (rule list.rel_mono_strong [OF conjunct1 [OF built]])
    fix f y
    assume y: "y \<in> set out" and "case y of (p, route) \<Rightarrow> \<exists>bs w1 w2. fragment_bytes f = Ok bs \<and>
      sphinx_build S bs (map (sphinx_node (mk_node S)) route) (sphinx_node (mk_node S) dest) w1 = (Ok p, w2)"
    then obtain p route bs w1 w2 where p: "y = (p, route)" "fragment_bytes f = Ok bs"
      "sphinx_build S bs (map (sphinx_node (mk_node S)) route) (sphinx_node (mk_node S) dest) w1 = (Ok p, w2)" by auto
    have r: "route \<noteq> []" "last route = dest" "list_all2 (\<lambda>m layer. m \<in> set layer) (butlast route) (butlast topology)"
      using conjunct2 [OF built] y p(1) by auto
    have sub: "set route \<subseteq> set (concat topology)" by (rule route_in_topology [OF r(1,2) assms(5,4) r(3)])
    with assms(1) r(1) dest p(3) have "travels S recover route (addr dest) bs p" unfolding onion_def by blast
    moreover have "hosts C route" using assms(2) sub by (auto simp: hosts_def)
    ultimately show "\<exists>l. resolves S C (addr (hd (snd y))) (fst y) (addr dest, l) \<and> fragment_bytes f = Ok (recover l)"
      using travels_resolves p(1,2) by fastforce
  qed
  then show ?thesis by (simp add: first_hops_def list_all2_map2 split_beta)
qed

end
