(* ===== verification/Mixnet_Properties.thy ===== *)
theory Mixnet_Properties
  imports Mix_Network
begin

text \<open>
  The properties of the mixnet, with witnesses on a small network: packets that are their own
  payload, generators that always choose the first element and do not shuffle.
\<close>

section \<open>A small network\<close>

definition demo_random :: "unit Randomness" where
  "demo_random = \<lparr>choice_index = (\<lambda>w n. (0, w)), shuffle_perm = (\<lambda>w n. ([0..<n], w)),
     seed_with = (\<lambda>e w. w), seed_fresh = (\<lambda>w. w), uuid4 = (\<lambda>w. (replicate 16 7, w))\<rparr>"

definition demo_sphinx :: "(unit, unit, unit, bytes, bytes) Sphinx" where
  "demo_sphinx = \<lparr>mk_node = (\<lambda>k a. ()), sphinx_build = (\<lambda>bs route dest w. (Ok bs, w)),
     sphinx_process = (\<lambda>p k. Ok (ProcessedFinalHop [] p)), max_plain_payload_size = 30\<rparr>"

definition demo_node :: "byte \<Rightarrow> (unit, unit) MixNodeInfo" where
  "demo_node b = \<lparr>identity_private_key = (), encryption_private_key = (), addr = [b]\<rparr>"

definition demo_topology :: "(unit, unit) MixnetTopology" where
  "demo_topology = [[demo_node 1], [demo_node 2]]"

definition demo_mix_config :: "int \<Rightarrow> (unit, unit) MixClientConfig" where
  "demo_mix_config b = \<lparr>emission_rate_per_min = 1, redundancy = b, client_topology = demo_topology\<rparr>"

definition demo_node_config :: "unit MixNodeConfig" where
  "demo_node_config = \<lparr>mixnode_private_key = (), delay_rate_per_min = 1\<rparr>"

definition demo_draws :: "(unit, unit) Draws" where
  "demo_draws = \<lparr>randint = (\<lambda>a b w. (a, w)), exponential = (\<lambda>scale w. (Ok scale, w)), key_gen = (\<lambda>bs. ())\<rparr>"

definition demo_message :: bytes where
  "demo_message = replicate 20 5"

lemma demo_carries: "carries demo_sphinx id"
  by (simp add: carries_def demo_sphinx_def)

lemma demo_proper: "proper_randomness demo_random"
  by (simp add: proper_randomness_def demo_random_def)

lemma demo_seeded: "seeded_randomness demo_random"
  by (simp add: seeded_randomness_def)

lemma demo_interval: "poisson_interval_sec demo_draws 1 w = (Ok (fl (fl 1 * 60)), w)"
  by (simp add: poisson_interval_sec_def bind_act_def demo_draws_def float_div_def)

lemma demo_timely: "timely demo_draws 1"
  by (simp add: timely_def demo_interval)

lemma demo_size [simp]: "max_plain_payload_size demo_sphinx = 30"
  by (simp add: demo_sphinx_def)

lemma demo_builds: "builds demo_sphinx"
  by (simp add: builds_def demo_sphinx_def)

lemma demo_layers: "[] \<notin> set demo_topology" "demo_topology \<noteq> []"
  by (simp_all add: demo_topology_def)

section \<open>Messages\<close>

lemma sum_list_singletons: "sum_list (map (\<lambda>x. {#x#}) xs) = mset xs"
  by (induction xs) auto

lemma mset_map_Ok:
  assumes "mset rs = image_mset Ok (mset xs)"
  shows "\<exists>ys. rs = map Ok ys \<and> mset ys = mset xs"
proof -
  let ?get = "\<lambda>r. case r of Ok x \<Rightarrow> x | _ \<Rightarrow> undefined"
  have "set rs = Ok ` set xs" using assms by (metis set_image_mset set_mset_mset)
  then have "map (\<lambda>r. Ok (?get r)) rs = map (\<lambda>r. r) rs" by (intro map_cong) auto
  then have "rs = map Ok (map ?get rs)" by (simp add: o_def)
  moreover have "mset (map ?get rs) = mset xs" unfolding mset_map assms by (simp add: image_mset.compositionality o_def)
  ultimately show ?thesis by blast
qed

lemma fragments_message:
  assumes "mset rs = image_mset Ok (mset (set_fragments sid cs))" and "fragment_chunks mp (flag_bytes flag @ message) = Ok cs"
  shows "\<exists>fs. rs = map Ok fs \<and> deliver fs [] = (Ok [flag_bytes flag @ message], [])"
proof -
  obtain fs where fs: "rs = map Ok fs" "mset fs = mset (set_fragments sid cs)" using mset_map_Ok [OF assms(1)] by blast
  moreover have "cs \<noteq> []" "concat cs = flag_bytes flag @ message" using fragment_chunks_spec [OF assms(2)] by (cases flag; simp)+
  ultimately show ?thesis using deliver_message by metis
qed

lemma packets_message:
  assumes "carries S payload" and "proper_randomness R"
    and "build_packets S R flag message topology w = (Ok out, w')"
    and "mset ps = mset (map fst out)"
  shows "\<exists>fs. map (\<lambda>p. fragment_from_bytes (payload p)) ps = map Ok fs \<and>
    deliver fs [] = (Ok [flag_bytes flag @ message], [])"
proof -
  let ?m = "flag_bytes flag @ message"
  from assms(3) obtain dest w1 gs w2 where
      gs: "FragmentSet_init S R ?m w1 = (Ok gs, w2)" and out: "packets_for S R topology dest gs w2 = (Ok out, w')"
    unfolding build_packets_def by (elim bind_act_cases) auto
  obtain sid cs where sid: "length sid = 16" and cs: "gs = set_fragments sid cs" "fragment_chunks (max_plain_payload_size S) ?m = Ok cs"
    using FragmentSet_init_spec [OF assms(2) gs] by blast
  have made: "list_all2 (\<lambda>g x. fragment_bytes g = Ok (payload (fst x))) gs out"
    using conjunct1 [OF packets_for_spec [OF assms(1,2) out]] by (simp add: split_def)
  have "list_all2 (\<lambda>g x. fragment_from_bytes (payload (fst x)) = Ok g) gs out"
  proof (rule list.rel_mono_strong [OF made])
    fix g x
    assume "g \<in> set gs" "fragment_bytes g = Ok (payload (fst x))"
    then show "fragment_from_bytes (payload (fst x)) = Ok g"
      using fragment_roundtrip [of g] set_fragments_header [of g sid cs] cs(1) sid by auto
  qed
  then have "map (\<lambda>p. fragment_from_bytes (payload p)) (map fst out) = map Ok gs"
    by (induction rule: list_all2_induct) auto
  then have "image_mset (\<lambda>p. fragment_from_bytes (payload p)) (mset (map fst out)) = image_mset Ok (mset gs)"
    by (metis mset_map)
  then have eq: "mset (map (\<lambda>p. fragment_from_bytes (payload p)) ps) = image_mset Ok (mset gs)"
    using assms(4) by simp
  show ?thesis using fragments_message [OF eq [unfolded cs(1)] cs(2)] .
qed

text \<open>
  A message survives the mixnet. When it fits 255 packets and every layer has a node, packets
  are built; recover the payload of each, in any order: the reconstructor gives back one message,
  at the last fragment, keeps nothing, and the message parses to the flag of real messages and the
  bytes that were sent.
\<close>
theorem message_roundtrip:
  assumes "carries S payload" and "proper_randomness R" and "builds S"
    and "[] \<notin> set topology" and "topology \<noteq> []"
    and "18 < max_plain_payload_size S" and "int (length message) < 255 * (max_plain_payload_size S - 18)"
  shows "\<exists>out w'. build_real_packets S R message topology w = (Ok out, w') \<and>
    (\<forall>ps. mset ps = mset (map fst out) \<longrightarrow>
      (\<exists>fs data. map (\<lambda>p. fragment_from_bytes (payload p)) ps = map Ok fs \<and>
        deliver fs [] = (Ok [data], []) \<and> parse_msg_and_flag data = Ok (MESSAGE_FLAG_REAL, message)))"
proof -
  obtain out w' where out: "build_packets S R MESSAGE_FLAG_REAL message topology w = (Ok out, w')"
    using build_packets_ok [OF assms(3-7)] by blast
  with packets_message [OF assms(1,2) out] parse_flagged [of MESSAGE_FLAG_REAL message] show ?thesis
    unfolding build_real_packets_def by blast
qed

theorem message_roundtrip_witness:
  "\<exists>out fs data. build_real_packets demo_sphinx demo_random demo_message demo_topology () = (Ok out, ()) \<and>
    map (\<lambda>p. fragment_from_bytes (id p)) (rev (map fst out)) = map Ok fs \<and>
    deliver fs [] = (Ok [data], []) \<and> parse_msg_and_flag data = Ok (MESSAGE_FLAG_REAL, demo_message)"
proof -
  have fits: "18 < max_plain_payload_size demo_sphinx" "int (length demo_message) < 255 * (max_plain_payload_size demo_sphinx - 18)"
    by (simp_all add: demo_message_def)
  from message_roundtrip [OF demo_carries demo_proper demo_builds demo_layers fits, of "()"] obtain out where
    out: "build_real_packets demo_sphinx demo_random demo_message demo_topology () = (Ok out, ())"
    and all: "mset ps = mset (map fst out) \<Longrightarrow>
      (\<exists>fs data. map (\<lambda>p. fragment_from_bytes (id p)) ps = map Ok fs \<and>
        deliver fs [] = (Ok [data], []) \<and> parse_msg_and_flag data = Ok (MESSAGE_FLAG_REAL, demo_message))" for ps
    by auto
  have "mset (rev (map fst out)) = mset (map fst out)" by simp
  from all [OF this] out show ?thesis by blast
qed

text \<open>
  C20: \<open>MessageReconstructor.add\<close> refines the abstract reconstructor that keeps, for every message in
  transit, the set of fragment indices seen: it returns a message exactly when the last missing
  index arrives, and then forgets it. Fragments may be repeated and those of several messages
  interleaved.
\<close>
theorem reassembly_refines:
  assumes "pending msgs M" and "genuine msgs f"
  shows "case spec_add msgs f (received M) of (out, S) \<Rightarrow>
    \<exists>M'. reconstructor_add f M = (Ok out, M') \<and> pending msgs M' \<and> received M' = S"
  using add_refines [OF assms] by (auto split: prod.split)

theorem reassembly_refines_witness:
  "case spec_add [[1] \<mapsto> [[5], [6]]]
      \<lparr>frag_header = \<lparr>set_id = [1], total_fragments = 2, fragment_id = 1\<rparr>, frag_body = [6]\<rparr> (received []) of (out, S) \<Rightarrow>
    \<exists>M'. reconstructor_add \<lparr>frag_header = \<lparr>set_id = [1], total_fragments = 2, fragment_id = 1\<rparr>, frag_body = [6]\<rparr> [] = (Ok out, M') \<and>
      pending [[1] \<mapsto> [[5], [6]]] M' \<and> received M' = S"
  by (rule reassembly_refines) (simp_all add: pending_def genuine_def)

text \<open>
  C21: The length of a message decides what becomes of it. With room for \<open>k\<close> bytes in a packet, a
  message of \<open>n\<close> chunks (the length divided by \<open>k\<close>, rounded up) is refused with a \<open>ValueError\<close> when
  \<open>n\<close> exceeds 256; up to 255 chunks every fragment has an encoding that fits the payload. At exactly
  256 chunks the guard lets the message pass although no header can hold its number of fragments:
  encoding any of its fragments raises \<open>OverflowError\<close>.
\<close>
theorem fragment_limits:
  assumes "18 < mp" and "length sid = 16" and "n = (length msg + (nat (mp - 18) - 1)) div nat (mp - 18)"
  shows "(256 < n \<longrightarrow> fragment_chunks mp msg = Err ValueError) \<and>
    (n \<le> 256 \<longrightarrow> (\<exists>cs. fragment_chunks mp msg = Ok cs \<and> length cs = n \<and>
      (\<forall>f \<in> set (set_fragments sid cs).
        (n = 256 \<longrightarrow> fragment_bytes f = Err OverflowError) \<and>
        (n < 256 \<longrightarrow> (\<exists>bs. fragment_bytes f = Ok bs \<and> int (length bs) \<le> mp)))))"
proof -
  let ?k = "nat (mp - 18)"
  let ?cs = "batched msg ?k"
  have k: "0 < ?k" using assms(1) by simp
  have len: "length ?cs = n" unfolding assms(3) by (rule length_batched [OF k])
  have ch: "chunks msg (MAX_PAYLOAD_SIZE mp) = Ok ?cs"
    using assms(1) by (simp add: chunks_def MAX_PAYLOAD_SIZE_def header_SIZE_def)
  have frag: "(n = 256 \<longrightarrow> fragment_bytes f = Err OverflowError) \<and>
      (n < 256 \<longrightarrow> (\<exists>bs. fragment_bytes f = Ok bs \<and> int (length bs) \<le> mp))"
    if mem: "f \<in> set (set_fragments sid ?cs)" for f
  proof -
    obtain i where i: "i < n" and f: "f = \<lparr>frag_header = \<lparr>set_id = sid, total_fragments = int n, fragment_id = int i\<rparr>, frag_body = ?cs ! i\<rparr>"
      using in_set_fragments [OF mem] len by metis
    have body: "length (frag_body f) \<le> ?k" using batched_pieces [of "?cs ! i" msg ?k] i len f by simp
    have "\<exists>bs. fragment_bytes f = Ok bs \<and> int (length bs) \<le> mp" if small: "n < 256"
    proof -
      obtain bs where bs: "header_bytes (frag_header f) = Ok bs"
        using header_bytes_ok [of "frag_header f"] i small f by auto
      then have "length bs = 18" using header_roundtrip [of "frag_header f"] assms(2) f by simp
      then show ?thesis using bs body assms(1) by (simp add: fragment_bytes_def)
    qed
    moreover have "fragment_bytes f = Err OverflowError" if "n = 256"
      using header_bytes_overflow [of "frag_header f"] that f by (simp add: fragment_bytes_def)
    ultimately show ?thesis by blast
  qed
  show ?thesis using ch len frag by (auto simp: fragment_chunks_def max_total_fragments_def)
qed

theorem fragment_limits_witness:
  "\<exists>cs. fragment_chunks 19 (replicate 256 0) = Ok cs \<and> length cs = 256 \<and>
     fragment_bytes (hd (set_fragments (replicate 16 0) cs)) = Err OverflowError"
proof -
  obtain cs where cs: "fragment_chunks 19 (replicate 256 0) = Ok cs" "length cs = 256"
      "\<forall>f \<in> set (set_fragments (replicate 16 0) cs). fragment_bytes f = Err OverflowError"
    using fragment_limits [of 19 "replicate 16 0" 256 "replicate 256 0"] by auto
  then have "hd (set_fragments (replicate 16 0) cs) \<in> set (set_fragments (replicate 16 0) cs)"
    by (intro hd_in_set) (metis length_0_conv length_set_fragments zero_neq_numeral)
  with cs show ?thesis by blast
qed

section \<open>Topologies\<close>

text \<open>
  Mixnet processes that are configured with the same candidates and sizes and consume the same
  entropy hold the same topology, whatever they did before. Its layers, one after the other, are a
  selection of the candidates, each at most once, and with enough candidates every layer has its
  full number of nodes.
\<close>
theorem topology_from_entropy:
  assumes "proper_randomness R" and "seeded_randomness R"
    and "entropy_queue m = e # q" and "entropy_queue m' = e # q'"
    and "mixnode_candidates (topology_config m') = mixnode_candidates (topology_config m)"
    and "topology_size (topology_config m') = topology_size (topology_config m)"
    and "0 \<le> num_layers (topology_size (topology_config m))" "0 \<le> num_mixnodes_per_layer (topology_size (topology_config m))"
  shows "mixnet_topology (consume_entropy R m') = mixnet_topology (consume_entropy R m) \<and>
    mset (concat (mixnet_topology (consume_entropy R m))) \<subseteq># mset (mixnode_candidates (topology_config m)) \<and>
    (num_total_mixnodes (topology_size (topology_config m)) \<le> int (length (mixnode_candidates (topology_config m))) \<longrightarrow>
      map (\<lambda>layer. int (length layer)) (mixnet_topology (consume_entropy R m)) =
      replicate (nat (num_layers (topology_size (topology_config m)))) (num_mixnodes_per_layer (topology_size (topology_config m))))"
proof -
  let ?s = "topology_size (topology_config m)" and ?cand = "mixnode_candidates (topology_config m)"
  let ?sh = "\<lambda>m. fst (FisherYates_shuffle R ?cand e (client_world (mixclient m)))"
  have t: "mixnet_topology (consume_entropy R m) = topology_layers ?s (?sh m)"
    using consume_topology [OF assms(3)] .
  have "mixnet_topology (consume_entropy R m') = topology_layers ?s (?sh m')"
    using consume_topology [OF assms(4), of R] unfolding assms(5,6) .
  then have same: "mixnet_topology (consume_entropy R m') = mixnet_topology (consume_entropy R m)"
    unfolding t shuffle_seeded [OF assms(2), of ?cand e "client_world (mixclient m')" "client_world (mixclient m)"] .
  have perm: "mset (?sh m) = mset ?cand" by (rule shuffle_mset [OF assms(1)])
  have "mset (concat (topology_layers ?s (?sh m))) \<subseteq># mset (?sh m)"
    unfolding layers_concat [OF assms(7,8)] by (metis append_take_drop_id mset_append mset_subset_eq_add_left)
  moreover have "map (\<lambda>layer. int (length layer)) (topology_layers ?s (?sh m)) = replicate (nat (num_layers ?s)) (num_mixnodes_per_layer ?s)"
    if "num_total_mixnodes ?s \<le> int (length ?cand)"
  proof -
    have "num_total_mixnodes ?s \<le> int (length (?sh m))" using that perm by (metis size_mset)
    from layer_full [OF assms(7,8) this] show ?thesis
      by (intro replicate_eqI) (auto simp: length_layers)
  qed
  ultimately show ?thesis using same perm t by simp
qed

definition demo_mixnet :: "(unit, unit, unit, bytes, bytes) Mixnet" where
  "demo_mixnet = \<lparr>topology_config = \<lparr>mixnode_candidates = [demo_node 1, demo_node 2], topology_size = \<lparr>num_layers = 2, num_mixnodes_per_layer = 1\<rparr>, entropy = []\<rparr>,
     mixclient = MixClient_new (demo_mix_config 1) (), mixnode = MixNode_new demo_node_config, entropy_queue = [[3]], consumer_task = Running\<rparr>"

theorem topology_from_entropy_witness:
  "map (\<lambda>layer. int (length layer)) (mixnet_topology (consume_entropy demo_random demo_mixnet)) = [1, 1]"
  using topology_from_entropy [OF demo_proper demo_seeded, of demo_mixnet "[3]" "[]" demo_mixnet "[]"]
  by (simp add: demo_mixnet_def num_total_mixnodes_def numeral_2_eq_2)

section \<open>Clients and nodes\<close>

text \<open>
  C22: What the client does with one real packet and a redundancy of \<open>b\<close>. The emission that takes it
  from its queue sends \<open>b - 1\<close> copies at once, together with cover packets, and each of the next
  \<open>b - 1\<close> emissions sends one copy more. So \<open>2 b - 2\<close> copies leave the client, not \<open>b\<close>, and the
  packet itself is not among the first ones.
\<close>
theorem real_packet_copies:
  assumes "redundant_real_packet_queue c = []" and "real_packet_queue c = x # rest"
    and "emit S R c = (Ok (), c1)" and "b = redundancy (client_config c)"
  shows "\<exists>covers c2. outbound_socket c1 = outbound_socket c @ replicate (nat (b - 1)) x @ covers \<and>
    real_packet_queue c1 = rest \<and>
    ticks S R (nat (b - 1)) c1 = (Ok (), c2) \<and> real_packet_queue c2 = rest \<and> redundant_real_packet_queue c2 = [] \<and>
    outbound_socket c2 = outbound_socket c @ replicate (nat (b - 1)) x @ covers @ replicate (nat (b - 1)) x"
proof -
  let ?k = "nat (b - 1)"
  have d: "outbound_socket (dequeued c) = outbound_socket c @ replicate ?k x"
      "redundant_real_packet_queue (dequeued c) = replicate ?k x" "real_packet_queue (dequeued c) = rest"
    using assms(1,2,4) by (simp_all add: dequeued_def Let_def)
  have "emit_cover S R (dequeued c) = (Ok (), c1)" using emit_fresh [OF assms(1), of S R] assms(3) by simp
  from emit_cover_Ok [OF this] obtain covers w where
    c1: "c1 = (dequeued c)\<lparr>client_world := w, outbound_socket := outbound_socket (dequeued c) @ covers\<rparr>" by blast
  have "redundant_real_packet_queue c1 = replicate ?k x @ []" using c1 d(2) by simp
  from ticks_drain [OF this, of S R] c1 d show ?thesis by auto
qed

definition demo_client :: "(unit, unit, unit, bytes) MixClient" where
  "demo_client = (MixClient_new (demo_mix_config 2) ())\<lparr>real_packet_queue := [([1], [9])]\<rparr>"

lemma demo_covers: "\<exists>out. build_drop_cover_packets demo_sphinx demo_random drop_cover demo_topology () = (Ok out, ())"
proof -
  have "18 < max_plain_payload_size demo_sphinx" "int (length drop_cover) < 255 * (max_plain_payload_size demo_sphinx - 18)"
    by (simp_all add: drop_cover_def)
  from build_packets_ok [OF demo_builds demo_layers this] show ?thesis by (simp add: build_drop_cover_packets_def)
qed

lemma demo_emit:
  assumes "client_topology (client_config c) = demo_topology" and "redundant_real_packet_queue c = []"
  shows "\<exists>c1 out. emit demo_sphinx demo_random c = (Ok (), c1) \<and>
    build_drop_cover_packets demo_sphinx demo_random drop_cover demo_topology () = (Ok out, ()) \<and>
    outbound_socket c1 = outbound_socket (dequeued c) @ first_hops out"
  using demo_covers emit_fresh [OF assms(2), of demo_sphinx demo_random] assms(1) by (auto simp: emit_cover_eq)

theorem real_packet_copies_witness:
  "\<exists>c1 c2 covers. emit demo_sphinx demo_random demo_client = (Ok (), c1) \<and>
     ticks demo_sphinx demo_random 1 c1 = (Ok (), c2) \<and>
     outbound_socket c2 = [([1], [9])] @ covers @ [([1], [9])]"
proof -
  have "client_topology (client_config demo_client) = demo_topology" "redundant_real_packet_queue demo_client = []"
    by (simp_all add: demo_client_def MixClient_new_def demo_mix_config_def)
  then obtain c1 where c1: "emit demo_sphinx demo_random demo_client = (Ok (), c1)" using demo_emit by metis
  have q: "redundant_real_packet_queue demo_client = []" "real_packet_queue demo_client = [([1], [9])]"
    "redundancy (client_config demo_client) = 2" "outbound_socket demo_client = []"
    by (simp_all add: demo_client_def MixClient_new_def demo_mix_config_def)
  from real_packet_copies [OF q(1,2) c1 refl] c1 q(3,4) show ?thesis by (auto simp: numeral_2_eq_2)
qed

text \<open>
  A client with a redundancy of one never sends a message. Along every run from a new client,
  with any calls to \<open>send_message\<close> and \<open>set_topology\<close> between its emissions, every packet that leaves
  it decodes to the drop-cover message.
\<close>
theorem redundancy_one_never_sends:
  assumes "carries S payload" and "proper_randomness R" and "29 \<le> max_plain_payload_size S"
    and "redundancy config \<le> 1"
    and "(client_step S R D)\<^sup>*\<^sup>* (MixClient_new config w) c" and "(a, p) \<in> set (outbound_socket c)"
  shows "\<exists>f. fragment_from_bytes (payload p) = Ok f \<and>
    parse_msg_and_flag (frag_body f) = Ok (MESSAGE_FLAG_DROP_COVER, drop_cover)"
proof -
  have "covers_only payload (MixClient_new config w)" using assms(4) by (simp add: covers_only_def MixClient_new_def)
  with assms(5) have "covers_only payload c"
    by (induction rule: rtranclp_induct) (blast intro: step_covers_only [OF assms(1-3)])+
  with assms(6) have "is_cover payload p" by (force simp: covers_only_def)
  then show ?thesis by (auto simp: is_cover_def bind_res_Ok_iff)
qed

theorem redundancy_one_never_sends_witness:
  "\<exists>c a p f. (client_step demo_sphinx demo_random demo_draws)\<^sup>*\<^sup>* (MixClient_new (demo_mix_config 1) ()) c \<and>
    (a, p) \<in> set (outbound_socket c) \<and> fragment_from_bytes (id p) = Ok f \<and>
    parse_msg_and_flag (frag_body f) = Ok (MESSAGE_FLAG_DROP_COVER, drop_cover)"
proof -
  let ?c = "MixClient_new (demo_mix_config 1) () :: (unit, unit, unit, bytes) MixClient"
  have c: "client_topology (client_config ?c) = demo_topology" "redundant_real_packet_queue ?c = []"
    by (simp_all add: MixClient_new_def demo_mix_config_def)
  let ?c2 = "?c\<lparr>notifier := Some Running, notifications := 1\<rparr>"
  from demo_emit [of "?c2\<lparr>notifications := 0\<rparr>"] c obtain c1 out where
      run: "emit demo_sphinx demo_random (?c2\<lparr>notifications := 0\<rparr>) = (Ok (), c1)"
      and out: "build_drop_cover_packets demo_sphinx demo_random drop_cover demo_topology () = (Ok out, ())"
      and sent: "outbound_socket c1 = outbound_socket (dequeued (?c2\<lparr>notifications := 0\<rparr>)) @ first_hops out" by auto
  have "length out = 1" using cover_packets [OF demo_carries demo_proper _ out] by simp
  then obtain a p where x: "(a, p) \<in> set (outbound_socket c1)"
    using sent by (cases out) (auto simp: first_hops_def)
  have "emission_notifier demo_draws (client_starts ?c) = ?c2"
    by (simp add: emission_notifier_def client_starts_def MixClient_new_def demo_mix_config_def demo_interval)
  then have "client_step demo_sphinx demo_random demo_draws (client_starts ?c) ?c2"
    using client_step.notify [of "client_starts ?c" demo_sphinx demo_random demo_draws] by (simp add: client_starts_def)
  moreover have "client_step demo_sphinx demo_random demo_draws ?c (client_starts ?c)"
    by (rule client_step.begins) (simp_all add: MixClient_new_def)
  moreover have "client_emits demo_sphinx demo_random ?c2 = (Ok (), c1)" using run by (simp add: client_emits_def)
  then have "client_step demo_sphinx demo_random demo_draws ?c2 c1"
    by (rule client_step.tick [rotated 2]) (simp_all add: MixClient_new_def)
  ultimately have steps: "(client_step demo_sphinx demo_random demo_draws)\<^sup>*\<^sup>* ?c c1"
    by (meson converse_rtranclp_into_rtranclp rtranclp.rtrancl_refl)
  have "29 \<le> max_plain_payload_size demo_sphinx" "redundancy (demo_mix_config 1) \<le> 1"
    by (simp_all add: demo_mix_config_def)
  from redundancy_one_never_sends [OF demo_carries demo_proper this steps x] steps x show ?thesis by blast
qed

text \<open>
  C23: A mix node whose delays can be drawn forwards what it accepts exactly once. Packets \<open>xs\<close>
  arrive, their tasks draw and end in any order and the node may be cancelled. At every moment what has left the node, and what
  processing the packets inside it would give, is together what processing each arrival gives, once each; a
  packet whose processing raises gives nothing. From there the node cannot work forever without new
  arrivals, and whenever it comes to rest, everything has left it if its loop is running; if the
  loop was cancelled, everything except what was waiting to be accepted, which stays there unread.
\<close>
theorem node_forwards_each_once:
  assumes "node_run S D xs (MixNode_new config) n" and "timely D (delay_rate_per_min config)"
    and "out = (\<lambda>ps. sum_list (map (output_of S (mixnode_private_key config)) ps))"
  shows "mset (node_outbound_socket n) + out (map service_packet (tasks n)) + out (map snd (inbound_socket n)) =
      out (map snd xs) \<and>
    (\<forall>g. g 0 = n \<longrightarrow> (\<exists>k. \<not> work_step S D (g k) (g (Suc k)))) \<and>
    (\<forall>n'. (work_step S D)\<^sup>*\<^sup>* n n' \<and> (\<nexists>n''. work_step S D n' n'') \<longrightarrow>
      mset (node_outbound_socket n') + (if node_task n = Running then {#} else out (map snd (inbound_socket n))) =
        out (map snd xs) \<and>
      (node_task n \<noteq> Running \<longrightarrow> inbound_socket n' = inbound_socket n))"
proof (intro conjI allI impI)
  have all: "mset (node_outbound_socket m) + out (map service_packet (tasks m)) + out (map snd (inbound_socket m)) =
      out (map snd xs) \<and> node_config m = config"
    if "node_run S D xs (MixNode_new config) m" for m :: "('b, 'd, 'e) MixNode"
    using run_load [OF that _ balanced_outputs] assms(2)
    by (simp add: load_def MixNode_new_def o_def sum_list_singletons assms(3))
  show "mset (node_outbound_socket n) + out (map service_packet (tasks n)) + out (map snd (inbound_socket n)) =
      out (map snd xs)" using all [OF assms(1)] by blast
  show "\<exists>k. \<not> work_step S D (g k) (g (Suc k))" if "g 0 = n" for g
    by (rule work_ends) (use that all [OF assms(1)] assms(2) in simp)
  fix n'
  assume n': "(work_step S D)\<^sup>*\<^sup>* n n' \<and> (\<nexists>n''. work_step S D n' n'')"
  then have keep: "(node_step S D)\<^sup>*\<^sup>* n n' \<and> node_task n' = node_task n \<and>
      (node_task n \<noteq> Running \<longrightarrow> inbound_socket n' = inbound_socket n)" using work_steps_keep by blast
  then have run: "node_run S D xs (MixNode_new config) n'" using node_run_steps [OF assms(1)] by blast
  note end_state = all [OF run]
  then have D: "timely D (delay_rate_per_min (node_config n'))" using assms(2) by simp
  note rest = rest_has_no_tasks [OF conjunct2 [OF n'] D]
  show "mset (node_outbound_socket n') + (if node_task n = Running then {#} else out (map snd (inbound_socket n))) =
      out (map snd xs)"
    using end_state rest keep by (auto simp: assms(3))
  show "node_task n \<noteq> Running \<Longrightarrow> inbound_socket n' = inbound_socket n" using keep by blast
qed

theorem node_forwards_each_once_witness:
  "\<exists>n. node_run demo_sphinx demo_draws [([0], [1])] (MixNode_new demo_node_config) n \<and> node_task n = Running \<and>
    (\<forall>n'. (work_step demo_sphinx demo_draws)\<^sup>*\<^sup>* n n' \<and> (\<nexists>n''. work_step demo_sphinx demo_draws n' n'') \<longrightarrow>
      mset (node_outbound_socket n') = {#([], Inr [1])#})"
proof -
  let ?n = "arrives ([0], [1]) (MixNode_new demo_node_config) :: (unit, bytes, bytes) MixNode"
  have run: "node_run demo_sphinx demo_draws ([] @ [([0], [1])]) (MixNode_new demo_node_config) ?n"
    by (rule node_run.arrive [OF node_run.start])
  have "timely demo_draws (delay_rate_per_min demo_node_config)" by (simp add: demo_node_config_def demo_timely)
  from node_forwards_each_once [OF run this refl] run show ?thesis
    by (intro exI [of _ ?n]) (simp add: MixNode_new_def arrives_def output_of_def process_packet_def demo_sphinx_def)
qed

section \<open>Through the network\<close>

lemma fates_of_fragments:
  assumes "list_all2 (\<lambda>f x. \<exists>l. resolves S C (fst x) (snd x) (d, l) \<and> fragment_bytes f = Ok (recover l)) fs ys"
  shows "\<exists>ls. sum_list (map (\<lambda>(a, p). fate S C a p) ys) = mset (map (Pair d) ls) \<and>
    list_all2 (\<lambda>f l. fragment_bytes f = Ok (recover l)) fs ls"
  using assms
proof (induction rule: list_all2_induct)
  case (Cons f fs y ys)
  then obtain l ls where l: "resolves S C (fst y) (snd y) (d, l)" "fragment_bytes f = Ok (recover l)"
    and ls: "sum_list (map (\<lambda>(a, p). fate S C a p) ys) = mset (map (Pair d) ls)"
      "list_all2 (\<lambda>f l. fragment_bytes f = Ok (recover l)) fs ls" by blast
  from fate_resolves [OF l(1)] ls l(2) show ?case by (intro exI [of _ "l # ls"]) (cases y, simp)
qed simp

lemma sent_packets_resolve:
  assumes "onion S recover (concat (client_topology (client_config c)))" and "proper_randomness R"
    and "send_message S R message c = (Ok (), c')" and "real_packet_queue c = []"
    and "hosts C (concat (client_topology (client_config c)))"
  shows "\<exists>dest sid cs. dest \<in> set (last (client_topology (client_config c))) \<and> length sid = 16 \<and>
    fragment_chunks (max_plain_payload_size S) (flag_bytes MESSAGE_FLAG_REAL @ message) = Ok cs \<and>
    list_all2 (\<lambda>f x. \<exists>l. resolves S C (fst x) (snd x) (addr dest, l) \<and> fragment_bytes f = Ok (recover l))
      (set_fragments sid cs) (real_packet_queue c')"
proof -
  let ?t = "client_topology (client_config c)"
  obtain out w' where build: "build_packets S R MESSAGE_FLAG_REAL message ?t (client_world c) = (Ok out, w')"
    and queue: "real_packet_queue c' = first_hops out"
    using assms(3,4) by (auto simp: send_message_eq build_real_packets_def split: prod.splits res.splits)
  then obtain dest w1 fs w2 where dest: "choose_mix_destination R ?t (client_world c) = (Ok dest, w1)"
    and init: "FragmentSet_init S R (flag_bytes MESSAGE_FLAG_REAL @ message) w1 = (Ok fs, w2)"
    and pk: "packets_for S R ?t dest fs w2 = (Ok out, w')"
    unfolding build_packets_def by (elim bind_act_cases) auto
  note d = destination_mem [OF assms(2) dest]
  obtain sid cs where "length sid = 16" "fs = set_fragments sid cs"
    "fragment_chunks (max_plain_payload_size S) (flag_bytes MESSAGE_FLAG_REAL @ message) = Ok cs"
    using FragmentSet_init_spec [OF assms(2) init] by blast
  with built_packets_resolve [OF assms(1,5,2) _ _ pk] d show ?thesis unfolding queue by blast
qed

text \<open>
  C19: A message gets through the mixnet. The client sends a message along its topology; at the
  addresses of the topology there are idle nodes with the keys of the topology, running, whose delays
  can be drawn. Let the packets the client has queued enter the network in any order and at any time,
  while nodes and transport move as they like. Then the network can come to rest, and whenever it
  does, all payloads are delivered to one node of the last layer, and in the order they came in they
  reassemble to one message, which parses to the flag of real messages and the bytes sent.
\<close>
theorem message_delivered:
  assumes "onion S recover (concat (client_topology (client_config c)))" and "proper_randomness R"
    and "send_message S R message c = (Ok (), c')" and "real_packet_queue c = []"
    and "hosts C (concat (client_topology (client_config c)))" and "ready D C M" and "delivered M = []"
    and "mset xs = mset (real_packet_queue c')"
  shows "(\<exists>N. net_run S D xs M N \<and> idle N) \<and>
    (\<forall>N. net_run S D xs M N \<and> idle N \<longrightarrow>
      (\<exists>dest fs data. dest \<in> set (last (client_topology (client_config c))) \<and>
        (\<forall>x \<in> set (delivered N). fst x = addr dest) \<and>
        map (\<lambda>x. fragment_from_bytes (recover (snd x))) (delivered N) = map Ok fs \<and>
        deliver fs [] = (Ok [data], []) \<and> parse_msg_and_flag data = Ok (MESSAGE_FLAG_REAL, message)))"
proof -
  obtain dest sid cs where dest: "dest \<in> set (last (client_topology (client_config c)))" and sid: "length sid = 16"
    and cs: "fragment_chunks (max_plain_payload_size S) (flag_bytes MESSAGE_FLAG_REAL @ message) = Ok cs"
    and res: "list_all2 (\<lambda>f x. \<exists>l. resolves S C (fst x) (snd x) (addr dest, l) \<and> fragment_bytes f = Ok (recover l))
      (set_fragments sid cs) (real_packet_queue c')"
    using sent_packets_resolve [OF assms(1-5)] by blast
  have "\<forall>x \<in> set (real_packet_queue c'). \<exists>y. resolves S C (fst x) (snd x) y"
  proof
    fix x
    assume "x \<in> set (real_packet_queue c')"
    then obtain i where "i < length (real_packet_queue c')" "x = real_packet_queue c' ! i" by (metis in_set_conv_nth)
    with list_all2_nthD2 [OF res, of i] show "\<exists>y. resolves S C (fst x) (snd x) y" by blast
  qed
  then have "\<forall>(a, p) \<in> set xs. \<exists>y. resolves S C a p y" using mset_eq_setD [OF assms(8)] by (simp add: split_beta)
  then obtain ds where "net_run S D xs M (M\<lparr>delivered := ds\<rparr>)" using packets_get_through [OF assms(6)] by blast
  moreover have "idle (M\<lparr>delivered := ds\<rparr>)" using assms(6) by (simp add: ready_def idle_def)
  moreover have "\<exists>dest fs data. dest \<in> set (last (client_topology (client_config c))) \<and>
      (\<forall>x \<in> set (delivered N). fst x = addr dest) \<and>
      map (\<lambda>x. fragment_from_bytes (recover (snd x))) (delivered N) = map Ok fs \<and>
      deliver fs [] = (Ok [data], []) \<and> parse_msg_and_flag data = Ok (MESSAGE_FLAG_REAL, message)"
    if run: "net_run S D xs M N" "idle N" for N
  proof -
    obtain ls where ls: "sum_list (map (\<lambda>(a, p). fate S C a p) (real_packet_queue c')) = mset (map (Pair (addr dest)) ls)"
      "list_all2 (\<lambda>f l. fragment_bytes f = Ok (recover l)) (set_fragments sid cs) ls"
      using fates_of_fragments [OF res] by blast
    have "sum_list (map (\<lambda>(a, p). fate S C a p) xs) = sum_list (map (\<lambda>(a, p). fate S C a p) (real_packet_queue c'))"
      using assms(8) by (metis mset_map sum_mset_sum_list)
    then have N: "mset (delivered N) = mset (map (Pair (addr dest)) ls)"
      using net_run_load [OF run(1), of C] assms(6,7) idle_load [OF run(2), of S C] idle_load [of M S C] ls(1)
      by (simp add: ready_def)
    then have at: "\<forall>x \<in> set (delivered N). fst x = addr dest" by (metis (no_types, lifting) ex_map_conv fst_conv mset_eq_setD)
    have "list_all2 (\<lambda>f l. fragment_from_bytes (recover l) = Ok f) (set_fragments sid cs) ls"
    proof (rule list.rel_mono_strong [OF ls(2)])
      fix f l
      assume "f \<in> set (set_fragments sid cs)" "fragment_bytes f = Ok (recover l)"
      then show "fragment_from_bytes (recover l) = Ok f"
        using fragment_roundtrip [of f] set_fragments_header [of f sid cs] sid by auto
    qed
    then have "map (\<lambda>l. fragment_from_bytes (recover l)) ls = map Ok (set_fragments sid cs)"
      by (induction rule: list_all2_induct) auto
    then have "mset (map (\<lambda>x. fragment_from_bytes (recover (snd x))) (map (Pair (addr dest)) ls)) = image_mset Ok (mset (set_fragments sid cs))"
      by (simp add: o_def)
    then have "mset (map (\<lambda>x. fragment_from_bytes (recover (snd x))) (delivered N)) = image_mset Ok (mset (set_fragments sid cs))"
      by (metis N mset_map)
    from fragments_message [OF this cs] at dest parse_flagged show ?thesis by blast
  qed
  ultimately show ?thesis by blast
qed

definition demo_onion :: "(unit, unit, bytes, bytes list \<times> bytes \<times> bytes, bytes) Sphinx" where
  "demo_onion = \<lparr>mk_node = (\<lambda>k a. a), sphinx_build = (\<lambda>bs route dest w. (Ok (tl route, dest, bs), w)),
     sphinx_process = (\<lambda>(route, dest, bs) k. Ok (case route of [] \<Rightarrow> ProcessedFinalHop dest bs | a # as \<Rightarrow> ProcessedForwardHop a (as, dest, bs))),
     max_plain_payload_size = 30\<rparr>"

lemma demo_travels: "route \<noteq> [] \<Longrightarrow> travels demo_onion id route d bs (map addr (tl route), d, bs)"
proof (induction route)
  case (Cons h hs)
  then show ?case by (cases hs) (simp_all add: demo_onion_def)
qed simp

lemma demo_onion_node: "sphinx_node (mk_node demo_onion) = addr"
  by (simp add: fun_eq_iff sphinx_node_def demo_onion_def)

lemma demo_onion_ok: "onion demo_onion id infos"
  unfolding onion_def
proof (intro allI impI)
  fix bs route dest w p w'
  assume "route \<noteq> [] \<and> set route \<subseteq> set infos \<and> dest \<in> set infos \<and>
    sphinx_build demo_onion bs (map (sphinx_node (mk_node demo_onion)) route) (sphinx_node (mk_node demo_onion) dest) w = (Ok p, w')"
  then have "route \<noteq> []" "p = (map addr (tl route), addr dest, bs)"
    by (auto simp: demo_onion_node map_tl) (simp add: demo_onion_def)
  then show "travels demo_onion id route (addr dest) bs p" using demo_travels by blast
qed

definition demo_net :: "(unit, bytes list \<times> bytes \<times> bytes, bytes) network" where
  "demo_net = \<lparr>node_at = [[1] \<mapsto> MixNode_new demo_node_config, [2] \<mapsto> MixNode_new demo_node_config], delivered = []\<rparr>"

lemma demo_configs: "configs demo_net = [[1] \<mapsto> demo_node_config, [2] \<mapsto> demo_node_config]"
  by (simp add: fun_eq_iff configs_def demo_net_def MixNode_new_def)

lemma demo_ready: "ready demo_draws (configs demo_net) demo_net"
proof -
  have "timely demo_draws (delay_rate_per_min demo_node_config)" by (simp add: demo_node_config_def demo_timely)
  then have "served demo_draws (configs demo_net) demo_net" by (simp add: served_def) (simp add: demo_configs)
  then show ?thesis by (simp add: ready_def idle_def demo_net_def idle_node_def MixNode_new_def)
qed

theorem message_delivered_witness:
  "\<exists>c N fs data. send_message demo_onion demo_random [9] (MixClient_new (demo_mix_config 2) ()) = (Ok (), c) \<and>
    net_run demo_onion demo_draws (real_packet_queue c) demo_net N \<and> idle N \<and>
    (\<forall>x \<in> set (delivered N). fst x = [2]) \<and>
    map (\<lambda>x. fragment_from_bytes (id (snd x))) (delivered N) = map Ok fs \<and>
    deliver fs [] = (Ok [data], []) \<and> parse_msg_and_flag data = Ok (MESSAGE_FLAG_REAL, [9])"
proof -
  let ?c = "MixClient_new (demo_mix_config 2) () :: (unit, unit, unit, bytes list \<times> bytes \<times> bytes) MixClient"
  have t: "client_topology (client_config ?c) = demo_topology" "real_packet_queue ?c = []"
    by (simp_all add: MixClient_new_def demo_mix_config_def)
  have "builds demo_onion" "18 < max_plain_payload_size demo_onion"
      "int (length [9 :: byte]) < 255 * (max_plain_payload_size demo_onion - 18)"
    by (simp_all add: builds_def demo_onion_def)
  from build_packets_ok [OF this(1) demo_layers this(2,3), of demo_random MESSAGE_FLAG_REAL "client_world ?c"] obtain c where
    c: "send_message demo_onion demo_random [9] ?c = (Ok (), c)"
    by (auto simp: send_message_eq t build_real_packets_def)
  have "hosts (configs demo_net) (concat (client_topology (client_config ?c)))"
    by (simp add: t hosts_def configs_def demo_net_def demo_topology_def demo_node_def MixNode_new_def)
  from message_delivered [OF demo_onion_ok demo_proper c t(2) this demo_ready _ refl]
  obtain N dest fs data where "net_run demo_onion demo_draws (real_packet_queue c) demo_net N" "idle N"
    "dest \<in> set (last demo_topology)" "\<forall>x \<in> set (delivered N). fst x = addr dest"
    "map (\<lambda>x. fragment_from_bytes (id (snd x))) (delivered N) = map Ok fs"
    "deliver fs [] = (Ok [data], [])" "parse_msg_and_flag data = Ok (MESSAGE_FLAG_REAL, [9])"
    unfolding t by (auto simp: demo_net_def)
  with c show ?thesis by (auto simp: demo_topology_def demo_node_def)
qed

section \<open>Stopping\<close>

text \<open>
  C24: \<open>Mixnet.cancel\<close>, called at any moment of any run of the process. When the task of the client has
  ended with an exception, that exception leaves \<open>cancel\<close>, and neither the client's notifier nor the
  mix node is stopped. Otherwise all three tasks stop: whatever happens later, the client sends nothing
  more, the topology stays, no packet that waits at the node is accepted, and the node sends at most one
  packet for every task it had begun. The notifier of the client is not stopped then either.
\<close>
theorem mixnet_cancel:
  assumes "(mixnet_step S R D)\<^sup>*\<^sup>* (Mixnet_new config queue w) m" and "Mixnet_cancel m = (r, m1)"
    and "(mixnet_step S R D)\<^sup>*\<^sup>* m1 m2"
  shows "case client_task (mixclient m) of
      Failed e \<Rightarrow> r = Err e \<and> mixclient m1 = mixclient m \<and> mixnode m1 = mixnode m
    | _ \<Rightarrow> r = Ok () \<and> notifier (mixclient m1) = notifier (mixclient m) \<and>
        outbound_socket (mixclient m2) = outbound_socket (mixclient m) \<and> mixnet_topology m2 = mixnet_topology m \<and>
        prefix (inbound_socket (mixnode m)) (inbound_socket (mixnode m2)) \<and>
        length (node_outbound_socket (mixnode m2)) \<le> length (node_outbound_socket (mixnode m)) + length (tasks (mixnode m))"
proof -
  have sound: "sound_tasks m" by (rule process.run_inv [OF assms(1) sound_new])
  note eq = assms(2) [unfolded Mixnet_cancel_eq [OF sound]]
  show ?thesis
  proof (cases "\<exists>e. client_task (mixclient m) = Failed e")
    case True
    then show ?thesis using eq by auto
  next
    case False
    then have m1: "r = Ok ()" "m1 = m\<lparr>consumer_task := Cancelled, mixclient := (mixclient m)\<lparr>client_task := Cancelled\<rparr>,
        mixnode := (mixnode m)\<lparr>node_task := Cancelled\<rparr>\<rparr>"
      using eq by (auto split: task.splits)
    then have "stopped m1" by (simp add: stopped_def sound_tasks_def)
    then have "winds_down m1 m2" by (rule stopping.run_rel [OF assms(3)])
    then show ?thesis using False m1 by (auto simp: winds_down_def mixnet_topology_def get_topology_def split: task.split)
  qed
qed

definition demo_config :: "(unit, unit) MixnetConfig" where
  "demo_config = \<lparr>config_topology = \<lparr>mixnode_candidates = [], topology_size = \<lparr>num_layers = 0, num_mixnodes_per_layer = 1\<rparr>, entropy = []\<rparr>,
     config_client = (demo_mix_config 1)\<lparr>client_topology := []\<rparr>, config_node = demo_node_config\<rparr>"

theorem mixnet_cancel_witness:
  "\<exists>m m1. (mixnet_step demo_sphinx demo_random demo_draws)\<^sup>*\<^sup>* (Mixnet_new demo_config [] ()) m \<and>
    Mixnet_cancel m = (Err IndexError, m1) \<and> node_task (mixnode m1) = Running"
proof -
  let ?m = "Mixnet_new demo_config [] () :: (unit, unit, unit, bytes, bytes) Mixnet"
  let ?c = "mixclient ?m" let ?step = "mixnet_step demo_sphinx demo_random demo_draws"
  let ?m1 = "?m\<lparr>mixclient := client_starts ?c\<rparr>"
  let ?m2 = "?m\<lparr>mixclient := ?c\<lparr>notifier := Some Running, notifications := 1\<rparr>\<rparr>"
  let ?m3 = "?m\<lparr>mixclient := ?c\<lparr>notifier := Some Running, client_task := Failed IndexError\<rparr>\<rparr>"
  have c: "?c = MixClient_new ((demo_mix_config 1)\<lparr>client_topology := []\<rparr>) ()"
    by (simp add: Mixnet_new_def demo_config_def)
  have "?step ?m ?m1" by (rule mixnet_step.begins) (simp_all add: c MixClient_new_def)
  moreover have "emission_notifier demo_draws (client_starts ?c) = ?c\<lparr>notifier := Some Running, notifications := 1\<rparr>"
    by (simp add: c emission_notifier_def client_starts_def MixClient_new_def demo_mix_config_def demo_interval)
  then have "?step ?m1 ?m2"
    using mixnet_step.notify [of ?m1 demo_sphinx demo_random demo_draws] by (simp add: client_starts_def)
  moreover have "client_emits demo_sphinx demo_random (mixclient ?m2) = (Err IndexError, mixclient ?m3)"
    by (simp add: c client_emits_def emit_fresh emit_cover_eq build_drop_cover_packets_def build_packets_def bind_act_def
        destination_missing MixClient_new_def demo_mix_config_def dequeued_def)
  then have "on_client (client_emits demo_sphinx demo_random) ?m2 = (Err IndexError, ?m3)" by (simp add: on_client_def)
  then have "?step ?m2 ?m3" by (rule mixnet_step.tick [rotated 2]) (simp_all add: c MixClient_new_def)
  ultimately have run: "?step\<^sup>*\<^sup>* ?m ?m3" by (meson converse_rtranclp_into_rtranclp rtranclp.rtrancl_refl)
  obtain r n where can: "Mixnet_cancel ?m3 = (r, n)" by (cases "Mixnet_cancel ?m3")
  from mixnet_cancel [OF run can rtranclp.rtrancl_refl] have "r = Err IndexError" "mixnode n = mixnode ?m3" by simp_all
  moreover have "node_task (mixnode ?m3) = Running" by (simp add: Mixnet_new_def MixNode_new_def)
  ultimately show ?thesis using run can by metis
qed

end
