(* ===== verification/Carnot.thy ===== *)
theory Carnot
  imports Prelude
begin

text \<open>
  deprecated/carnot/carnot.py: one node of the Carnot consensus.

  The overlay, the arrangement of the nodes in committees, is an interface of the code: the class
  \<open>Overlay\<close> with abstract methods. \<open>OverlayOps\<close> holds its methods over a type \<open>'ov\<close> of overlays;
  those that an overlay of the repository can fail in return a result. \<open>ov_leader_at\<close> is \<open>leader\<close>
  called with a view, as \<open>approve_block\<close> does. Handlers are methods on the node: they return an
  event or raise, and keep what they changed before an exception.

  Quorum certificates are recursive because the code puts any certificate it received into the
  \<open>highest_qc\<close> of an aggregate. A collection of messages is the list of its elements in the order
  the code iterates over it. Blocks are stored in a dictionary, an association list in insertion
  order. \<open>Optional\<close> values are options; using \<open>None\<close> where a value is needed is \<open>AttributeError\<close>.
\<close>

section \<open>Certificates, blocks and messages\<close>

type_synonym Id = bytes

text \<open>\<open>bytes(str(i), encoding="utf8")\<close>: the decimal digits.\<close>

fun nat_digits :: "nat \<Rightarrow> bytes" where
  "nat_digits n = (if n < 10 then [word_of_nat (48 + n)] else nat_digits (n div 10) @ [word_of_nat (48 + n mod 10)])"

declare nat_digits.simps [simp del]

definition int_to_id :: "int \<Rightarrow> Id" where
  "int_to_id i = (if i < 0 then 45 # nat_digits (nat (- i)) else nat_digits (nat i))"

lemma digit_byte: "d < 10 \<Longrightarrow> uint (word_of_nat (48 + d) :: byte) = 48 + int d"
proof -
  have "uint (word_of_nat m :: byte) = int m" if "m < 256" for m
    using that by (simp add: unsigned_of_nat take_bit_eq_mod flip: uint_nat)
  from this [of "48 + d"] show "d < 10 \<Longrightarrow> uint (word_of_nat (48 + d) :: byte) = 48 + int d" by simp
qed

lemma nat_digits_value: "foldl (\<lambda>a b. a * 10 + (uint b - 48)) 0 (nat_digits n) = int n \<and> (\<forall>b \<in> set (nat_digits n). 48 \<le> uint b)"
proof (induction n rule: nat_digits.induct)
  case (1 n)
  show ?case
  proof (cases "n < 10")
    case True
    then show ?thesis using digit_byte [of n] by (simp add: nat_digits.simps [of n])
  next
    case False
    moreover have "int (n div 10) * 10 + int (n mod 10) = int n" by (metis div_mult_mod_eq of_nat_add of_nat_mult of_nat_numeral)
    ultimately show ?thesis using 1 digit_byte [of "n mod 10"] by (simp add: nat_digits.simps [of n])
  qed
qed

text \<open>Different numbers have different identifiers.\<close>

lemma int_to_id_inj: "int_to_id i = int_to_id j \<longleftrightarrow> i = j"
proof
  assume eq: "int_to_id i = int_to_id j"
  have no_sign: "nat_digits n \<noteq> 45 # bs" for n bs
    using nat_digits_value [of n] by auto
  have inj: "nat_digits m = nat_digits n \<Longrightarrow> m = n" for m n
    using nat_digits_value [of m] nat_digits_value [of n] by (metis of_nat_eq_iff)
  show "i = j"
    using eq no_sign inj [of "nat i" "nat j"] inj [of "nat (- i)" "nat (- j)"] no_sign [symmetric]
    by (auto simp: int_to_id_def split: if_splits)
qed simp

datatype Qc =
    StandardQc (qc_block: Id) (sqc_view: int)
  | AggregateQc (agg_qcs: "int list") (highest_qc: Qc) (aqc_view: int)

fun qc_view :: "Qc \<Rightarrow> int" where
  "qc_view (StandardQc b v) = v"
| "qc_view (AggregateQc qs h v) = v"

fun is_standard :: "Qc \<Rightarrow> bool" where
  "is_standard (StandardQc b v) = True"
| "is_standard (AggregateQc qs h v) = False"

fun agg_high_qc :: "Qc \<Rightarrow> (exn, Qc) res" where
  "agg_high_qc (StandardQc b v) = Err AttributeError"
| "agg_high_qc (AggregateQc qs h v) =
     (if qs = [] then Err ValueError else if qc_view h = Max (set qs) then Ok h else Err AssertionError)"

record Block =
  bview :: int
  bqc :: Qc
  bid :: Id

definition block_extends :: "Block \<Rightarrow> Block \<Rightarrow> bool" where
  "block_extends b ancestor \<longleftrightarrow> bview b > bview ancestor"

fun qc_block_of :: "Qc \<Rightarrow> (exn, Id) res" where
  "qc_block_of (StandardQc b v) = Ok b"
| "qc_block_of (AggregateQc qs h v) = Err AttributeError"

definition block_parent :: "Block \<Rightarrow> (exn, Id) res" where
  "block_parent b =
     (if is_standard (bqc b) then qc_block_of (bqc b) else bind_res (agg_high_qc (bqc b)) qc_block_of)"

record Vote =
  vblock :: Id
  vview :: int
  voter :: Id
  vqc :: "Qc option"

record TimeoutQc =
  tqc_view :: int
  tqc_high_qc :: Qc
  tqc_qc_views :: "int list"
  tqc_sender_ids :: "Id set"
  tqc_sender :: Id

record Timeout =
  to_view :: int
  to_high_qc :: "Qc option"
  to_sender :: Id
  to_timeout_qc :: "TimeoutQc option"

record NewView =
  nv_view :: int
  nv_high_qc :: "Qc option"
  nv_sender :: Id
  nv_timeout_qc :: TimeoutQc

datatype Quorum = Votes "Vote list" | NewViews "NewView list"

datatype Payload = PBlock Block | PVote Vote | PTimeout Timeout | PNewView NewView | PTimeoutQc TimeoutQc

datatype Receiver = ToId Id | ToIds "Id list" | ToCommittee "Id set option"

datatype Event = BroadCast Payload | Send Receiver Payload

section \<open>The node\<close>

record 'ov OverlayOps =
  ov_is_leader :: "'ov \<Rightarrow> Id \<Rightarrow> bool"
  ov_leader :: "'ov \<Rightarrow> Id"
  ov_leader_at :: "'ov \<Rightarrow> int \<Rightarrow> (exn, Id) res"
  ov_next_leader :: "'ov \<Rightarrow> (exn, Id) res"
  ov_is_root :: "'ov \<Rightarrow> Id \<Rightarrow> bool"
  ov_is_child_member :: "'ov \<Rightarrow> Id \<Rightarrow> Id \<Rightarrow> (exn, bool) res"
  ov_parent_committee :: "'ov \<Rightarrow> Id \<Rightarrow> (exn, Id set option) res"
  ov_root_committee :: "'ov \<Rightarrow> Id set"
  ov_is_child_of_root :: "'ov \<Rightarrow> Id \<Rightarrow> (exn, bool) res"
  ov_leader_threshold :: "'ov \<Rightarrow> Id \<Rightarrow> (exn, int) res"
  ov_threshold :: "'ov \<Rightarrow> Id \<Rightarrow> (exn, int) res"

record 'ov Carnot =
  cid :: Id
  current_view :: int
  highest_voted_view :: int
  local_high_qc :: "Qc option"
  safe_blocks :: "(Id \<times> Block) list"
  last_view_timeout_qc :: "TimeoutQc option"
  overlay :: 'ov

definition Carnot_init :: "Id \<Rightarrow> 'ov \<Rightarrow> 'ov Carnot" where
  "Carnot_init i ov = \<lparr>cid = i, current_view = 0, highest_voted_view = - 1, local_high_qc = None,
     safe_blocks = [], last_view_timeout_qc = None, overlay = ov\<rparr>"

definition attr :: "'a option \<Rightarrow> (exn, 'a) res" where
  "attr x = (case x of None \<Rightarrow> Err AttributeError | Some y \<Rightarrow> Ok y)"

definition has_block :: "'ov Carnot \<Rightarrow> Id \<Rightarrow> bool" where
  "has_block c i \<longleftrightarrow> map_of (safe_blocks c) i \<noteq> None"

definition can_commit_grandparent :: "'ov Carnot \<Rightarrow> Block \<Rightarrow> (exn, bool) res" where
  "can_commit_grandparent c block =
     bind_res (block_parent block) (\<lambda>p.
     bind_res (attr (map_of (safe_blocks c) p)) (\<lambda>parent.
     bind_res (block_parent parent) (\<lambda>g.
       case map_of (safe_blocks c) g of
         None \<Rightarrow> Ok False
       | Some grand_parent \<Rightarrow>
           Ok (bview parent = bview grand_parent + 1 \<and> is_standard (bqc block) \<and> is_standard (bqc parent)))))"

definition blocks_in_view :: "'ov Carnot \<Rightarrow> int \<Rightarrow> Block list" where
  "blocks_in_view c v = filter (\<lambda>b. bview b = v) (map snd (safe_blocks c))"

definition genesis_block :: "'ov Carnot \<Rightarrow> (exn, Block) res" where
  "genesis_block c = py_index (blocks_in_view c 0) 0"

definition grandparent :: "'ov Carnot \<Rightarrow> Block \<Rightarrow> (exn, Block option) res" where
  "grandparent c block =
     bind_res (block_parent block) (\<lambda>p.
     bind_res (attr (map_of (safe_blocks c) p)) (\<lambda>parent.
     bind_res (block_parent parent) (\<lambda>g. Ok (map_of (safe_blocks c) g))))"

fun commit_in :: "'ov Carnot \<Rightarrow> Block list \<Rightarrow> (exn, Block option) res" where
  "commit_in c [] = Ok None"
| "commit_in c (block # blocks) =
     bind_res (can_commit_grandparent c block) (\<lambda>ok.
       if ok then grandparent c block else commit_in c blocks)"

fun commit_scan :: "'ov Carnot \<Rightarrow> int list \<Rightarrow> (exn, Block) res" where
  "commit_scan c [] = genesis_block c"
| "commit_scan c (v # vs) =
     bind_res (commit_in c (blocks_in_view c v)) (\<lambda>found.
       case found of Some b \<Rightarrow> Ok b | None \<Rightarrow> commit_scan c vs)"

definition latest_committed_block :: "'ov Carnot \<Rightarrow> (exn, Block) res" where
  "latest_committed_block c = commit_scan c (rev [1..current_view c])"

definition latest_committed_view :: "'ov Carnot \<Rightarrow> (exn, int) res" where
  "latest_committed_view c = bind_res (latest_committed_block c) (\<lambda>b. Ok (bview b))"

text \<open>
  The keys of the dictionary that \<open>committed_blocks\<close> returns: \<open>self.genesis_block().id\<close> is a bound
  method, not an identifier, and is the key \<open>None\<close> here.
\<close>

fun committed_loop ::
    "'ov Carnot \<Rightarrow> nat \<Rightarrow> Block \<Rightarrow> (Id option \<times> Block) list \<Rightarrow> (exn, (Id option \<times> Block) list) res" where
  "committed_loop c n tip acc =
     (if bview tip > 0
      then case n of
        0 \<Rightarrow> Diverge
      | Suc m \<Rightarrow>
          bind_res (block_parent tip) (\<lambda>p.
          bind_res (attr (map_of (safe_blocks c) p)) (\<lambda>parent.
            committed_loop c m parent (AList.update (Some (bid tip)) tip acc)))
      else Ok acc)"

declare committed_loop.simps [simp del]

definition committed_blocks :: "'ov Carnot \<Rightarrow> nat \<Rightarrow> (exn, (Id option \<times> Block) list) res" where
  "committed_blocks c n =
     bind_res (latest_committed_block c) (\<lambda>tip.
     bind_res (genesis_block c) (\<lambda>g.
       committed_loop c n tip [(Some (bid tip), tip), (None, g)]))"

definition block_is_safe :: "'ov Carnot \<Rightarrow> Block \<Rightarrow> bool" where
  "block_is_safe c block \<longleftrightarrow> bview block \<ge> current_view c \<and> bview block = qc_view (bqc block) + 1"

section \<open>Certificates received\<close>

fun new_high_qc :: "Qc option \<Rightarrow> Qc \<Rightarrow> (exn, Qc option) res" where
  "new_high_qc None (StandardQc b v) = Ok (Some (StandardQc b v))"
| "new_high_qc None (AggregateQc qs h v) = bind_res (agg_high_qc (AggregateQc qs h v)) (\<lambda>q. Ok (Some q))"
| "new_high_qc (Some old) (StandardQc b v) = Ok (if v > qc_view old then Some (StandardQc b v) else None)"
| "new_high_qc (Some old) (AggregateQc qs h v) =
     bind_res (agg_high_qc (AggregateQc qs h v)) (\<lambda>q. Ok (if qc_view q \<noteq> qc_view old then Some q else None))"

definition set_high_qc :: "Qc option \<Rightarrow> 'ov Carnot \<Rightarrow> 'ov Carnot" where
  "set_high_qc new c = (case new of None \<Rightarrow> c | Some q \<Rightarrow> c\<lparr>local_high_qc := Some q\<rparr>)"

definition update_high_qc :: "Qc \<Rightarrow> ('ov Carnot, exn, unit) action" where
  "update_high_qc qc =
     bind_act (call (\<lambda>c. new_high_qc (local_high_qc c) qc)) (\<lambda>new.
     bind_act (modify (set_high_qc new)) (\<lambda>_.
       modify (\<lambda>c. if qc_view qc = current_view c then c\<lparr>current_view := current_view c + 1\<rparr> else c)))"

definition update_timeout_qc :: "TimeoutQc \<Rightarrow> 'ov Carnot \<Rightarrow> 'ov Carnot" where
  "update_timeout_qc t c = (case last_view_timeout_qc c of
       None \<Rightarrow> c\<lparr>last_view_timeout_qc := Some t\<rparr>
     | Some old \<Rightarrow> if tqc_view t > tqc_view old then c\<lparr>last_view_timeout_qc := Some t\<rparr> else c)"

definition receive_block :: "Block \<Rightarrow> ('ov Carnot, exn, unit) action" where
  "receive_block block =
     bind_act (assert_act (\<lambda>c. bind_res (block_parent block) (\<lambda>p. Ok (has_block c p)))) (\<lambda>_ c.
       if has_block c (bid block) then ret () c
       else bind_act
         (call (\<lambda>c. or_res (Ok (blocks_in_view c (bview block) \<noteq> []))
                          (bind_res (latest_committed_view c) (\<lambda>v. Ok (bview block \<le> v))))) (\<lambda>skip c.
         if skip then ret () c
         else if block_is_safe c block
         then bind_act (modify (\<lambda>c. c\<lparr>safe_blocks := AList.update (bid block) block (safe_blocks c)\<rparr>))
                (\<lambda>_. update_high_qc (bqc block)) c
         else ret () c) c)"

abbreviation update_current_view_from_timeout_qc :: "TimeoutQc \<Rightarrow> ('ov Carnot, exn, unit) action" where
  "update_current_view_from_timeout_qc t \<equiv> modify (\<lambda>c. c\<lparr>current_view := tqc_view t + 1\<rparr>)"

definition receive_timeout_qc :: "TimeoutQc \<Rightarrow> ('ov Carnot, exn, unit) action" where
  "receive_timeout_qc t c =
     (if tqc_view t < current_view c then ret () c
      else bind_act (update_high_qc (tqc_high_qc t)) (\<lambda>_.
           bind_act (modify (update_timeout_qc t)) (\<lambda>_.
             update_current_view_from_timeout_qc t)) c)"

definition rebuild_overlay_from_timeout_qc :: "'ov \<Rightarrow> TimeoutQc \<Rightarrow> ('ov Carnot, exn, unit) action" where
  "rebuild_overlay_from_timeout_qc base t =
     bind_act (assert_act (\<lambda>c. Ok (tqc_view t \<ge> current_view c))) (\<lambda>_. modify (\<lambda>c. c\<lparr>overlay := base\<rparr>))"

section \<open>Building certificates\<close>

text \<open>\<open>max(xs, key=key)\<close>: the first element whose key is greatest.\<close>

fun py_max_from :: "('a \<Rightarrow> int) \<Rightarrow> 'a \<Rightarrow> 'a list \<Rightarrow> 'a" where
  "py_max_from key m [] = m"
| "py_max_from key m (x # xs) = py_max_from key (if key x > key m then x else m) xs"

fun py_max :: "('a \<Rightarrow> int) \<Rightarrow> 'a list \<Rightarrow> (exn, 'a) res" where
  "py_max key [] = Err ValueError"
| "py_max key (x # xs) = Ok (py_max_from key x xs)"

fun high_qcs :: "Qc option list \<Rightarrow> (exn, Qc list) res" where
  "high_qcs [] = Ok []"
| "high_qcs (q # qs) = bind_res (attr q) (\<lambda>q. bind_res (high_qcs qs) (\<lambda>qs. Ok (q # qs)))"

definition build_qc :: "int \<Rightarrow> Block option \<Rightarrow> NewView list \<Rightarrow> (exn, Qc) res" where
  "build_qc view block new_views =
     (case new_views of
        [] \<Rightarrow> bind_res (attr block) (\<lambda>b. Ok (StandardQc (bid b) view))
      | nv # _ \<Rightarrow>
          bind_res (high_qcs (map nv_high_qc new_views)) (\<lambda>qs.
          bind_res (py_max qc_view qs) (\<lambda>h. Ok (AggregateQc (map qc_view qs) h (nv_view nv)))))"

definition build_timeout_qc :: "Timeout list \<Rightarrow> Id \<Rightarrow> (exn, TimeoutQc) res" where
  "build_timeout_qc msgs sender =
     bind_res (py_index msgs 0) (\<lambda>m.
     bind_res (high_qcs (map to_high_qc msgs)) (\<lambda>qs.
     bind_res (py_max qc_view qs) (\<lambda>h.
       Ok \<lparr>tqc_view = to_view m, tqc_high_qc = h, tqc_qc_views = map to_view msgs,
           tqc_sender_ids = set (map to_sender msgs), tqc_sender = sender\<rparr>)))"

section \<open>Voting and timeouts\<close>

definition approve_block :: "'ov OverlayOps \<Rightarrow> Block \<Rightarrow> Vote list \<Rightarrow> ('ov Carnot, exn, Event) action" where
  "approve_block ops block votes =
     bind_act (assert_act (\<lambda>c. Ok (has_block c (bid block)))) (\<lambda>_.
     bind_act (assert_act (\<lambda>c. bind_res (ov_threshold ops (overlay c) (cid c)) (\<lambda>n. Ok (int (length votes) = n)))) (\<lambda>_.
     bind_act (assert_act (\<lambda>c. all_res (\<lambda>vote. ov_is_child_member ops (overlay c) (cid c) (voter vote)) votes)) (\<lambda>_.
     bind_act (assert_act (\<lambda>c. Ok (list_all (\<lambda>vote. vblock vote = bid block) votes))) (\<lambda>_.
     bind_act (assert_act (\<lambda>c. Ok (highest_voted_view c < bview block))) (\<lambda>_ c.
       let root = ov_is_root ops (overlay c) (cid c) in
       bind_act (call (\<lambda>_. if root then bind_res (build_qc (bview block) (Some block) []) (\<lambda>q. Ok (Some q)) else Ok None)) (\<lambda>qc.
         let vote = \<lparr>vblock = bid block, vview = bview block, voter = cid c, vqc = qc\<rparr> in
         bind_act (modify (\<lambda>c. c\<lparr>highest_voted_view := max (highest_voted_view c) (bview block)\<rparr>)) (\<lambda>_.
           if root
           then bind_act (call (\<lambda>c. ov_leader_at ops (overlay c) (bview block + 1))) (\<lambda>l. ret (Send (ToId l) (PVote vote)))
           else bind_act (call (\<lambda>c. ov_parent_committee ops (overlay c) (cid c))) (\<lambda>p. ret (Send (ToCommittee p) (PVote vote))))) c)))))"

definition forward_vote :: "'ov OverlayOps \<Rightarrow> Vote \<Rightarrow> ('ov Carnot, exn, Event option) action" where
  "forward_vote ops vote =
     bind_act (assert_act (\<lambda>c. Ok (has_block c (vblock vote)))) (\<lambda>_.
     bind_act (assert_act (\<lambda>c. ov_is_child_member ops (overlay c) (cid c) (voter vote))) (\<lambda>_.
     bind_act (assert_act (\<lambda>c. Ok (highest_voted_view c = vview vote))) (\<lambda>_ c.
       if ov_is_root ops (overlay c) (cid c)
       then bind_act (call (\<lambda>c. ov_next_leader ops (overlay c))) (\<lambda>l. ret (Some (Send (ToId l) (PVote vote)))) c
       else ret None c)))"

definition forward_new_view :: "'ov OverlayOps \<Rightarrow> NewView \<Rightarrow> ('ov Carnot, exn, Event option) action" where
  "forward_new_view ops msg =
     bind_act (assert_act (\<lambda>c. Ok (nv_view msg = current_view c))) (\<lambda>_.
     bind_act (assert_act (\<lambda>c. ov_is_child_member ops (overlay c) (cid c) (nv_sender msg))) (\<lambda>_.
     bind_act (assert_act (\<lambda>c. Ok (highest_voted_view c = nv_view msg))) (\<lambda>_ c.
       if ov_is_root ops (overlay c) (cid c)
       then bind_act (call (\<lambda>c. ov_next_leader ops (overlay c))) (\<lambda>l. ret (Some (Send (ToId l) (PNewView msg)))) c
       else ret None c)))"

fun quorum_size :: "Quorum \<Rightarrow> int" where
  "quorum_size (Votes vs) = int (length vs)"
| "quorum_size (NewViews ns) = int (length ns)"

fun quorum_qc :: "'ov Carnot \<Rightarrow> Quorum \<Rightarrow> (exn, Qc) res" where
  "quorum_qc c (Votes vs) =
     bind_res (py_index vs 0) (\<lambda>vote.
     bind_res (get_item (safe_blocks c) (vblock vote)) (\<lambda>b. build_qc (vview vote) (Some b) []))"
| "quorum_qc c (NewViews ns) = bind_res (py_index ns 0) (\<lambda>nv. build_qc (nv_view nv) None ns)"

text \<open>The identifier of a proposed block; \<open>hash\<close> is Python's on pairs of byte strings.\<close>

definition dummy_block_id :: "(bytes \<Rightarrow> bytes \<Rightarrow> int) \<Rightarrow> int \<Rightarrow> int \<Rightarrow> Id" where
  "dummy_block_id hash view qcview = int_to_id (hash (int_to_id view) (int_to_id qcview))"

definition propose_block ::
    "'ov OverlayOps \<Rightarrow> (bytes \<Rightarrow> bytes \<Rightarrow> int) \<Rightarrow> int \<Rightarrow> Quorum \<Rightarrow> ('ov Carnot, exn, Event) action" where
  "propose_block ops hash view quorum =
     bind_act (assert_act (\<lambda>c. Ok (ov_is_leader ops (overlay c) (cid c)))) (\<lambda>_.
     bind_act (assert_act (\<lambda>c. bind_res (ov_leader_threshold ops (overlay c) (cid c)) (\<lambda>n. Ok (quorum_size quorum \<ge> n)))) (\<lambda>_.
     bind_act (call (\<lambda>c. quorum_qc c quorum)) (\<lambda>qc.
       ret (BroadCast (PBlock \<lparr>bview = view, bqc = qc, bid = dummy_block_id hash view (qc_view qc)\<rparr>)))))"

definition is_safe_to_timeout_invariant :: "'ov Carnot \<Rightarrow> (exn, bool) res" where
  "is_safe_to_timeout_invariant c =
     bind_res (attr (local_high_qc c)) (\<lambda>high.
     bind_res (assert_res (current_view c > max (highest_voted_view c - 1) (qc_view high)) AssertionError) (\<lambda>_.
       or_res (Ok (current_view c = qc_view high + 1))
         (bind_res (attr (last_view_timeout_qc c)) (\<lambda>t.
           Ok (current_view c = tqc_view t + 1 \<or> current_view c = tqc_view t)))))"

definition local_timeout :: "'ov OverlayOps \<Rightarrow> ('ov Carnot, exn, Event option) action" where
  "local_timeout ops =
     bind_act (modify (\<lambda>c. c\<lparr>highest_voted_view := current_view c\<rparr>)) (\<lambda>_.
     bind_act (call (\<lambda>c. or_res (Ok (ov_is_root ops (overlay c) (cid c))) (ov_is_child_of_root ops (overlay c) (cid c)))) (\<lambda>top c.
       if top
       then ret (Some (Send (ToCommittee (Some (ov_root_committee ops (overlay c))))
              (PTimeout \<lparr>to_view = current_view c, to_high_qc = local_high_qc c, to_sender = cid c,
                         to_timeout_qc = last_view_timeout_qc c\<rparr>))) c
       else ret None c))"

definition timeout_detected :: "'ov OverlayOps \<Rightarrow> Timeout list \<Rightarrow> ('ov Carnot, exn, Event) action" where
  "timeout_detected ops msgs =
     bind_act (assert_act (\<lambda>c. bind_res (ov_leader_threshold ops (overlay c) (cid c)) (\<lambda>n. Ok (int (length msgs) = n)))) (\<lambda>_.
     bind_act (assert_act (\<lambda>c. Ok (list_all (\<lambda>m. to_view m \<ge> current_view c) msgs))) (\<lambda>_.
     bind_act (assert_act (\<lambda>c. Ok (card (set (map to_view msgs)) = 1))) (\<lambda>_.
     bind_act (assert_act (\<lambda>c. Ok (ov_is_root ops (overlay c) (cid c)))) (\<lambda>_.
     bind_act (call (\<lambda>c. build_timeout_qc msgs (cid c))) (\<lambda>t.
       ret (BroadCast (PTimeoutQc t)))))))"

definition approve_new_view ::
    "'ov OverlayOps \<Rightarrow> TimeoutQc \<Rightarrow> NewView list \<Rightarrow> ('ov Carnot, exn, Event) action" where
  "approve_new_view ops t new_views =
     bind_act (assert_act (\<lambda>c. Ok (case last_view_timeout_qc c of
        None \<Rightarrow> True | Some old \<Rightarrow> list_all (\<lambda>nv. nv_view nv > tqc_view old) new_views))) (\<lambda>_.
     bind_act (assert_act (\<lambda>c. Ok (list_all (\<lambda>nv. tqc_view (nv_timeout_qc nv) = tqc_view t) new_views))) (\<lambda>_.
     bind_act (assert_act (\<lambda>c. bind_res (ov_threshold ops (overlay c) (cid c)) (\<lambda>n. Ok (int (length new_views) = n)))) (\<lambda>_.
     bind_act (assert_act (\<lambda>c. all_res (\<lambda>nv. ov_is_child_member ops (overlay c) (cid c) (nv_sender nv)) new_views)) (\<lambda>_.
     bind_act (assert_act (\<lambda>c. Ok (list_all (\<lambda>nv. tqc_view t + 1 = nv_view nv) new_views))) (\<lambda>_.
     bind_act (assert_act (\<lambda>c. Ok (highest_voted_view c < tqc_view t + 1))) (\<lambda>_.
     bind_act (call (\<lambda>c. bind_res (high_qcs (Some (tqc_high_qc t) # map nv_high_qc new_views)) (py_max qc_view))) (\<lambda>high_qc.
     bind_act (update_high_qc high_qc) (\<lambda>_ c.
       let msg = \<lparr>nv_view = tqc_view t + 1, nv_high_qc = local_high_qc c, nv_sender = cid c, nv_timeout_qc = t\<rparr>
       in bind_act (modify (\<lambda>c. c\<lparr>highest_voted_view := max (highest_voted_view c) (tqc_view t + 1)\<rparr>)) (\<lambda>_ c.
          if ov_is_root ops (overlay c) (cid c)
          then bind_act (call (\<lambda>c. ov_next_leader ops (overlay c))) (\<lambda>l. ret (Send (ToIds [l]) (PNewView msg))) c
          else bind_act (call (\<lambda>c. ov_parent_committee ops (overlay c) (cid c))) (\<lambda>p. ret (Send (ToCommittee p) (PNewView msg))) c) c))))))))"

end
