(* ===== verification/Carnot_Commit.thy ===== *)
theory Carnot_Commit
  imports Carnot_Inv
begin

text \<open>
  The tree of safe blocks and the commits read off it.

  A block is \<open>justified\<close> at a node when its certificate certifies its parent at the parent's view (a
  standard certificate) or at some later view (an aggregate): the validation of certificates that
  the code leaves to its caller. Under it every block but genesis hangs below a stored block of a
  smaller view, no two blocks share a view, and a commit, once made, is never taken back.
\<close>

section \<open>The tree\<close>

definition justified :: "'ov Carnot \<Rightarrow> Block \<Rightarrow> bool" where
  "justified c b \<longleftrightarrow> (\<forall>i p. block_parent b = Ok i \<longrightarrow> map_of (safe_blocks c) i = Some p \<longrightarrow>
     (if is_standard (bqc b) then qc_view (bqc b) = bview p else bview p \<le> qc_view (bqc b)))"

definition parent_of :: "'ov Carnot \<Rightarrow> Block \<Rightarrow> Block \<Rightarrow> bool" where
  "parent_of c b p \<longleftrightarrow> (\<exists>i. block_parent b = Ok i \<and> map_of (safe_blocks c) i = Some p)"

definition block_tree :: "'ov Carnot \<Rightarrow> bool" where
  "block_tree c \<longleftrightarrow>
     distinct (map fst (safe_blocks c)) \<and> (\<forall>(i, b) \<in> set (safe_blocks c). bid b = i) \<and>
     distinct (map (\<lambda>x. bview (snd x)) (safe_blocks c)) \<and> 0 \<le> current_view c \<and>
     (\<exists>g \<in> snd ` set (safe_blocks c). bview g = 0) \<and>
     (\<forall>b \<in> snd ` set (safe_blocks c). 0 \<le> bview b \<and> (\<exists>i. block_parent b = Ok i) \<and>
       (0 < bview b \<longrightarrow> (\<exists>p. parent_of c b p \<and> bview p < bview b \<and> (is_standard (bqc b) \<longrightarrow> bview p + 1 = bview b))))"

definition grows :: "'ov Carnot \<Rightarrow> 'ov Carnot \<Rightarrow> bool" where
  "grows c c' \<longleftrightarrow> current_view c \<le> current_view c' \<and> map_of (safe_blocks c) \<subseteq>\<^sub>m map_of (safe_blocks c')"

lemma update_new_block: "map_of d k = None \<Longrightarrow> AList.update k v d = d @ [(k, v)]"
  by (induction d) (auto split: if_splits)

lemma blocks_in_view_empty: "blocks_in_view c v = [] \<longleftrightarrow> (\<forall>b \<in> snd ` set (safe_blocks c). bview b \<noteq> v)"
  by (auto simp: blocks_in_view_def filter_empty_conv)

lemma grows_refl: "grows c c"
  by (simp add: grows_def)

lemma grows_trans: "grows a b \<Longrightarrow> grows b c \<Longrightarrow> grows a c"
  unfolding grows_def by (blast intro: order_trans map_le_trans)

lemma parent_of_grows: "grows c c' \<Longrightarrow> parent_of c b p \<Longrightarrow> parent_of c' b p"
  unfolding grows_def parent_of_def map_le_def by (metis domI)

lemma same_blocks:
  assumes "safe_blocks c' = safe_blocks c" and "current_view c \<le> current_view c'"
  shows "grows c c'" and "block_tree c \<Longrightarrow> block_tree c'"
proof -
  show "grows c c'" using assms by (simp add: grows_def)
  have "parent_of c' = parent_of c" using assms(1) by (simp add: fun_eq_iff parent_of_def)
  then show "block_tree c \<Longrightarrow> block_tree c'" using assms unfolding block_tree_def by simp
qed

lemma tree_parent:
  assumes "block_tree c" and "b \<in> snd ` set (safe_blocks c)" and "0 < bview b"
  obtains p where "parent_of c b p" and "bview p < bview b" and "is_standard (bqc b) \<Longrightarrow> bview p + 1 = bview b"
proof -
  from assms(1) have all: "\<forall>b \<in> snd ` set (safe_blocks c). 0 < bview b \<longrightarrow>
      (\<exists>p. parent_of c b p \<and> bview p < bview b \<and> (is_standard (bqc b) \<longrightarrow> bview p + 1 = bview b))"
    unfolding block_tree_def by blast
  from bspec [OF all assms(2)] assms(3) that show ?thesis by blast
qed

lemma tree_block:
  assumes "block_tree c" and "b \<in> snd ` set (safe_blocks c)"
  shows "0 \<le> bview b" and "\<exists>i. block_parent b = Ok i"
  using assms unfolding block_tree_def by blast+

lemma parent_stored: "parent_of c b p \<Longrightarrow> p \<in> snd ` set (safe_blocks c)"
  unfolding parent_of_def by (metis map_of_SomeD image_eqI snd_conv)

lemma tree_insert:
  assumes inv: "block_tree c" and just: "justified c b" and par: "block_parent b = Ok i" "has_block c i"
    and new: "\<not> has_block c (bid b)" "blocks_in_view c (bview b) = []" and safe: "block_is_safe c b"
  shows "block_tree (c\<lparr>safe_blocks := AList.update (bid b) b (safe_blocks c)\<rparr>)"
    and "grows c (c\<lparr>safe_blocks := AList.update (bid b) b (safe_blocks c)\<rparr>)"
proof -
  let ?sb = "safe_blocks c @ [(bid b, b)]"
  let ?c = "c\<lparr>safe_blocks := AList.update (bid b) b (safe_blocks c)\<rparr>"
  have none: "map_of (safe_blocks c) (bid b) = None" using new(1) by (simp add: has_block_def)
  then have sb: "safe_blocks ?c = ?sb" by (simp add: update_new_block)
  show g: "grows c ?c"
    using none by (simp add: grows_def sb map_le_def map_of_append map_add_def dom_def split: option.splits)
  obtain p where p: "map_of (safe_blocks c) i = Some p" using par(2) by (auto simp: has_block_def)
  then have pof: "parent_of c b p" using par(1) by (simp add: parent_of_def)
  have v: "bview b = qc_view (bqc b) + 1" "bview b \<ge> current_view c" using safe by (simp_all add: block_is_safe_def)
  have pv: "bview p < bview b" "is_standard (bqc b) \<longrightarrow> bview p + 1 = bview b"
    using just p par(1) v(1) unfolding justified_def by (force split: if_splits)+
  have views: "\<forall>x \<in> snd ` set (safe_blocks c). bview x \<noteq> bview b" using new(2) blocks_in_view_empty by blast
  have keys: "bid b \<notin> fst ` set (safe_blocks c)" using none by (simp add: map_of_eq_None_iff)
  have parts: "distinct (map fst (safe_blocks c))" "\<forall>(i, b) \<in> set (safe_blocks c). bid b = i"
      "distinct (map (\<lambda>x. bview (snd x)) (safe_blocks c))" "0 \<le> current_view c" "\<exists>g \<in> snd ` set (safe_blocks c). bview g = 0"
    using inv unfolding block_tree_def by blast+
  have "0 \<le> bview x \<and> (\<exists>i. block_parent x = Ok i) \<and>
      (0 < bview x \<longrightarrow> (\<exists>p. parent_of ?c x p \<and> bview p < bview x \<and> (is_standard (bqc x) \<longrightarrow> bview p + 1 = bview x)))"
    if x: "x \<in> snd ` set ?sb" for x
  proof (cases "x = b")
    case True
    then show ?thesis using par(1) parent_of_grows [OF g pof] pv v(2) parts(4) by auto
  next
    case False
    then have "x \<in> snd ` set (safe_blocks c)" using x by auto
    then show ?thesis using tree_block [OF inv] tree_parent [OF inv] parent_of_grows [OF g] by metis
  qed
  then show "block_tree ?c"
    using parts views keys unfolding block_tree_def sb by (auto simp del: AList.update.simps)
qed

section \<open>Handlers grow the tree\<close>

fun valid_input :: "'ov Carnot \<Rightarrow> Input \<Rightarrow> bool" where
  "valid_input c (InBlock b) = justified c b"
| "valid_input c _ = True"

definition tree_from :: "'ov Carnot \<Rightarrow> 'ov Carnot \<Rightarrow> bool" where
  "tree_from c c' \<longleftrightarrow> block_tree c' \<and> grows c c'"

definition same_tree :: "'ov Carnot \<Rightarrow> 'ov Carnot \<Rightarrow> bool" where
  "same_tree c c' \<longleftrightarrow> safe_blocks c' = safe_blocks c \<and> current_view c \<le> current_view c'"

lemma same_tree_from: "tree_from a c \<Longrightarrow> same_tree c c' \<Longrightarrow> tree_from a c'"
  unfolding tree_from_def same_tree_def by (blast intro: same_blocks grows_trans)

lemma same_update_high_qc: "same_tree a c \<Longrightarrow> T () \<Longrightarrow> outcome (same_tree a) T (update_high_qc qc c)"
  by (rule update_high_qc_outcome) (auto simp: same_tree_def)

lemma tree_update_high_qc: "tree_from a c \<Longrightarrow> T () \<Longrightarrow> outcome (tree_from a) T (update_high_qc qc c)"
  by (rule update_high_qc_outcome) (auto elim!: same_tree_from simp: same_tree_def)

lemma tree_receive_block:
  assumes "block_tree c" and "justified c b"
  shows "outcome (tree_from c) (\<lambda>_. True) (receive_block b c)"
proof -
  have here: "tree_from c c" using assms(1) by (simp add: tree_from_def grows_refl)
  show ?thesis
    unfolding receive_block_def
  proof (intro outcome_intros here)
    fix skip
    assume "bind_res (block_parent b) (\<lambda>p. Ok (has_block c p)) = Ok True" and "\<not> has_block c (bid b)"
      and "or_res (Ok (blocks_in_view c (bview b) \<noteq> [])) (bind_res (latest_committed_view c) (\<lambda>v. Ok (bview b \<le> v))) = Ok skip"
      and "\<not> skip" and "block_is_safe c b"
    then have "tree_from c (c\<lparr>safe_blocks := AList.update (bid b) b (safe_blocks c)\<rparr>)"
      using tree_insert [OF assms] by (auto simp: tree_from_def bind_res_Ok_iff or_res_def split: if_splits)
    then show "outcome (tree_from c) (\<lambda>_. True) (update_high_qc (bqc b) (c\<lparr>safe_blocks := AList.update (bid b) b (safe_blocks c)\<rparr>))"
      by (rule tree_update_high_qc) simp
  qed simp_all
qed

lemma same_receive_timeout_qc: "outcome (same_tree c) (\<lambda>_. True) (receive_timeout_qc t c)"
proof -
  have here: "same_tree c c" by (simp add: same_tree_def)
  show ?thesis
    unfolding receive_timeout_qc_def
  proof (intro outcome_if outcome_ret here)
    assume t: "\<not> tqc_view t < current_view c"
    show "outcome (same_tree c) (\<lambda>_. True) (bind_act (update_high_qc (tqc_high_qc t)) (\<lambda>_.
        bind_act (modify (update_timeout_qc t)) (\<lambda>_. modify (\<lambda>c. c\<lparr>current_view := tqc_view t + 1\<rparr>))) c)"
    proof (rule outcome_bind)
      show "outcome (same_tree c) (\<lambda>_. True) (update_high_qc (tqc_high_qc t) c)" by (rule same_update_high_qc [OF here]) simp
    qed (use t in \<open>intro outcome_intros, auto simp: same_tree_def update_timeout_qc_def split: option.splits\<close>)
  qed simp
qed

lemma same_approve_block: "outcome (same_tree c) (\<lambda>_. True) (approve_block ops b votes c)"
  unfolding approve_block_def Let_def by (intro outcome_intros) (simp_all add: same_tree_def)

lemma same_approve_new_view: "outcome (same_tree c) (\<lambda>_. True) (approve_new_view ops t nvs c)"
proof -
  have here: "same_tree c c" by (simp add: same_tree_def)
  show ?thesis
    unfolding approve_new_view_def
  proof (intro outcome_bind_assert outcome_bind_call here)
    fix q
    show "outcome (same_tree c) (\<lambda>_. True) (bind_act (update_high_qc q) (\<lambda>_ c.
       let msg = \<lparr>nv_view = tqc_view t + 1, nv_high_qc = local_high_qc c, nv_sender = cid c, nv_timeout_qc = t\<rparr>
       in bind_act (modify (\<lambda>c. c\<lparr>highest_voted_view := max (highest_voted_view c) (tqc_view t + 1)\<rparr>)) (\<lambda>_ c.
          if ov_is_root ops (overlay c) (cid c)
          then bind_act (call (\<lambda>c. ov_next_leader ops (overlay c))) (\<lambda>l. ret (Send (ToIds [l]) (PNewView msg))) c
          else bind_act (call (\<lambda>c. ov_parent_committee ops (overlay c) (cid c))) (\<lambda>p. ret (Send (ToCommittee p) (PNewView msg))) c) c) c)"
    proof (rule outcome_bind)
      show "outcome (same_tree c) (\<lambda>_. True) (update_high_qc q c)" by (rule same_update_high_qc [OF here]) simp
    qed (unfold Let_def, intro outcome_intros, simp_all add: same_tree_def)
  qed
qed

lemma same_others:
  "outcome (same_tree c) (\<lambda>_. True) (local_timeout ops c)"
  "outcome (same_tree c) (\<lambda>_. True) (forward_vote ops v c)"
  "outcome (same_tree c) (\<lambda>_. True) (forward_new_view ops m c)"
  "outcome (same_tree c) (\<lambda>_. True) (propose_block ops h w q c)"
  "outcome (same_tree c) (\<lambda>_. True) (timeout_detected ops ms c)"
  unfolding local_timeout_def forward_vote_def forward_new_view_def propose_block_def timeout_detected_def
  by (intro outcome_intros; simp add: same_tree_def)+

lemma outcome_mono: "outcome I T rt \<Longrightarrow> (\<And>s. I s \<Longrightarrow> J s) \<Longrightarrow> outcome J T rt"
  by (simp add: outcome_def)

lemma tree_handle:
  assumes "block_tree c" and "valid_input c i"
  shows "outcome (tree_from c) (\<lambda>_. True) (handle ops h i c)"
proof -
  have here: "tree_from c c" using assms(1) by (simp add: tree_from_def grows_refl)
  have same: "outcome (same_tree c) T rt \<Longrightarrow> outcome (tree_from c) T rt" for T :: "'b \<Rightarrow> bool" and rt :: "('c, 'b) res \<times> 'a Carnot"
    by (erule outcome_mono) (rule same_tree_from [OF here])
  show ?thesis
  proof (cases i)
    case (InBlock b)
    then show ?thesis using assms by (auto intro!: outcome_no_event tree_receive_block)
  qed (auto intro!: outcome_no_event outcome_an_event same_receive_timeout_qc same_approve_block same_approve_new_view same_others
      intro: same_tree_from [OF here] outcome_mono)
qed

section \<open>Commits\<close>

definition committable :: "'ov Carnot \<Rightarrow> Block \<Rightarrow> bool" where
  "committable c b \<longleftrightarrow> (\<exists>p g. parent_of c b p \<and> parent_of c p g \<and> bview p = bview g + 1 \<and>
     is_standard (bqc b) \<and> is_standard (bqc p))"

lemma parent_of_fun: "parent_of c b p \<Longrightarrow> parent_of c b q \<Longrightarrow> p = q"
  by (auto simp: parent_of_def)

lemma can_commit_eq:
  assumes "block_tree c" and "b \<in> snd ` set (safe_blocks c)" and "0 < bview b"
  shows "can_commit_grandparent c b = Ok (committable c b)"
    and "committable c b \<Longrightarrow> \<exists>g. grandparent c b = Ok (Some g) \<and> bview g + 2 = bview b \<and> g \<in> snd ` set (safe_blocks c)"
proof -
  obtain p where p: "parent_of c b p" and std: "is_standard (bqc b) \<Longrightarrow> bview p + 1 = bview b"
    using tree_parent [OF assms] by metis
  then obtain i where i: "block_parent b = Ok i" "map_of (safe_blocks c) i = Some p" by (auto simp: parent_of_def)
  obtain j where j: "block_parent p = Ok j" using tree_block(2) [OF assms(1) parent_stored [OF p]] by blast
  have com: "committable c b \<longleftrightarrow> (\<exists>g. map_of (safe_blocks c) j = Some g \<and> bview p = bview g + 1 \<and>
      is_standard (bqc b) \<and> is_standard (bqc p))"
    using i j by (auto simp: committable_def parent_of_def)
  show "can_commit_grandparent c b = Ok (committable c b)"
    using i j by (cases "map_of (safe_blocks c) j") (auto simp: can_commit_grandparent_def attr_def com)
  assume "committable c b"
  then obtain g where g: "map_of (safe_blocks c) j = Some g" "bview p = bview g + 1" "is_standard (bqc b)" using com by blast
  then have "grandparent c b = Ok (Some g)" using i j by (simp add: grandparent_def attr_def)
  moreover have "bview g + 2 = bview b" using g(2) std [OF g(3)] by simp
  moreover have "g \<in> snd ` set (safe_blocks c)" using g(1) by (metis image_eqI map_of_SomeD snd_conv)
  ultimately show "\<exists>g. grandparent c b = Ok (Some g) \<and> bview g + 2 = bview b \<and> g \<in> snd ` set (safe_blocks c)" by blast
qed

lemma commit_in_eq:
  assumes "block_tree c" and "\<forall>b \<in> set bs. b \<in> snd ` set (safe_blocks c) \<and> bview b = v" and "0 < v"
  shows "if \<exists>b \<in> set bs. committable c b
    then \<exists>g. commit_in c bs = Ok (Some g) \<and> bview g + 2 = v \<and> g \<in> snd ` set (safe_blocks c)
    else commit_in c bs = Ok None"
  using assms(2)
proof (induction bs)
  case (Cons b bs)
  have b: "b \<in> snd ` set (safe_blocks c)" "0 < bview b" "bview b = v" using Cons.prems assms(3) by auto
  show ?case
  proof (cases "committable c b")
    case True
    then show ?thesis using can_commit_eq [OF assms(1) b(1,2)] b(3) by auto
  next
    case False
    then show ?thesis using can_commit_eq(1) [OF assms(1) b(1,2)] Cons by auto
  qed
qed simp

lemma commit_scan_eq:
  assumes "block_tree c"
  shows "\<exists>g. commit_scan c (rev [1..int n]) = Ok g \<and> g \<in> snd ` set (safe_blocks c) \<and>
    ((\<exists>b \<in> snd ` set (safe_blocks c). committable c b \<and> 0 < bview b \<and> bview b \<le> int n \<and> bview g + 2 = bview b \<and>
        (\<forall>b' \<in> snd ` set (safe_blocks c). committable c b' \<longrightarrow> bview b' \<le> int n \<longrightarrow> bview b' \<le> bview b))
     \<or> bview g = 0 \<and> (\<forall>b \<in> snd ` set (safe_blocks c). 0 < bview b \<longrightarrow> bview b \<le> int n \<longrightarrow> \<not> committable c b))"
proof (induction n)
  case 0
  obtain g where "g \<in> snd ` set (safe_blocks c)" "bview g = 0" using assms unfolding block_tree_def by blast
  then have "blocks_in_view c 0 \<noteq> []" using blocks_in_view_empty by metis
  then obtain x xs where x: "blocks_in_view c 0 = x # xs" by (cases "blocks_in_view c 0") auto
  then have "x \<in> set (blocks_in_view c 0)" by simp
  then have "x \<in> snd ` set (safe_blocks c)" "bview x = 0" by (auto simp: blocks_in_view_def)
  then show ?case using x by (auto simp: genesis_block_def py_index_def)
next
  case (Suc n)
  let ?v = "int (Suc n)"
  have up: "rev [1..?v] = ?v # rev [1..int n]" by (simp add: upto_rec2)
  let ?bs = "blocks_in_view c ?v"
  have bs: "\<forall>b \<in> set ?bs. b \<in> snd ` set (safe_blocks c) \<and> bview b = ?v" by (auto simp: blocks_in_view_def)
  note com = commit_in_eq [OF assms bs]
  show ?case
  proof (cases "\<exists>b \<in> set ?bs. committable c b")
    case True
    then obtain b where b: "b \<in> snd ` set (safe_blocks c)" "committable c b" "bview b = ?v" using bs by blast
    obtain g where g: "commit_in c ?bs = Ok (Some g)" "bview g + 2 = ?v" "g \<in> snd ` set (safe_blocks c)"
      using com True by auto
    have "commit_scan c (rev [1..?v]) = Ok g" unfolding up by (simp add: g(1) del: of_nat_Suc)
    then show ?thesis using b g by (intro exI [of _ g] conjI disjI1 bexI [of _ b]) auto
  next
    case False
    then have "commit_in c ?bs = Ok None" using com by auto
    then have same: "commit_scan c (rev [1..?v]) = commit_scan c (rev [1..int n])" unfolding up by (simp del: of_nat_Suc)
    have "b \<in> snd ` set (safe_blocks c) \<Longrightarrow> committable c b \<Longrightarrow> bview b \<noteq> ?v" for b
      using False by (auto simp: blocks_in_view_def)
    then have "b \<in> snd ` set (safe_blocks c) \<Longrightarrow> committable c b \<Longrightarrow> (bview b \<le> ?v \<longleftrightarrow> bview b \<le> int n)" for b by fastforce
    with Suc.IH show ?thesis unfolding same by (smt (verit, best))
  qed
qed

definition commits :: "'ov Carnot \<Rightarrow> Block \<Rightarrow> bool" where
  "commits c g \<longleftrightarrow> g \<in> snd ` set (safe_blocks c) \<and>
    ((\<exists>b \<in> snd ` set (safe_blocks c). committable c b \<and> 0 < bview b \<and> bview b \<le> current_view c \<and> bview g + 2 = bview b \<and>
        (\<forall>b' \<in> snd ` set (safe_blocks c). committable c b' \<longrightarrow> bview b' \<le> current_view c \<longrightarrow> bview b' \<le> bview b))
     \<or> bview g = 0 \<and> (\<forall>b \<in> snd ` set (safe_blocks c). 0 < bview b \<longrightarrow> bview b \<le> current_view c \<longrightarrow> \<not> committable c b))"

lemma latest_commits:
  assumes "block_tree c"
  shows "\<exists>g. latest_committed_block c = Ok g \<and> latest_committed_view c = Ok (bview g) \<and> commits c g"
proof -
  have "0 \<le> current_view c" using assms by (simp add: block_tree_def)
  then have "int (nat (current_view c)) = current_view c" by simp
  then show ?thesis using commit_scan_eq [OF assms, of "nat (current_view c)"]
    by (auto simp: latest_committed_block_def latest_committed_view_def commits_def)
qed

lemma stored_grows:
  assumes "block_tree c" and "grows c c'" and "b \<in> snd ` set (safe_blocks c)"
  shows "b \<in> snd ` set (safe_blocks c')"
proof -
  from assms(3) obtain i where "(i, b) \<in> set (safe_blocks c)" by auto
  moreover have "distinct (map fst (safe_blocks c))" using assms(1) by (simp add: block_tree_def)
  ultimately have "map_of (safe_blocks c) i = Some b" by simp
  then have "map_of (safe_blocks c') i = Some b" using assms(2) unfolding grows_def map_le_def by (metis domI)
  then show ?thesis by (metis image_eqI map_of_SomeD snd_conv)
qed

lemma committable_grows: "grows c c' \<Longrightarrow> committable c b \<Longrightarrow> committable c' b"
  unfolding committable_def using parent_of_grows by blast

lemma commits_mono:
  assumes "block_tree c" and "tree_from c c'" and "commits c g" and "commits c' g'"
  shows "bview g \<le> bview g'"
proof -
  have c': "block_tree c'" "grows c c'" using assms(2) by (simp_all add: tree_from_def)
  have "g' \<in> snd ` set (safe_blocks c')" using assms(4) by (simp add: commits_def)
  then have pos: "0 \<le> bview g'" by (rule tree_block(1) [OF c'(1)])
  show ?thesis
  proof (cases "bview g = 0")
    case False
    then obtain b where b: "b \<in> snd ` set (safe_blocks c)" "committable c b" "0 < bview b" "bview b \<le> current_view c"
        "bview g + 2 = bview b" using assms(3) unfolding commits_def by blast
    have b': "b \<in> snd ` set (safe_blocks c')" "committable c' b" "bview b \<le> current_view c'"
      using stored_grows [OF assms(1) c'(2) b(1)] committable_grows [OF c'(2) b(2)] b(4) c'(2) by (auto simp: grows_def)
    have "\<not> (bview g' = 0 \<and> (\<forall>b \<in> snd ` set (safe_blocks c'). 0 < bview b \<longrightarrow> bview b \<le> current_view c' \<longrightarrow> \<not> committable c' b))"
      using b' b(3) by metis
    then obtain b2 :: Block where b2: "bview g' + 2 = bview b2"
        "\<forall>b' \<in> snd ` set (safe_blocks c'). committable c' b' \<longrightarrow> bview b' \<le> current_view c' \<longrightarrow> bview b' \<le> bview b2"
      using assms(4) unfolding commits_def by metis
    from bspec [OF b2(2) b'(1)] b'(2,3) have "bview b \<le> bview b2" by simp
    then show ?thesis using b(5) b2(1) by simp
  qed (use pos in simp)
qed

section \<open>Runs\<close>

definition carnot_step :: "'ov OverlayOps \<Rightarrow> (bytes \<Rightarrow> bytes \<Rightarrow> int) \<Rightarrow> 'ov Carnot \<Rightarrow> 'ov Carnot \<Rightarrow> bool" where
  "carnot_step ops h c c' \<longleftrightarrow> (\<exists>i r. valid_input c i \<and> handle ops h i c = (r, c'))"

lemma carnot_step_tree: "block_tree c \<Longrightarrow> carnot_step ops h c c' \<Longrightarrow> tree_from c c'"
  unfolding carnot_step_def using tree_handle outcomeD by metis

interpretation carnot: monotone_system "carnot_step ops h" block_tree grows
proof
  fix c c' :: "'a Carnot"
  assume "block_tree c" and "carnot_step ops h c c'"
  then have "tree_from c c'" by (rule carnot_step_tree)
  then show "block_tree c'" and "grows c c'" by (simp_all add: tree_from_def)
qed (auto intro: grows_refl grows_trans)

lemma run_tree_from: "(carnot_step ops h)\<^sup>*\<^sup>* c c' \<Longrightarrow> block_tree c \<Longrightarrow> tree_from c c'"
  unfolding tree_from_def using carnot.run_inv carnot.run_rel by blast

text \<open>A node that holds the genesis block only.\<close>

definition at_genesis :: "'ov Carnot \<Rightarrow> Block \<Rightarrow> bool" where
  "at_genesis c g \<longleftrightarrow> safe_blocks c = [(bid g, g)] \<and> bview g = 0 \<and> is_standard (bqc g) \<and> 0 \<le> current_view c"

lemma genesis_tree: "at_genesis c g \<Longrightarrow> block_tree c"
  by (cases "bqc g") (auto simp: at_genesis_def block_tree_def block_parent_def)

end
