(* ===== verification/Carnot_Votes.thy ===== *)
theory Carnot_Votes
  imports Carnot_Commit
begin

text \<open>
  What a Carnot node votes for: the votes of a run of handlers, that they never name two blocks of one
  view, and when their views only grow.
\<close>

section \<open>One vote\<close>

lemma bind_assert_eq: "bind_act (assert_act P) f s = (case P s of
    Ok b \<Rightarrow> if b then f () s else (Err AssertionError, s) | Err e \<Rightarrow> (Err e, s) | Diverge \<Rightarrow> (Diverge, s))"
  by (simp add: bind_act_def assert_act_def split: res.splits)

lemma approve_block_Ok:
  assumes "approve_block ops b votes c = (Ok e, c')"
  shows "has_block c (bid b)" and "ov_threshold ops (overlay c) (cid c) = Ok (int (length votes))" and
    "all_res (\<lambda>vote. ov_is_child_member ops (overlay c) (cid c) (voter vote)) votes = Ok True" and
    "list_all (\<lambda>vote. vblock vote = bid b) votes" and
    "highest_voted_view c < bview b" and "c' = c\<lparr>highest_voted_view := bview b\<rparr>" and
    "\<exists>to. e = Send to (PVote \<lparr>vblock = bid b, vview = bview b, voter = cid c,
       vqc = if ov_is_root ops (overlay c) (cid c) then Some (StandardQc (bid b) (bview b)) else None\<rparr>)"
  using assms
  by (auto simp: approve_block_def bind_assert_eq bind_act_call bind_act_modify bind_res_Ok_iff build_qc_def attr_def Let_def max_def
      split: res.splits if_splits)

section \<open>The votes of a run\<close>

fun own_vote :: "Input \<Rightarrow> (exn, Event option) res \<Rightarrow> Vote list" where
  "own_vote (InApprove b votes) (Ok (Some (Send to (PVote v)))) = [v]"
| "own_vote _ _ = []"

fun run_inputs :: "'ov OverlayOps \<Rightarrow> (bytes \<Rightarrow> bytes \<Rightarrow> int) \<Rightarrow> Input list \<Rightarrow> 'ov Carnot \<Rightarrow> Vote list \<times> 'ov Carnot" where
  "run_inputs ops h [] c = ([], c)"
| "run_inputs ops h (i # inputs) c =
     (let (r, c1) = handle ops h i c;
          (vs, c2) = run_inputs ops h inputs c1
      in (own_vote i r @ vs, c2))"

text \<open>A block is told by its identifier: the block to approve is the stored one.\<close>

fun as_stored :: "'ov Carnot \<Rightarrow> Input \<Rightarrow> bool" where
  "as_stored c (InApprove b votes) = (has_block c (bid b) \<longrightarrow> map_of (safe_blocks c) (bid b) = Some b)"
| "as_stored c _ = True"

fun inputs_ok :: "'ov OverlayOps \<Rightarrow> (bytes \<Rightarrow> bytes \<Rightarrow> int) \<Rightarrow> Input list \<Rightarrow> 'ov Carnot \<Rightarrow> bool" where
  "inputs_ok ops h [] c = True"
| "inputs_ok ops h (i # inputs) c =
     (valid_input c i \<and> as_stored c i \<and> inputs_ok ops h inputs (snd (handle ops h i c)))"

fun timeouts_late :: "'ov OverlayOps \<Rightarrow> (bytes \<Rightarrow> bytes \<Rightarrow> int) \<Rightarrow> Input list \<Rightarrow> 'ov Carnot \<Rightarrow> bool" where
  "timeouts_late ops h [] c = True"
| "timeouts_late ops h (i # inputs) c =
     ((i = InLocalTimeout \<longrightarrow> highest_voted_view c \<le> current_view c) \<and>
      timeouts_late ops h inputs (snd (handle ops h i c)))"

lemma handle_outcome: "outcome I T (handle ops h i c) \<Longrightarrow> handle ops h i c = (r, c') \<Longrightarrow> I c'"
  by (simp add: outcome_def)

lemma own_voteD:
  assumes run: "handle ops h i c = (r, c')" and v: "v \<in> set (own_vote i r)"
  obtains b votes where "i = InApprove b votes" and "has_block c (bid b)" and "vblock v = bid b" and "vview v = bview b"
    and "highest_voted_view c < bview b" and "c' = c\<lparr>highest_voted_view := bview b\<rparr>"
proof -
  obtain b votes where i: "i = InApprove b votes" using v by (cases "(i, r)" rule: own_vote.cases) auto
  obtain e where approve: "approve_block ops b votes c = (Ok e, c')" and r: "r = Ok (Some e)"
    using run v unfolding i by (cases "approve_block ops b votes c") (auto simp: an_event_def bind_act_def split: res.splits)
  note ok = approve_block_Ok [OF approve]
  from ok(7) obtain to where "e = Send to (PVote \<lparr>vblock = bid b, vview = bview b, voter = cid c,
       vqc = if ov_is_root ops (overlay c) (cid c) then Some (StandardQc (bid b) (bview b)) else None\<rparr>)" by blast
  with v have "vblock v = bid b" "vview v = bview b" by (simp_all add: i r)
  then show ?thesis using that [OF i] ok by simp
qed

text \<open>Every vote is for a block the node holds.\<close>

lemma run_inputs_tree:
  assumes "block_tree c" and "inputs_ok ops h inputs c" and "run_inputs ops h inputs c = (vs, c')"
  shows "tree_from c c' \<and> (\<forall>v \<in> set vs. \<exists>b. map_of (safe_blocks c') (vblock v) = Some b \<and> bview b = vview v)"
  using assms
proof (induction inputs arbitrary: c vs)
  case Nil
  then show ?case by (simp add: tree_from_def grows_refl)
next
  case (Cons i inputs)
  obtain r c1 where r: "handle ops h i c = (r, c1)" by (cases "handle ops h i c")
  obtain ws where ws: "run_inputs ops h inputs c1 = (ws, c')" and vs: "vs = own_vote i r @ ws"
    using Cons.prems(3) by (auto simp: r split: prod.splits)
  have "tree_from c c1" using handle_outcome [OF tree_handle r] Cons.prems(1,2) by simp
  moreover from this have rest: "tree_from c1 c' \<and> (\<forall>v \<in> set ws. \<exists>b. map_of (safe_blocks c') (vblock v) = Some b \<and> bview b = vview v)"
    using Cons.IH [OF _ _ ws] Cons.prems(2) by (simp add: r tree_from_def)
  ultimately have t: "tree_from c c'" unfolding tree_from_def using grows_trans by blast
  have "\<exists>b. map_of (safe_blocks c') (vblock v) = Some b \<and> bview b = vview v" if v: "v \<in> set (own_vote i r)" for v
  proof -
    obtain b votes where b: "i = InApprove b votes" "has_block c (bid b)" "vblock v = bid b" "vview v = bview b"
      by (rule own_voteD [OF r v])
    then have "map_of (safe_blocks c) (bid b) = Some b" using Cons.prems(2) by simp
    then have "map_of (safe_blocks c') (bid b) = Some b" using t unfolding tree_from_def grows_def map_le_def by (metis domI)
    then show ?thesis using b by auto
  qed
  with rest t show ?case unfolding vs by auto
qed

lemma same_view_same_block:
  assumes "block_tree c" and "map_of (safe_blocks c) i = Some a" and "map_of (safe_blocks c) j = Some b" and "bview a = bview b"
  shows "i = j"
proof -
  have "(i, a) \<in> set (safe_blocks c)" "(j, b) \<in> set (safe_blocks c)" using assms(2,3) by (auto dest: map_of_SomeD)
  moreover have "distinct (map (\<lambda>x. bview (snd x)) (safe_blocks c))" using assms(1) by (simp add: block_tree_def)
  ultimately have "(i, a) = (j, b)" using assms(4) inj_on_eq_iff [of "\<lambda>x. bview (snd x)" "set (safe_blocks c)"]
    unfolding distinct_map by force
  then show ?thesis by simp
qed

section \<open>Views of votes\<close>

lemma keeps_voted_update: "highest_voted_view a \<le> highest_voted_view c \<Longrightarrow> T () \<Longrightarrow>
    outcome (\<lambda>s. highest_voted_view a \<le> highest_voted_view s) T (update_high_qc qc c)"
  by (rule update_high_qc_outcome) auto

lemma keeps_voted:
  assumes "i = InLocalTimeout \<longrightarrow> highest_voted_view c \<le> current_view c"
  shows "outcome (\<lambda>s. highest_voted_view c \<le> highest_voted_view s) (\<lambda>_. True) (handle ops h i c)"
proof (cases i)
  case (InBlock b)
  show ?thesis unfolding InBlock handle.simps receive_block_def
    by (intro outcome_no_event outcome_intros keeps_voted_update) auto
next
  case (InTimeoutQc t)
  show ?thesis unfolding InTimeoutQc handle.simps receive_timeout_qc_def
    by (intro outcome_no_event outcome_if outcome_ret outcome_bind [OF keeps_voted_update [where T = "\<lambda>_. True"]] outcome_intros)
      (auto simp: update_timeout_qc_def split: option.splits)
next
  case (InNewView t nvs)
  show ?thesis unfolding InNewView handle.simps approve_new_view_def Let_def
    by (intro outcome_an_event outcome_bind_assert outcome_bind_call outcome_bind [OF keeps_voted_update [where T = "\<lambda>_. True"]]
        outcome_intros) auto
next
  case (InApprove b votes)
  show ?thesis unfolding InApprove handle.simps approve_block_def Let_def
    by (intro outcome_an_event outcome_intros) auto
qed (use assms in \<open>auto simp: local_timeout_def forward_vote_def forward_new_view_def propose_block_def timeout_detected_def
       intro!: outcome_an_event outcome_intros\<close>)

lemma votes_ascending:
  assumes "timeouts_late ops h inputs c" and "run_inputs ops h inputs c = (vs, c')"
  shows "sorted_wrt (<) (map vview vs) \<and> (\<forall>v \<in> set vs. highest_voted_view c < vview v)"
  using assms
proof (induction inputs arbitrary: c vs)
  case (Cons i inputs)
  obtain r c1 where r: "handle ops h i c = (r, c1)" by (cases "handle ops h i c")
  obtain ws where ws: "run_inputs ops h inputs c1 = (ws, c')" and vs: "vs = own_vote i r @ ws"
    using Cons.prems(2) by (auto simp: r split: prod.splits)
  have up: "highest_voted_view c \<le> highest_voted_view c1"
    using handle_outcome [OF keeps_voted r] Cons.prems(1) by simp
  have rest: "sorted_wrt (<) (map vview ws)" "\<forall>v \<in> set ws. highest_voted_view c1 < vview v"
    using Cons.IH [OF _ ws] Cons.prems(1) by (simp_all add: r)
  have own: "highest_voted_view c < vview v \<and> highest_voted_view c1 = vview v" if v: "v \<in> set (own_vote i r)" for v
    by (rule own_voteD [OF r v]) simp
  have "length (own_vote i r) \<le> 1" by (cases "(i, r)" rule: own_vote.cases) auto
  then consider "own_vote i r = []" | v where "own_vote i r = [v]" by (cases "own_vote i r") auto
  then show ?case
  proof cases
    case 1
    then show ?thesis using rest up unfolding vs by auto
  next
    case (2 v)
    then show ?thesis using rest up own [of v] unfolding vs by auto
  qed
qed simp

end
