(* ===== verification/Overlays.thy ===== *)
theory Overlays
  imports Carnot
begin

text \<open>
  deprecated/carnot/overlay.py and tree_overlay.py: the two overlays of the repository, as instances
  of the interface of Carnot nodes.

  Both seed the module \<open>random\<close> with their entropy before they use it, so what it returns is a
  function of the entropy and of the length of the sequence: \<open>seeded_choice\<close> is the position chosen,
  \<open>seeded_shuffle\<close> the old positions in their new order. \<open>blake2b\<close> is the hash function of hashlib.
\<close>

section \<open>The flat overlay\<close>

record SeededRandom =
  seeded_choice :: "bytes \<Rightarrow> nat \<Rightarrow> nat"
  seeded_shuffle :: "bytes \<Rightarrow> nat \<Rightarrow> nat list"

definition seeded_pick :: "SeededRandom \<Rightarrow> bytes \<Rightarrow> 'a list \<Rightarrow> (exn, 'a) res" where
  "seeded_pick R e xs = (if xs = [] then Err IndexError else Ok (xs ! seeded_choice R e (length xs)))"

record FlatOverlay =
  flat_leader :: Id
  flat_nodes :: "Id list"
  flat_entropy :: bytes

definition flat_next_leader :: "SeededRandom \<Rightarrow> FlatOverlay \<Rightarrow> (exn, Id) res" where
  "flat_next_leader R ov = seeded_pick R (flat_entropy ov) (flat_nodes ov)"

definition flat_advance :: "SeededRandom \<Rightarrow> FlatOverlay \<Rightarrow> bytes \<Rightarrow> (exn, FlatOverlay) res" where
  "flat_advance R ov e =
     bind_res (flat_next_leader R ov) (\<lambda>l. Ok \<lparr>flat_leader = l, flat_nodes = flat_nodes ov, flat_entropy = e\<rparr>)"

definition flat_leaf_committees :: "FlatOverlay \<Rightarrow> Id set set" where
  "flat_leaf_committees ov = {set (flat_nodes ov)}"

definition flat_ops :: "SeededRandom \<Rightarrow> FlatOverlay OverlayOps" where
  "flat_ops R = \<lparr>
     ov_is_leader = (\<lambda>ov i. i = flat_leader ov),
     ov_leader = flat_leader,
     ov_leader_at = (\<lambda>ov v. Err TypeError),
     ov_next_leader = flat_next_leader R,
     ov_is_root = (\<lambda>ov i. True),
     ov_is_child_member = (\<lambda>ov p c. Ok False),
     ov_parent_committee = (\<lambda>ov i. Ok None),
     ov_root_committee = (\<lambda>ov. set (flat_nodes ov)),
     ov_is_child_of_root = (\<lambda>ov i. Ok True),
     ov_leader_threshold = (\<lambda>ov i. Ok ((int (length (flat_nodes ov)) * 2) div 3 + 1)),
     ov_threshold = (\<lambda>ov i. Ok 0)\<rparr>"

section \<open>The committee tree\<close>

record CarnotTree =
  inner_committees :: "Id list"
  membership_committees :: "(int \<times> Id set) list"
  committee_id_to_index :: "Id \<rightharpoonup> int"
  committees_by_member :: "Id \<rightharpoonup> int"

definition blake2b_hash :: "(bytes \<Rightarrow> bytes) \<Rightarrow> Id set \<Rightarrow> bytes" where
  "blake2b_hash blake2b committee = blake2b (concat (sorted_list_of_set committee))"

text \<open>\<open>itertools.cycle\<close>: the extra nodes go to the committees in turn.\<close>

fun cycle_add :: "Id set list \<Rightarrow> nat \<Rightarrow> Id list \<Rightarrow> Id set list" where
  "cycle_add committees i [] = committees"
| "cycle_add committees i (x # xs) =
     cycle_add (committees[i mod length committees := insert x (committees ! (i mod length committees))]) (Suc i) xs"

definition split_committees :: "Id list \<Rightarrow> int \<Rightarrow> Id set list" where
  "split_committees nodes k =
     (let committee_size = int (length nodes) div k;
          remainder = int (length nodes) mod k;
          committees = map (\<lambda>n. set (py_slice (n * committee_size) ((n + 1) * committee_size) nodes)) [0..k - 1]
      in if remainder \<noteq> 0
         then cycle_add committees 0 (py_slice (- remainder) (int (length nodes)) nodes)
         else committees)"

definition py_enumerate :: "'a list \<Rightarrow> (int \<times> 'a) list" where
  "py_enumerate xs = zip (map int [0..<length xs]) xs"

definition CarnotTree_init :: "(bytes \<Rightarrow> bytes) \<Rightarrow> Id list \<Rightarrow> int \<Rightarrow> (exn, CarnotTree) res" where
  "CarnotTree_init blake2b nodes k =
     (if k > 0
      then
        let committees = split_committees nodes k;
            hashes = map (blake2b_hash blake2b) committees
        in Ok \<lparr>inner_committees = hashes,
               membership_committees = py_enumerate committees,
               committee_id_to_index = foldl (\<lambda>m (i, c). m(c \<mapsto> i)) Map.empty (py_enumerate hashes),
               committees_by_member = foldl (\<lambda>m (i, c). \<lambda>d. if d \<in> c then Some i else m d) Map.empty (py_enumerate committees)\<rparr>
      else Err AssertionError)"

definition tree_index :: "CarnotTree \<Rightarrow> Id \<Rightarrow> (exn, int) res" where
  "tree_index t c = (case committee_id_to_index t c of None \<Rightarrow> Err KeyError | Some i \<Rightarrow> Ok i)"

definition tree_parent_committee :: "CarnotTree \<Rightarrow> Id \<Rightarrow> (exn, Id option) res" where
  "tree_parent_committee t c =
     bind_res (py_index (inner_committees t) 0) (\<lambda>root.
       if c = root then Ok None
       else bind_res (tree_index t c) (\<lambda>i.
            bind_res (py_index (inner_committees t) (max (i div 2 - 1) 0)) (\<lambda>p. Ok (Some p))))"

definition child_committees :: "CarnotTree \<Rightarrow> Id \<Rightarrow> (exn, Id option \<times> Id option) res" where
  "child_committees t c =
     bind_res (tree_index t c) (\<lambda>i.
       let n = int (length (inner_committees t));
           first_child = i * 2 + 1; second_child = i * 2 + 2
       in Ok (if first_child < n then Some (inner_committees t ! nat first_child) else None,
              if second_child < n then Some (inner_committees t ! nat second_child) else None))"

definition committee_by_committee_idx :: "CarnotTree \<Rightarrow> int \<Rightarrow> Id set option" where
  "committee_by_committee_idx t i = map_of (membership_committees t) i"

definition tree_leaf_committees :: "CarnotTree \<Rightarrow> (exn, (Id \<times> Id set) list) res" where
  "tree_leaf_committees t =
     (let n = int (length (inner_committees t));
          total_leafs = (n + 1) div 2
      in foldl (\<lambda>acc i. bind_res acc (\<lambda>d.
           bind_res (py_index (inner_committees t) i) (\<lambda>k.
           bind_res (get_item (membership_committees t) i) (\<lambda>v. Ok (AList.update k v d)))))
         (Ok []) [n - total_leafs..n - 1])"

definition tree_root_committee :: "CarnotTree \<Rightarrow> (exn, Id set) res" where
  "tree_root_committee t = get_item (membership_committees t) 0"

definition committee_id_by_member_id :: "CarnotTree \<Rightarrow> Id \<Rightarrow> (exn, Id) res" where
  "committee_id_by_member_id t m = (case committees_by_member t m of
     None \<Rightarrow> Err TypeError | Some i \<Rightarrow> py_index (inner_committees t) i)"

definition committee_by_member_id :: "CarnotTree \<Rightarrow> Id \<Rightarrow> Id set option" where
  "committee_by_member_id t m = (case committees_by_member t m of
     None \<Rightarrow> None | Some i \<Rightarrow> committee_by_committee_idx t i)"

definition committee_by_committee_id :: "CarnotTree \<Rightarrow> Id \<Rightarrow> Id set option" where
  "committee_by_committee_id t c = (case committee_id_to_index t c of
     None \<Rightarrow> None | Some i \<Rightarrow> committee_by_committee_idx t i)"

definition parent_committee_from_member_id :: "CarnotTree \<Rightarrow> Id \<Rightarrow> (exn, Id set option) res" where
  "parent_committee_from_member_id t m =
     bind_res (committee_id_by_member_id t m) (\<lambda>c.
     bind_res (tree_parent_committee t c) (\<lambda>parent.
       case parent of
         None \<Rightarrow> Ok None
       | Some p \<Rightarrow> bind_res (tree_index t p) (\<lambda>i. Ok (committee_by_committee_idx t i))))"

section \<open>The tree overlay\<close>

record CarnotOverlay =
  tov_entropy :: bytes
  number_of_committees :: int
  tov_nodes :: "Id list"
  tov_leader :: Id
  carnot_tree :: CarnotTree

definition fisher_yates_shuffle :: "SeededRandom \<Rightarrow> Id list \<Rightarrow> bytes \<Rightarrow> Id list" where
  "fisher_yates_shuffle R nodes e = map (\<lambda>i. nodes ! i) (seeded_shuffle R e (length nodes))"

definition CarnotOverlay_init ::
    "SeededRandom \<Rightarrow> (bytes \<Rightarrow> bytes) \<Rightarrow> Id list \<Rightarrow> Id \<Rightarrow> bytes \<Rightarrow> int \<Rightarrow> (exn, CarnotOverlay) res" where
  "CarnotOverlay_init R blake2b nodes leader e k =
     bind_res (CarnotTree_init blake2b nodes k) (\<lambda>t.
       Ok \<lparr>tov_entropy = e, number_of_committees = k,
           tov_nodes = fisher_yates_shuffle R nodes e,
           tov_leader = leader, carnot_tree = t\<rparr>)"

definition tov_next_leader :: "SeededRandom \<Rightarrow> CarnotOverlay \<Rightarrow> (exn, Id) res" where
  "tov_next_leader R ov = seeded_pick R (tov_entropy ov) (tov_nodes ov)"

definition tov_advance ::
    "SeededRandom \<Rightarrow> (bytes \<Rightarrow> bytes) \<Rightarrow> CarnotOverlay \<Rightarrow> bytes \<Rightarrow> (exn, CarnotOverlay) res" where
  "tov_advance R blake2b ov e =
     bind_res (tov_next_leader R ov) (\<lambda>l. CarnotOverlay_init R blake2b (tov_nodes ov) l e (number_of_committees ov))"

definition tov_is_leaf_member :: "CarnotOverlay \<Rightarrow> Id \<Rightarrow> (exn, bool) res" where
  "tov_is_leaf_member ov i =
     bind_res (tree_leaf_committees (carnot_tree ov)) (\<lambda>d. Ok (list_ex (\<lambda>(k, c). i \<in> c) d))"

definition tov_leaf_committees :: "CarnotOverlay \<Rightarrow> (exn, Id set set) res" where
  "tov_leaf_committees ov = bind_res (tree_leaf_committees (carnot_tree ov)) (\<lambda>d. Ok (snd ` set d))"

definition tov_root_committee :: "CarnotOverlay \<Rightarrow> Id set" where
  "tov_root_committee ov = (case map_of (membership_committees (carnot_tree ov)) 0 of None \<Rightarrow> {} | Some c \<Rightarrow> c)"

text \<open>\<open>CarnotOverlay.parent_committee\<close> has no \<open>return\<close>: it raises what the tree raises, and else gives \<open>None\<close>.\<close>

definition tov_parent_committee :: "CarnotOverlay \<Rightarrow> Id \<Rightarrow> (exn, Id set option) res" where
  "tov_parent_committee ov i = bind_res (parent_committee_from_member_id (carnot_tree ov) i) (\<lambda>_. Ok None)"

definition tov_is_child_member :: "CarnotOverlay \<Rightarrow> Id \<Rightarrow> Id \<Rightarrow> (exn, bool) res" where
  "tov_is_child_member ov parent child =
     bind_res (tov_parent_committee ov child) (\<lambda>child_parent.
       Ok (child_parent = committee_by_member_id (carnot_tree ov) parent))"

definition tov_is_child_of_root :: "CarnotOverlay \<Rightarrow> Id \<Rightarrow> (exn, bool) res" where
  "tov_is_child_of_root ov i =
     bind_res (tov_parent_committee ov i) (\<lambda>p. Ok (p = Some (tov_root_committee ov)))"

definition committee_size_of :: "CarnotTree \<Rightarrow> Id option \<Rightarrow> int" where
  "committee_size_of t c = (case c of None \<Rightarrow> 0 | Some i \<Rightarrow>
     (case committee_by_committee_id t i of None \<Rightarrow> 0 | Some s \<Rightarrow> int (card s)))"

definition tov_leader_threshold :: "CarnotOverlay \<Rightarrow> Id \<Rightarrow> (exn, int) res" where
  "tov_leader_threshold ov i =
     bind_res (py_index (inner_committees (carnot_tree ov)) 0) (\<lambda>root.
     bind_res (child_committees (carnot_tree ov) root) (\<lambda>(a, b).
       let childs_size = committee_size_of (carnot_tree ov) a + committee_size_of (carnot_tree ov) b;
           committee_size = int (card (tov_root_committee ov)) + childs_size
       in Ok (committee_size * 2 div 3 + 1)))"

definition tov_threshold :: "CarnotOverlay \<Rightarrow> Id \<Rightarrow> (exn, int) res" where
  "tov_threshold ov i =
     bind_res (tov_is_leaf_member ov i) (\<lambda>leaf.
       if leaf then Ok 0
       else case committee_by_member_id (carnot_tree ov) i of
         None \<Rightarrow> Err TypeError
       | Some c \<Rightarrow> Ok (int (card c) * 2 div 3 + 1))"

definition tree_ops :: "SeededRandom \<Rightarrow> CarnotOverlay OverlayOps" where
  "tree_ops R = \<lparr>
     ov_is_leader = (\<lambda>ov i. i = tov_leader ov),
     ov_leader = tov_leader,
     ov_leader_at = (\<lambda>ov v. Err TypeError),
     ov_next_leader = tov_next_leader R,
     ov_is_root = (\<lambda>ov i. i \<in> tov_root_committee ov),
     ov_is_child_member = tov_is_child_member,
     ov_parent_committee = tov_parent_committee,
     ov_root_committee = tov_root_committee,
     ov_is_child_of_root = tov_is_child_of_root,
     ov_leader_threshold = tov_leader_threshold,
     ov_threshold = tov_threshold\<rparr>"

section \<open>Committees partition the nodes\<close>

lemma length_cycle_add [simp]: "length (cycle_add cs i xs) = length cs"
  by (induction cs i xs rule: cycle_add.induct) auto

lemma cycle_add_nth:
  "i + length xs \<le> length cs \<Longrightarrow> j < length cs \<Longrightarrow>
   cycle_add cs i xs ! j = (if i \<le> j \<and> j < i + length xs then insert (xs ! (j - i)) (cs ! j) else cs ! j)"
proof (induction cs i xs rule: cycle_add.induct)
  case (2 cs i x xs)
  then have i: "i mod length cs = i" "i < length cs" by simp_all
  from 2 have "cycle_add cs i (x # xs) ! j =
      (if Suc i \<le> j \<and> j < Suc i + length xs then insert (xs ! (j - Suc i)) (cs[i := insert x (cs ! i)] ! j) else cs[i := insert x (cs ! i)] ! j)"
    by (simp add: i)
  then show ?case using i(2) 2(3) by (cases "j = i") (auto simp: nth_Cons')
qed auto

lemma py_slice_to_end: "0 < r \<Longrightarrow> r \<le> length xs \<Longrightarrow> py_slice (- int r) (int (length xs)) xs = drop (length xs - r) xs"
  by (simp add: py_slice_def clip_index_def nat_diff_distrib)

text \<open>The slice of committee \<open>j\<close>, and the extra node it gets, if any.\<close>

lemma split_committees_nth:
  assumes k: "0 < k" and j: "j < k" and s: "s = length nodes div k" and r: "r = length nodes mod k"
  shows "length (split_committees nodes (int k)) = k" and
    "split_committees nodes (int k) ! j =
       set (take s (drop (j * s) nodes)) \<union> (if j < r then {nodes ! (k * s + j)} else {})"
proof -
  let ?cs = "map (\<lambda>n. set (take s (drop (n * s) nodes))) [0..<k]"
  have div: "int (length nodes) div int k = int s" "int (length nodes) mod int k = int r"
    using s r by (simp_all add: zdiv_int zmod_int)
  have upto: "[0..int k - 1] = map int [0..<k]" by (rule upto_int)
  have slice: "py_slice (int n * int s) ((int n + 1) * int s) nodes = take s (drop (n * s) nodes)" for n
  proof -
    have "nat (int n * int s) = n * s" by (simp flip: of_nat_mult)
    moreover have "nat ((int n + 1) * int s) = (n + 1) * s" by (metis nat_int of_nat_1 of_nat_add of_nat_mult)
    ultimately show ?thesis by (simp add: py_slice_nonneg)
  qed
  have cs: "map (\<lambda>n. set (py_slice (n * int s) ((n + 1) * int s) nodes)) [0..int k - 1] = ?cs"
    unfolding upto map_map o_def slice ..
  have len: "length nodes = k * s + r" using s r by simp
  have split: "split_committees nodes (int k) = (if r \<noteq> 0 then cycle_add ?cs 0 (drop (k * s) nodes) else ?cs)"
  proof (cases "r = 0")
    case False
    then have "py_slice (- int r) (int (length nodes)) nodes = drop (k * s) nodes"
      using py_slice_to_end [of r nodes] len by simp
    then show ?thesis using False unfolding split_committees_def Let_def div cs by simp
  qed (simp add: split_committees_def Let_def div cs)
  show "length (split_committees nodes (int k)) = k" unfolding split by simp
  have "r < k" using k r by simp
  then show "split_committees nodes (int k) ! j =
       set (take s (drop (j * s) nodes)) \<union> (if j < r then {nodes ! (k * s + j)} else {})"
    unfolding split using j len cycle_add_nth [of 0 "drop (k * s) nodes" ?cs j] by auto
qed

definition committee_indices :: "nat \<Rightarrow> nat \<Rightarrow> nat \<Rightarrow> nat \<Rightarrow> nat set" where
  "committee_indices k s r j = {j * s..<j * s + s} \<union> (if j < r then {k * s + j} else {})"

lemma set_slice: "m + s \<le> length xs \<Longrightarrow> set (take s (drop m xs)) = (\<lambda>i. xs ! i) ` {m..<m + s}"
proof -
  assume m: "m + s \<le> length xs"
  then have "set (take s (drop m xs)) = (\<lambda>i. drop m xs ! i) ` {0..<s}"
    using nth_image [of s "drop m xs"] by simp
  also have "\<dots> = (\<lambda>i. xs ! (m + i)) ` {0..<s}" using m by (intro image_cong) auto
  also have "\<dots> = (\<lambda>i. xs ! i) ` (+) m ` {0..<s}" unfolding image_image ..
  also have "(+) m ` {0..<s} = {m..<m + s}" by (simp add: add.commute)
  finally show ?thesis .
qed

lemma mult_step_le: "j < k \<Longrightarrow> j * s + s \<le> k * (s :: nat)"
proof -
  assume "j < k"
  then have "Suc j * s \<le> k * s" by (intro mult_le_mono1) simp
  then show ?thesis by simp
qed

lemma committee_indices_eq:
  assumes "0 < k" and "j < k" and "s = length nodes div k" and "r = length nodes mod k"
  shows "split_committees nodes (int k) ! j = (\<lambda>i. nodes ! i) ` committee_indices k s r j"
proof -
  have len: "length nodes = k * s + r" using assms(3,4) by simp
  have "j * s + s \<le> length nodes" using mult_step_le [OF assms(2), of s] len by simp
  then show ?thesis
    unfolding split_committees_nth(2) [OF assms] committee_indices_def by (simp add: set_slice image_Un)
qed

lemma committee_indices_card:
  assumes "j < k"
  shows "card (committee_indices k s r j) = s + (if j < r then 1 else 0)" and "committee_indices k s r j \<subseteq> {..<k * s + r}"
  using mult_step_le [OF assms, of s] by (auto simp: committee_indices_def)

lemma committee_indices_disjoint:
  assumes "i < j" and "j < k"
  shows "committee_indices k s r i \<inter> committee_indices k s r j = {}"
  using assms(1) mult_step_le [OF assms(1), of s] mult_step_le [OF assms(2), of s]
  by (auto simp: committee_indices_def)

lemma committee_indices_cover:
  assumes "x < k * s + r" and "r < k"
  shows "\<exists>j<k. x \<in> committee_indices k s r j"
proof (cases "x < k * s")
  case True
  then have s: "0 < s" by (cases s) auto
  then have "x div s < k" using True by (simp add: div_less_iff_less_mult)
  moreover have "x div s * s \<le> x" "x < x div s * s + s"
    using s dividend_less_div_times [of s x] by (simp_all add: algebra_simps)
  ultimately show ?thesis by (intro exI [of _ "x div s"]) (simp add: committee_indices_def)
next
  case False
  with assms show ?thesis by (intro exI [of _ "x - k * s"]) (auto simp: committee_indices_def)
qed

lemma committees_partition:
  assumes "distinct nodes" and "0 < k"
  shows "length (split_committees nodes (int k)) = k" and
    "\<Union> (set (split_committees nodes (int k))) = set nodes" and
    "\<And>i j. i < j \<Longrightarrow> j < k \<Longrightarrow> split_committees nodes (int k) ! i \<inter> split_committees nodes (int k) ! j = {}" and
    "\<And>j. j < k \<Longrightarrow> card (split_committees nodes (int k) ! j) =
       length nodes div k + (if j < length nodes mod k then 1 else 0)"
proof -
  let ?cs = "split_committees nodes (int k)" and ?s = "length nodes div k" and ?r = "length nodes mod k"
  have r: "?r < k" using assms(2) by simp
  have n: "length nodes = k * ?s + ?r" by simp
  have inj: "inj_on (\<lambda>i. nodes ! i) {..<length nodes}" using assms(1) by (auto simp: inj_on_def nth_eq_iff_index_eq)
  have eq: "j < k \<Longrightarrow> ?cs ! j = (\<lambda>i. nodes ! i) ` committee_indices k ?s ?r j" for j
    by (rule committee_indices_eq [OF assms(2)]) simp_all
  show len: "length ?cs = k" using split_committees_nth(1) [OF assms(2,2) refl refl] .
  have sub: "j < k \<Longrightarrow> committee_indices k ?s ?r j \<subseteq> {..<length nodes}" for j
    using committee_indices_card(2) [of j k ?s ?r] n by simp
  show "\<Union> (set ?cs) = set nodes"
  proof -
    have "\<Union> (set ?cs) = (\<Union>j<k. ?cs ! j)" unfolding set_conv_nth len by auto
    also have "\<dots> = (\<Union>j<k. (\<lambda>i. nodes ! i) ` committee_indices k ?s ?r j)" using eq by simp
    also have "\<dots> = (\<lambda>i. nodes ! i) ` (\<Union>j<k. committee_indices k ?s ?r j)" by auto
    also have "(\<Union>j<k. committee_indices k ?s ?r j) = {..<length nodes}"
    proof
      show "(\<Union>j<k. committee_indices k ?s ?r j) \<subseteq> {..<length nodes}" using sub by blast
      show "{..<length nodes} \<subseteq> (\<Union>j<k. committee_indices k ?s ?r j)"
      proof
        fix x
        assume "x \<in> {..<length nodes}"
        then have "x < k * ?s + ?r" using n by (simp only: lessThan_iff)
        from committee_indices_cover [OF this r] show "x \<in> (\<Union>j<k. committee_indices k ?s ?r j)" by blast
      qed
    qed
    also have "(\<lambda>i. nodes ! i) ` {..<length nodes} = set nodes" by (auto simp: set_conv_nth)
    finally show ?thesis .
  qed
  show "?cs ! i \<inter> ?cs ! j = {}" if "i < j" "j < k" for i j
  proof -
    have "i < k" using that by simp
    have "?cs ! i \<inter> ?cs ! j = (\<lambda>i. nodes ! i) ` (committee_indices k ?s ?r i \<inter> committee_indices k ?s ?r j)"
      unfolding eq [OF \<open>i < k\<close>] eq [OF that(2)] by (rule inj_on_image_Int [OF inj sub [OF \<open>i < k\<close>] sub [OF that(2)], symmetric])
    then show ?thesis using committee_indices_disjoint [OF that] by simp
  qed
  show "card (?cs ! j) = ?s + (if j < ?r then 1 else 0)" if "j < k" for j
    unfolding eq [OF that] card_image [OF inj_on_subset [OF inj sub [OF that]]] by (rule committee_indices_card(1) [OF that])
qed

section \<open>Thresholds\<close>

text \<open>Two sets of votes that reach a threshold of two thirds share more than a third of the voters.\<close>

lemma quorum_intersection:
  fixes n :: int
  assumes "finite N" and "int (card N) = n" and "A \<subseteq> N" and "B \<subseteq> N"
    and "n * 2 div 3 + 1 \<le> int (card A)" and "n * 2 div 3 + 1 \<le> int (card B)"
  shows "n < 3 * int (card (A \<inter> B))"
proof -
  have fin: "finite A" "finite B" using assms(1,3,4) finite_subset by blast+
  have "card A + card B = card (A \<union> B) + card (A \<inter> B)" using card_Un_Int [OF fin] .
  moreover have "card (A \<union> B) \<le> card N" using assms(1,3,4) by (intro card_mono) auto
  ultimately have "int (card A) + int (card B) \<le> n + int (card (A \<inter> B))" using assms(2) by linarith
  then show ?thesis using assms(5,6) by linarith
qed

section \<open>The tree\<close>

lemma enumerate_snoc: "py_enumerate (xs @ [x]) = py_enumerate xs @ [(int (length xs), x)]"
  by (simp add: py_enumerate_def)

text \<open>The index of the committee whose hash is given, when no two committees have the same hash.\<close>

lemma hash_index:
  "distinct hs \<Longrightarrow> foldl (\<lambda>m (i, c). m(c \<mapsto> i)) Map.empty (py_enumerate hs) c =
     (if c \<in> set hs then Some (int (LEAST i. i < length hs \<and> hs ! i = c)) else None)"
proof (induction hs rule: rev_induct)
  case (snoc x xs)
  show ?case
  proof (cases "c = x")
    case True
    then have "(LEAST i. i < length (xs @ [x]) \<and> (xs @ [x]) ! i = c) = length xs"
      using snoc.prems by (intro Least_equality) (auto simp: nth_append in_set_conv_nth split: if_splits)
    then show ?thesis using True by (simp add: enumerate_snoc)
  next
    case False
    have "(LEAST i. i < length (xs @ [x]) \<and> (xs @ [x]) ! i = c) = (LEAST i. i < length xs \<and> xs ! i = c)"
      using False by (intro arg_cong [of _ _ Least]) (auto simp: fun_eq_iff nth_append less_Suc_eq split: if_splits)
    then show ?thesis using False snoc by (simp add: enumerate_snoc)
  qed
qed (simp add: py_enumerate_def)

lemma hash_index_nth:
  assumes "distinct hs" and "i < length hs"
  shows "foldl (\<lambda>m (i, c). m(c \<mapsto> i)) Map.empty (py_enumerate hs) (hs ! i) = Some (int i)"
proof -
  have "(LEAST k. k < length hs \<and> hs ! k = hs ! i) = i"
    using assms by (intro Least_equality) (auto simp: nth_eq_iff_index_eq)
  then show ?thesis using assms by (simp add: hash_index)
qed

lemma member_index:
  assumes "m \<in> \<Union> (set cs)"
  shows "\<exists>i. foldl (\<lambda>d (i, c). \<lambda>x. if x \<in> c then Some i else d x) Map.empty (py_enumerate cs) m = Some (int i) \<and>
    i < length cs \<and> m \<in> cs ! i"
  using assms
proof (induction cs rule: rev_induct)
  case (snoc c cs)
  show ?case
  proof (cases "m \<in> c")
    case True
    then show ?thesis by (intro exI [of _ "length cs"]) (simp add: enumerate_snoc)
  next
    case False
    then obtain i where "foldl (\<lambda>d (i, c). \<lambda>x. if x \<in> c then Some i else d x) Map.empty (py_enumerate cs) m = Some (int i)"
        "i < length cs" "m \<in> cs ! i" using snoc by auto
    with False show ?thesis by (intro exI [of _ i]) (simp add: enumerate_snoc nth_append)
  qed
qed simp

lemma member_index_none:
  "m \<notin> \<Union> (set cs) \<Longrightarrow> foldl (\<lambda>d (i, c). \<lambda>x. if x \<in> c then Some i else d x) Map.empty (py_enumerate cs) m = None"
  by (induction cs rule: rev_induct) (auto simp: enumerate_snoc py_enumerate_def)

lemma map_of_enumerate: "map_of (py_enumerate cs) (int i) = (if i < length cs then Some (cs ! i) else None)"
proof (induction cs rule: rev_induct)
  case (snoc c cs)
  then show ?case by (auto simp: enumerate_snoc map_of_append map_add_def nth_append split: option.splits)
qed (simp add: py_enumerate_def)

text \<open>The tree that the constructor builds, read by index.\<close>

definition tree_of :: "(bytes \<Rightarrow> bytes) \<Rightarrow> Id list \<Rightarrow> nat \<Rightarrow> CarnotTree \<Rightarrow> bool" where
  "tree_of blake2b nodes k t \<longleftrightarrow> CarnotTree_init blake2b nodes (int k) = Ok t \<and> distinct (inner_committees t)"

lemma tree_fields:
  assumes "tree_of blake2b nodes k t"
  shows "0 < k" and "length (inner_committees t) = k" and
    "inner_committees t = map (blake2b_hash blake2b) (split_committees nodes (int k))" and
    "membership_committees t = py_enumerate (split_committees nodes (int k))" and
    "committees_by_member t = foldl (\<lambda>m (i, c). \<lambda>d. if d \<in> c then Some i else m d) Map.empty
       (py_enumerate (split_committees nodes (int k)))" and
    "\<And>i. i < k \<Longrightarrow> committee_id_to_index t (inner_committees t ! i) = Some (int i)"
proof -
  note t = assms [unfolded tree_of_def CarnotTree_init_def Let_def]
  show k: "0 < k" using t by (auto split: if_splits)
  then have eq: "t = \<lparr>inner_committees = map (blake2b_hash blake2b) (split_committees nodes (int k)),
      membership_committees = py_enumerate (split_committees nodes (int k)),
      committee_id_to_index = foldl (\<lambda>m (i, c). m(c \<mapsto> i)) Map.empty
         (py_enumerate (map (blake2b_hash blake2b) (split_committees nodes (int k)))),
      committees_by_member = foldl (\<lambda>m (i, c). \<lambda>d. if d \<in> c then Some i else m d) Map.empty
         (py_enumerate (split_committees nodes (int k)))\<rparr>" using t by simp
  show "inner_committees t = map (blake2b_hash blake2b) (split_committees nodes (int k))"
    and "membership_committees t = py_enumerate (split_committees nodes (int k))"
    and "committees_by_member t = foldl (\<lambda>m (i, c). \<lambda>d. if d \<in> c then Some i else m d) Map.empty
       (py_enumerate (split_committees nodes (int k)))" unfolding eq by simp_all
  show len: "length (inner_committees t) = k" unfolding eq using split_committees_nth(1) [OF k k refl refl] by simp
  have "committee_id_to_index t = foldl (\<lambda>m (i, c). m(c \<mapsto> i)) Map.empty (py_enumerate (inner_committees t))"
    unfolding eq by simp
  then show "committee_id_to_index t (inner_committees t ! i) = Some (int i)" if "i < k" for i
    using hash_index_nth [of "inner_committees t" i] t that len by simp
qed

text \<open>Who the children and the parent of committee \<open>i\<close> are.\<close>

lemma children_of:
  assumes "tree_of blake2b nodes k t" and "i < k"
  shows "child_committees t (inner_committees t ! i) =
    Ok (if 2 * i + 1 < k then Some (inner_committees t ! (2 * i + 1)) else None,
        if 2 * i + 2 < k then Some (inner_committees t ! (2 * i + 2)) else None)"
proof -
  note t = tree_fields [OF assms(1)]
  have "nat (int i * 2 + 1) = 2 * i + 1" "nat (int i * 2 + 2) = 2 * i + 2" by linarith+
  moreover have "int i * 2 + 1 < int k \<longleftrightarrow> 2 * i + 1 < k" "int i * 2 + 2 < int k \<longleftrightarrow> 2 * i + 2 < k" by linarith+
  ultimately show ?thesis unfolding child_committees_def tree_index_def t(6) [OF assms(2)] t(2) by (simp only: Let_def bind_res.simps option.case)
qed

lemma root_parent:
  assumes "tree_of blake2b nodes k t"
  shows "tree_parent_committee t (inner_committees t ! 0) = Ok None"
  using tree_fields(1,2) [OF assms] by (simp add: tree_parent_committee_def py_index_def)

lemma parent_index_of:
  assumes "tree_of blake2b nodes k t" and "0 < i" and "i < k"
  shows "tree_parent_committee t (inner_committees t ! i) = Ok (Some (inner_committees t ! (i div 2 - 1)))"
proof -
  note t = tree_fields [OF assms(1)]
  have root: "py_index (inner_committees t) 0 = Ok (inner_committees t ! 0)" using t(1,2) by (simp add: py_index_def)
  have "inner_committees t ! i \<noteq> inner_committees t ! 0"
    using assms t(2) by (simp add: tree_of_def nth_eq_iff_index_eq)
  moreover have p: "i div 2 - 1 < k" using assms(3) by linarith
  moreover have "max (int i div 2 - 1) 0 = int (i div 2 - 1)" by (simp add: max_def) linarith
  then have "py_index (inner_committees t) (max (int i div 2 - 1) 0) = Ok (inner_committees t ! (i div 2 - 1))"
    using p t(2) by (simp add: py_index_def)
  ultimately show "tree_parent_committee t (inner_committees t ! i) = Ok (Some (inner_committees t ! (i div 2 - 1)))"
    unfolding tree_parent_committee_def root tree_index_def t(6) [OF assms(3)] by simp
qed

text \<open>Every node is in the committee its index names.\<close>

lemma committee_of_member:
  assumes "tree_of blake2b nodes k t"
  shows "m \<in> \<Union> (set (split_committees nodes (int k))) \<Longrightarrow>
      \<exists>i<k. committees_by_member t m = Some (int i) \<and> m \<in> split_committees nodes (int k) ! i \<and>
        committee_by_member_id t m = Some (split_committees nodes (int k) ! i)"
    and "m \<notin> \<Union> (set (split_committees nodes (int k))) \<Longrightarrow>
      committees_by_member t m = None \<and> committee_by_member_id t m = None"
proof -
  note t = tree_fields [OF assms]
  have len: "length (split_committees nodes (int k)) = k" by (rule split_committees_nth(1) [OF t(1) t(1) refl refl])
  {
    assume "m \<in> \<Union> (set (split_committees nodes (int k)))"
    then obtain i where i: "committees_by_member t m = Some (int i)" "i < k" "m \<in> split_committees nodes (int k) ! i"
      using member_index [of m "split_committees nodes (int k)"] unfolding t(5) len by blast
    moreover have "committee_by_member_id t m = Some (split_committees nodes (int k) ! i)"
      using i(1,2) by (simp add: committee_by_member_id_def committee_by_committee_idx_def t(4) map_of_enumerate len)
    ultimately show "\<exists>i<k. committees_by_member t m = Some (int i) \<and> m \<in> split_committees nodes (int k) ! i \<and>
        committee_by_member_id t m = Some (split_committees nodes (int k) ! i)" by blast
  }
  assume "m \<notin> \<Union> (set (split_committees nodes (int k)))"
  then have "committees_by_member t m = None" unfolding t(5) by (rule member_index_none)
  then show "committees_by_member t m = None \<and> committee_by_member_id t m = None" by (simp add: committee_by_member_id_def)
qed

text \<open>
  \<open>CarnotOverlay.parent_committee\<close> gives nothing, so no node the overlay knows is the child of another,
  and a member whose threshold is positive can never collect the votes it asserts.
\<close>

lemma parent_total:
  assumes "tree_of blake2b nodes k t" and "m \<in> \<Union> (set (split_committees nodes (int k)))"
  shows "\<exists>p. parent_committee_from_member_id t m = Ok p"
proof -
  note t = tree_fields [OF assms(1)]
  obtain i where i: "i < k" "committees_by_member t m = Some (int i)" using committee_of_member(1) [OF assms] by blast
  have c: "committee_id_by_member_id t m = Ok (inner_committees t ! i)"
    using i t(2) by (simp add: committee_id_by_member_id_def py_index_def)
  show ?thesis
  proof (cases "i = 0")
    case True
    then show ?thesis unfolding parent_committee_from_member_id_def c by (simp add: root_parent [OF assms(1)])
  next
    case False
    then have p: "tree_parent_committee t (inner_committees t ! i) = Ok (Some (inner_committees t ! (i div 2 - 1)))"
      using parent_index_of(1) [OF assms(1) _ i(1)] by simp
    have "i div 2 - 1 < k" using i(1) by linarith
    then have "tree_index t (inner_committees t ! (i div 2 - 1)) = Ok (int (i div 2 - 1))"
      unfolding tree_index_def by (simp add: t(6))
    then show ?thesis unfolding parent_committee_from_member_id_def c by (simp add: p)
  qed
qed

lemma no_children:
  assumes "tree_of blake2b nodes k (carnot_tree ov)" and "child \<in> \<Union> (set (split_committees nodes (int k)))"
    and "parent \<in> \<Union> (set (split_committees nodes (int k)))"
  shows "tov_parent_committee ov child = Ok None" and "tov_is_child_member ov parent child = Ok False"
proof -
  obtain p where p: "parent_committee_from_member_id (carnot_tree ov) child = Ok p"
    using parent_total [OF assms(1,2)] by blast
  then show c: "tov_parent_committee ov child = Ok None" by (simp add: tov_parent_committee_def)
  obtain i where "committee_by_member_id (carnot_tree ov) parent = Some (split_committees nodes (int k) ! i)"
    using committee_of_member(1) [OF assms(1,3)] by blast
  then show "tov_is_child_member ov parent child = Ok False" by (simp add: tov_is_child_member_def c)
qed

end
