(* ===== verification/Carnot_Demo.thy ===== *)
theory Carnot_Demo
  imports Carnot_Votes Overlays
begin

text \<open>
  A network of three Carnot nodes, one per committee of a tree, on which the properties are
  instantiated: the second node, a leaf, receives a chain of three blocks and votes for two of them.
\<close>

section \<open>A small network\<close>

definition demo_names :: "Id list" where
  "demo_names = [[1], [2], [3]]"

definition demo_random :: SeededRandom where
  "demo_random = \<lparr>seeded_choice = (\<lambda>e n. 0), seeded_shuffle = (\<lambda>e n. rev [0..<n])\<rparr>"

definition demo_tree :: CarnotTree where
  "demo_tree = \<lparr>inner_committees = demo_names,
     membership_committees = [(0, {[1]}), (1, {[2]}), (2, {[3]})],
     committee_id_to_index = [[1] \<mapsto> 0, [2] \<mapsto> 1, [3] \<mapsto> 2],
     committees_by_member = (\<lambda>d. if d = [3] then Some 2 else if d = [2] then Some 1
        else if d = [1] then Some 0 else None)\<rparr>"

definition demo_overlay :: CarnotOverlay where
  "demo_overlay = \<lparr>tov_entropy = [], number_of_committees = 3, tov_nodes = rev demo_names,
     tov_leader = [1], carnot_tree = demo_tree\<rparr>"

definition demo_genesis :: Block where
  "demo_genesis = \<lparr>bview = 0, bqc = StandardQc [0] 0, bid = [0]\<rparr>"

definition demo_block :: "nat \<Rightarrow> Block" where
  "demo_block n = \<lparr>bview = int n + 1, bqc = StandardQc [of_nat n] (int n), bid = [of_nat n + 1]\<rparr>"

definition demo_node :: "Id \<Rightarrow> CarnotOverlay Carnot" where
  "demo_node i = (Carnot_init i demo_overlay)\<lparr>safe_blocks := [([0], demo_genesis)]\<rparr>"

definition demo_hash :: "bytes \<Rightarrow> bytes \<Rightarrow> int" where
  "demo_hash v w = int (length v + length w)"

definition demo_inputs :: "Input list" where
  "demo_inputs = [InBlock (demo_block 0), InApprove (demo_block 0) [], InBlock (demo_block 1),
     InApprove (demo_block 1) [], InBlock (demo_block 2), InLocalTimeout, InApprove (demo_block 2) []]"

lemma demo_tree_init: "CarnotTree_init (\<lambda>x. x) demo_names (int 3) = Ok demo_tree"
proof -
  have "split_committees demo_names 3 = [{[1]}, {[2]}, {[3]}]" by code_simp
  then show ?thesis
    by (simp add: CarnotTree_init_def blake2b_hash_def py_enumerate_def demo_tree_def demo_names_def Let_def upt_rec)
qed

lemma demo_at_genesis: "at_genesis (demo_node i) demo_genesis"
  by (simp add: at_genesis_def demo_node_def demo_genesis_def Carnot_init_def)


lemmas demo_defs = demo_node_def demo_genesis_def demo_block_def Carnot_init_def

lemma demo_leaf: "tov_threshold demo_overlay [2] = Ok 0" "tov_parent_committee demo_overlay [2] = Ok None"
    "tov_root_committee demo_overlay = {[1]}"
  by code_simp+

section \<open>A run of the leaf\<close>

text \<open>The leaf once it holds blocks \<open>0\<close> to \<open>n - 1\<close> above genesis and has voted for view \<open>v\<close>.\<close>

definition demo_at :: "nat \<Rightarrow> int \<Rightarrow> CarnotOverlay Carnot" where
  "demo_at n v = \<lparr>cid = [2], current_view = int n, highest_voted_view = v,
     local_high_qc = (if n = 0 then None else Some (StandardQc [of_nat (n - 1)] (int n - 1))),
     safe_blocks = ([0], demo_genesis) # map (\<lambda>k. (bid (demo_block k), demo_block k)) [0..<n],
     last_view_timeout_qc = None, overlay = demo_overlay\<rparr>"

definition demo_vote :: "nat \<Rightarrow> Vote" where
  "demo_vote n = \<lparr>vblock = [of_nat n + 1], vview = int n + 1, voter = [2], vqc = None\<rparr>"

lemmas receive_simps = receive_block_def bind_assert_eq bind_act_call bind_act_modify
  update_high_qc_def set_high_qc_def block_is_safe_def block_parent_def has_block_def blocks_in_view_def or_res_def
  latest_committed_view_def latest_committed_block_def can_commit_grandparent_def grandparent_def genesis_block_def
  py_index_def attr_def

lemma no_event_eq: "no_event m c = (case m c of
    (Ok x, t) \<Rightarrow> (Ok None, t) | (Err e, t) \<Rightarrow> (Err e, t) | (Diverge, t) \<Rightarrow> (Diverge, t))"
  by (simp add: no_event_def bind_act_def split: prod.splits res.splits)

lemma an_event_eq: "an_event m c = (case m c of
    (Ok x, t) \<Rightarrow> (Ok (Some x), t) | (Err e, t) \<Rightarrow> (Err e, t) | (Diverge, t) \<Rightarrow> (Diverge, t))"
  by (simp add: an_event_def bind_act_def split: prod.splits res.splits)

lemma demo_node_at: "demo_node [2] = demo_at 0 (- 1)"
  by (simp add: demo_at_def demo_defs)

lemma demo_receive:
  "receive_block (demo_block 0) (demo_at 0 v) = (Ok (), demo_at (Suc 0) v)"
  "receive_block (demo_block (Suc 0)) (demo_at (Suc 0) v) = (Ok (), demo_at 2 v)"
  "receive_block (demo_block 2) (demo_at 2 v) = (Ok (), demo_at 3 v)"
  by (simp_all add: demo_at_def demo_defs receive_simps upt_rec upto_rec1 upto_rec2)

lemma demo_approve:
  "v < 1 \<Longrightarrow> approve_block (tree_ops demo_random) (demo_block 0) [] (demo_at (Suc 0) v) =
     (Ok (Send (ToCommittee None) (PVote (demo_vote 0))), demo_at (Suc 0) 1)"
  "v < 2 \<Longrightarrow> approve_block (tree_ops demo_random) (demo_block (Suc 0)) [] (demo_at 2 v) =
     (Ok (Send (ToCommittee None) (PVote (demo_vote (Suc 0)))), demo_at 2 2)"
  by (simp_all add: demo_at_def demo_defs receive_simps approve_block_def tree_ops_def demo_leaf demo_vote_def Let_def upt_rec)

text \<open>After the local timeout of view 3 the node does not vote in it.\<close>

lemma demo_timeout:
  "local_timeout (tree_ops demo_random) (demo_at 3 2) = (Ok None, demo_at 3 3)"
  "approve_block (tree_ops demo_random) (demo_block 2) [] (demo_at 3 3) = (Err AssertionError, demo_at 3 3)"
  by (simp_all add: demo_at_def demo_defs receive_simps approve_block_def local_timeout_def tree_ops_def
      tov_is_child_of_root_def demo_leaf Let_def upt_rec)

lemmas demo_steps = demo_receive demo_approve demo_timeout no_event_eq an_event_eq

lemma leaf_demo_run:
  "run_inputs (tree_ops demo_random) demo_hash demo_inputs (demo_node [2]) = ([demo_vote 0, demo_vote 1], demo_at 3 3)"
  by (simp add: demo_node_at demo_inputs_def demo_steps)

lemma demo_justified:
  "justified (demo_at 0 v) (demo_block 0)" "justified (demo_at (Suc 0) v) (demo_block (Suc 0))"
  "justified (demo_at 2 v) (demo_block 2)"
  by (simp_all add: justified_def demo_at_def demo_defs block_parent_def upt_rec)

lemma demo_stored:
  "map_of (safe_blocks (demo_at (Suc 0) v)) (bid (demo_block 0)) = Some (demo_block 0)"
  "map_of (safe_blocks (demo_at 2 v)) (bid (demo_block (Suc 0))) = Some (demo_block (Suc 0))"
  "map_of (safe_blocks (demo_at 3 v)) (bid (demo_block 2)) = Some (demo_block 2)"
  by (simp_all add: demo_at_def demo_defs upt_rec)

lemma demo_inputs_ok: "inputs_ok (tree_ops demo_random) demo_hash demo_inputs (demo_node [2])"
  by (simp add: demo_node_at demo_inputs_def demo_steps demo_justified demo_stored)

lemma demo_timeouts_late: "timeouts_late (tree_ops demo_random) demo_hash demo_inputs (demo_node [2])"
  by (simp add: demo_node_at demo_inputs_def demo_steps) (simp add: demo_at_def)

end
