(* ===== verification/Beacon.thy ===== *)
theory Beacon
  imports Overlays Mix_Helpers
begin

text \<open>
  deprecated/carnot/beacon.py and beaconized_carnot.py: random beacons, and the Carnot node that moves
  its overlay on with the entropy of the beacon of each block.

  \<open>Bls\<close> holds what the code uses of blspy: the bytes of the public key of a secret key, the bytes of a
  signature, parsing of both, and verification; \<open>sha256\<close> is the hash function of hashlib. The overlay
  is an \<open>EntropyOverlay\<close>: its \<open>advance\<close> is the parameter \<open>adv\<close>.
\<close>

section \<open>Beacons\<close>

record ('sk, 'pk, 'sig) Bls =
  bls_g1 :: "'sk \<Rightarrow> bytes"
  bls_sign :: "'sk \<Rightarrow> bytes \<Rightarrow> bytes"
  G1_from_bytes :: "bytes \<Rightarrow> (exn, 'pk) res"
  G2_from_bytes :: "bytes \<Rightarrow> (exn, 'sig) res"
  bls_verify :: "'pk \<Rightarrow> bytes \<Rightarrow> 'sig \<Rightarrow> bool"

text \<open>\<open>generate_random_sk\<close>: \<open>randint\<close> and the key generation of blspy are parameters.\<close>

definition generate_random_sk :: "('w, 'sk) Draws \<Rightarrow> ('w, exn, 'sk) action" where
  "generate_random_sk D w =
     (let (xs, w') = draw_ints D 32 w in (bind_res (py_bytes xs) (\<lambda>seed. Ok (key_gen D seed)), w'))"

text \<open>\<open>int.bit_length\<close>, and \<open>int.to_bytes(n, byteorder='little', signed=True)\<close>.\<close>

fun nat_bits :: "nat \<Rightarrow> nat" where
  "nat_bits 0 = 0"
| "nat_bits (Suc n) = Suc (nat_bits (Suc n div 2))"

definition bit_length :: "int \<Rightarrow> nat" where
  "bit_length v = nat_bits (nat \<bar>v\<bar>)"

definition signed_bytes_le :: "nat \<Rightarrow> int \<Rightarrow> (exn, bytes) res" where
  "signed_bytes_le n v =
     (if - (256 ^ n) \<le> 2 * v \<and> 2 * v < 256 ^ n
      then Ok (map (\<lambda>i. word_of_int (v div 256 ^ i)) [0..<n])
      else Err OverflowError)"

definition view_to_bytes :: "int \<Rightarrow> (exn, bytes) res" where
  "view_to_bytes view = signed_bytes_le ((bit_length view + 7) div 8) view"

definition VERSION :: int where
  "VERSION = 0"

record RandomBeacon =
  version :: int
  beacon_sig :: bytes

definition beacon_entropy :: "RandomBeacon \<Rightarrow> bytes" where
  "beacon_entropy b = beacon_sig b"

definition normal_verify :: "('sk, 'pk, 'sig) Bls \<Rightarrow> RandomBeacon \<Rightarrow> 'pk \<Rightarrow> int \<Rightarrow> (exn, bool) res" where
  "normal_verify B beacon pk view =
     bind_res (G2_from_bytes B (beacon_sig beacon)) (\<lambda>sig.
     bind_res (view_to_bytes view) (\<lambda>m. Ok (bls_verify B pk m sig)))"

definition normal_generate :: "('sk, 'pk, 'sig) Bls \<Rightarrow> 'sk \<Rightarrow> int \<Rightarrow> (exn, RandomBeacon) res" where
  "normal_generate B sk view =
     bind_res (view_to_bytes view) (\<lambda>m. Ok \<lparr>version = VERSION, beacon_sig = bls_sign B sk m\<rparr>)"

definition recovery_verify :: "(bytes \<Rightarrow> bytes) \<Rightarrow> RandomBeacon \<Rightarrow> RandomBeacon \<Rightarrow> int \<Rightarrow> (exn, bool) res" where
  "recovery_verify sha256 before beacon view =
     bind_res (view_to_bytes view) (\<lambda>m. Ok (sha256 (beacon_entropy before @ m) = beacon_entropy beacon))"

definition recovery_generate :: "(bytes \<Rightarrow> bytes) \<Rightarrow> bytes \<Rightarrow> int \<Rightarrow> (exn, RandomBeacon) res" where
  "recovery_generate sha256 last_entropy view =
     bind_res (view_to_bytes view) (\<lambda>m. Ok \<lparr>version = VERSION, beacon_sig = sha256 (last_entropy @ m)\<rparr>)"

section \<open>The handler of beacons\<close>

record RandomBeaconHandler =
  last_beacon :: RandomBeacon

definition verify_happy ::
    "('sk, 'pk, 'sig) Bls \<Rightarrow> RandomBeacon \<Rightarrow> 'pk \<Rightarrow> int \<Rightarrow> (RandomBeaconHandler, exn, bool) action" where
  "verify_happy B new_beacon pk view =
     bind_act (call (\<lambda>_. normal_verify B new_beacon pk view)) (\<lambda>ok.
       if ok then bind_act (modify (\<lambda>h. h\<lparr>last_beacon := new_beacon\<rparr>)) (\<lambda>_. ret True) else ret False)"

definition verify_unhappy ::
    "(bytes \<Rightarrow> bytes) \<Rightarrow> RandomBeacon \<Rightarrow> int \<Rightarrow> (RandomBeaconHandler, exn, bool) action" where
  "verify_unhappy sha256 new_beacon view =
     bind_act (call (\<lambda>h. recovery_verify sha256 (last_beacon h) new_beacon view)) (\<lambda>ok.
       if ok then bind_act (modify (\<lambda>h. h\<lparr>last_beacon := new_beacon\<rparr>)) (\<lambda>_. ret True) else ret False)"

section \<open>The node\<close>

text \<open>
  A beaconized node is a Carnot node with a key and a handler; \<open>as_carnot\<close> runs an inherited method on
  the node it extends, \<open>with_beacon\<close> a method of its handler. A beaconized block is a block with its
  beacon and the public key of its proposer; only the block is stored.
\<close>

record 'pk BeaconizedBlock =
  bblock :: Block
  bbeacon :: RandomBeacon
  bpk :: 'pk

record ('ov, 'sk) BeaconizedCarnot =
  node :: "'ov Carnot"
  sk :: 'sk
  node_pk :: bytes
  random_beacon :: RandomBeaconHandler

definition as_carnot :: "('ov Carnot, exn, 'a) action \<Rightarrow> (('ov, 'sk) BeaconizedCarnot, exn, 'a) action" where
  "as_carnot m = (\<lambda>s. case m (node s) of (r, c) \<Rightarrow> (r, s\<lparr>node := c\<rparr>))"

definition with_beacon :: "(RandomBeaconHandler, exn, 'a) action \<Rightarrow> (('ov, 'sk) BeaconizedCarnot, exn, 'a) action" where
  "with_beacon m = (\<lambda>s. case m (random_beacon s) of (r, h) \<Rightarrow> (r, s\<lparr>random_beacon := h\<rparr>))"

definition BeaconizedCarnot_init ::
    "('sk, 'pk, 'sig) Bls \<Rightarrow> (bytes \<Rightarrow> bytes) \<Rightarrow> 'sk \<Rightarrow> 'ov \<Rightarrow> bytes \<Rightarrow> (exn, ('ov, 'sk) BeaconizedCarnot) res" where
  "BeaconizedCarnot_init B sha256 key ov e =
     bind_res (recovery_generate sha256 e (- 1)) (\<lambda>beacon.
       Ok \<lparr>node = Carnot_init (bls_g1 B key) ov, sk = key, node_pk = bls_g1 B key,
           random_beacon = \<lparr>last_beacon = beacon\<rparr>\<rparr>)"

definition advance_overlay :: "('ov \<Rightarrow> bytes \<Rightarrow> (exn, 'ov) res) \<Rightarrow> (('ov, 'sk) BeaconizedCarnot, exn, unit) action" where
  "advance_overlay adv =
     bind_act (call (\<lambda>s. adv (overlay (node s)) (beacon_entropy (last_beacon (random_beacon s))))) (\<lambda>ov.
       modify (\<lambda>s. s\<lparr>node := (node s)\<lparr>overlay := ov\<rparr>\<rparr>))"

text \<open>The assertion whose condition is the call \<open>verify_happy\<close>, and the step to the next overlay.\<close>

definition take_beacon ::
    "('sk, 'pk, 'sig) Bls \<Rightarrow> ('ov \<Rightarrow> bytes \<Rightarrow> (exn, 'ov) res) \<Rightarrow> 'pk BeaconizedBlock \<Rightarrow>
      (('ov, 'sk) BeaconizedCarnot, exn, unit) action" where
  "take_beacon B adv block =
     bind_act (with_beacon (verify_happy B (bbeacon block) (bpk block) (qc_view (bqc (bblock block))))) (\<lambda>ok.
     bind_act (assert_act (\<lambda>_. Ok ok)) (\<lambda>_. advance_overlay adv))"

definition beaconized_approve_block ::
    "('sk, 'pk, 'sig) Bls \<Rightarrow> 'ov OverlayOps \<Rightarrow> ('ov \<Rightarrow> bytes \<Rightarrow> (exn, 'ov) res) \<Rightarrow> 'pk BeaconizedBlock \<Rightarrow> Vote list \<Rightarrow>
      (('ov, 'sk) BeaconizedCarnot, exn, Event) action" where
  "beaconized_approve_block B ops adv block votes =
     (let b = bblock block in
     bind_act (as_carnot (assert_act (\<lambda>c. Ok (has_block c (bid b))))) (\<lambda>_.
     bind_act (as_carnot (assert_act (\<lambda>c. bind_res (ov_threshold ops (overlay c) (cid c)) (\<lambda>n. Ok (int (length votes) = n))))) (\<lambda>_.
     bind_act (as_carnot (assert_act (\<lambda>c. all_res (\<lambda>vote. ov_is_child_member ops (overlay c) (cid c) (voter vote)) votes))) (\<lambda>_.
     bind_act (as_carnot (assert_act (\<lambda>c. Ok (list_all (\<lambda>vote. vblock vote = bid b) votes)))) (\<lambda>_.
     bind_act (as_carnot (assert_act (\<lambda>c. Ok (highest_voted_view c < bview b)))) (\<lambda>_ s.
       let root = ov_is_root ops (overlay (node s)) (cid (node s)) in
       bind_act (call (\<lambda>_. if root then bind_res (build_qc (bview b) (Some b) []) (\<lambda>q. Ok (Some q)) else Ok None)) (\<lambda>qc.
         let vote = \<lparr>vblock = bid b, vview = bview b, voter = cid (node s), vqc = qc\<rparr> in
         bind_act (as_carnot (modify (\<lambda>c. c\<lparr>highest_voted_view := max (highest_voted_view c) (bview b)\<rparr>))) (\<lambda>_.
           if root
           then bind_act (take_beacon B adv block) (\<lambda>_.
                bind_act (call (\<lambda>s. Ok (ov_leader ops (overlay (node s))))) (\<lambda>l. ret (Send (ToId l) (PVote vote))))
           else bind_act (call (\<lambda>s. ov_parent_committee ops (overlay (node s)) (cid (node s)))) (\<lambda>p.
                bind_act (take_beacon B adv block) (\<lambda>_. ret (Send (ToCommittee p) (PVote vote)))))) s))))))"

definition beaconized_receive_timeout_qc ::
    "(bytes \<Rightarrow> bytes) \<Rightarrow> ('ov \<Rightarrow> bytes \<Rightarrow> (exn, 'ov) res) \<Rightarrow> TimeoutQc \<Rightarrow> (('ov, 'sk) BeaconizedCarnot, exn, unit) action" where
  "beaconized_receive_timeout_qc sha256 adv t =
     bind_act (as_carnot (receive_timeout_qc t)) (\<lambda>_ s.
       if tqc_view t < current_view (node s) then ret () s
       else bind_act (call (\<lambda>s. recovery_generate sha256 (beacon_entropy (last_beacon (random_beacon s))) (tqc_view t))) (\<lambda>new_beacon.
            bind_act (with_beacon (verify_unhappy sha256 new_beacon (tqc_view t))) (\<lambda>_. advance_overlay adv)) s)"

text \<open>The block that is broadcast.\<close>

fun event_block :: "Event \<Rightarrow> (exn, Block) res" where
  "event_block (BroadCast (PBlock b)) = Ok b"
| "event_block _ = Err AttributeError"

definition beaconized_propose_block ::
    "('sk, 'pk, 'sig) Bls \<Rightarrow> 'ov OverlayOps \<Rightarrow> (bytes \<Rightarrow> bytes \<Rightarrow> int) \<Rightarrow> int \<Rightarrow> Quorum \<Rightarrow>
      (('ov, 'sk) BeaconizedCarnot, exn, 'pk BeaconizedBlock) action" where
  "beaconized_propose_block B ops hash view quorum =
     bind_act (as_carnot (propose_block ops hash view quorum)) (\<lambda>event.
     bind_act (call (\<lambda>_. event_block event)) (\<lambda>b.
     bind_act (call (\<lambda>s. normal_generate B (sk s) (qc_view (bqc b)))) (\<lambda>beacon.
     bind_act (call (\<lambda>s. G1_from_bytes B (node_pk s))) (\<lambda>pk.
       ret \<lparr>bblock = \<lparr>bview = bview b, bqc = bqc b, bid = bid b\<rparr>, bbeacon = beacon, bpk = pk\<rparr>))))"

section \<open>Views as bytes\<close>

fun le_value :: "bytes \<Rightarrow> int" where
  "le_value [] = 0"
| "le_value (b # bs) = uint b + 256 * le_value bs"

text \<open>\<open>int.from_bytes(bs, byteorder='little', signed=True)\<close>.\<close>

definition signed_value :: "bytes \<Rightarrow> int" where
  "signed_value bs = (if 256 ^ length bs \<le> 2 * le_value bs then le_value bs - 256 ^ length bs else le_value bs)"

lemma le_value_bytes: "le_value (map (\<lambda>i. word_of_int (v div 256 ^ i)) [0..<n]) = v mod 256 ^ n"
proof (induction n arbitrary: v)
  case (Suc n)
  have "map (\<lambda>i. word_of_int (v div 256 ^ i) :: 8 word) [0..<Suc n] =
      word_of_int v # map (\<lambda>i. word_of_int (v div 256 div 256 ^ i)) [0..<n]"
    unfolding upt_conv_Cons [OF zero_less_Suc] map_Suc_upt [symmetric] by (simp add: o_def zdiv_zmult2_eq)
  then have "le_value (map (\<lambda>i. word_of_int (v div 256 ^ i)) [0..<Suc n]) = v mod 256 + 256 * (v div 256 mod 256 ^ n)"
    by (simp only: le_value.simps Suc) (simp add: uint_word_of_int)
  also have "\<dots> = v mod 256 ^ Suc n" by (simp add: zmod_zmult2_eq)
  finally show ?case .
qed simp

lemma signed_bytes_roundtrip: "signed_bytes_le n v = Ok bs \<Longrightarrow> signed_value bs = v"
proof -
  assume ok: "signed_bytes_le n v = Ok bs"
  then have range: "- (256 ^ n) \<le> 2 * v" "2 * v < 256 ^ n" and bs: "bs = map (\<lambda>i. word_of_int (v div 256 ^ i)) [0..<n]"
    by (simp_all add: signed_bytes_le_def split: if_splits)
  have len: "length bs = n" and val: "le_value bs = v mod 256 ^ n" by (simp_all add: bs le_value_bytes)
  show "signed_value bs = v"
  proof (cases "0 \<le> v")
    case True
    then have "v mod 256 ^ n = v" using range(2) by simp
    then show ?thesis using range(2) by (simp add: signed_value_def len val)
  next
    case False
    then have "(v + 256 ^ n) mod 256 ^ n = v + 256 ^ n" using range(1) by (intro mod_pos_pos_trivial) linarith+
    then have "v mod 256 ^ n = v + 256 ^ n" by simp
    then show ?thesis using range(1) by (simp add: signed_value_def len val)
  qed
qed

lemma nat_bits_bounds: "0 < n \<Longrightarrow> 0 < nat_bits n \<and> 2 ^ (nat_bits n - 1) \<le> n \<and> n < 2 ^ nat_bits n"
proof (induction n rule: nat_bits.induct)
  case (2 n)
  show ?case
  proof (cases "Suc n div 2 = 0")
    case True
    then have "n = 0" by simp
    then show ?thesis by simp
  next
    case False
    then have "0 < Suc n div 2" by simp
    note IH = "2.IH" [OF this]
    then obtain k where k: "nat_bits (Suc n div 2) = Suc k" by (cases "nat_bits (Suc n div 2)") auto
    have "2 ^ k \<le> Suc n div 2" "Suc n div 2 < 2 * 2 ^ k" using IH k by simp_all
    then have "2 * 2 ^ k \<le> Suc n" "Suc n < 2 * (2 * 2 ^ k)" by linarith+
    then show ?thesis using k by (simp only: nat_bits.simps power_Suc diff_Suc_1) simp
  qed
qed simp

text \<open>Where the bytes do not suffice: no bit is left for the sign.\<close>

definition no_sign_bit :: "int \<Rightarrow> bool" where
  "no_sign_bit v \<longleftrightarrow> v \<noteq> 0 \<and> bit_length v mod 8 = 0 \<and> v \<noteq> - (2 ^ (bit_length v - 1))"

lemma view_bytes_fit:
  defines "n v \<equiv> (bit_length v + 7) div 8"
  shows "- (256 ^ n v) \<le> 2 * v \<and> 2 * v < 256 ^ n v \<longleftrightarrow> \<not> no_sign_bit v"
proof (cases "v = 0")
  case False
  define k where "k = bit_length v - 1"
  have "0 < nat \<bar>v\<bar>" using False by simp
  note b = nat_bits_bounds [OF this, folded bit_length_def]
  then have k: "bit_length v = Suc k" by (simp add: k_def)
  have "2 ^ k \<le> nat \<bar>v\<bar>" "nat \<bar>v\<bar> < 2 ^ Suc k" using b k by simp_all
  then have "int (2 ^ k) \<le> \<bar>v\<bar>" "\<bar>v\<bar> < int (2 ^ Suc k)" by linarith+
  then have v: "2 ^ k \<le> \<bar>v\<bar>" "\<bar>v\<bar> < 2 * 2 ^ k" by simp_all
  have pow: "(256 :: int) ^ n v = 2 ^ (8 * n v)" by (simp add: power_mult)
  show ?thesis
  proof (cases "bit_length v mod 8 = 0")
    case True
    then have "8 * n v = Suc k" unfolding n_def k by presburger
    then have "(256 :: int) ^ n v = 2 * 2 ^ k" using pow by simp
    then show ?thesis using v True False unfolding no_sign_bit_def k by simp linarith
  next
    case False
    then have "Suc (Suc k) \<le> 8 * n v" unfolding n_def k by presburger
    then have "(2 :: int) ^ Suc (Suc k) \<le> 256 ^ n v" unfolding pow by (rule power_increasing) simp
    then have "- (256 ^ n v) \<le> 2 * v \<and> 2 * v < 256 ^ n v" using v by (simp add: abs_if split: if_splits)
    then show ?thesis using False unfolding no_sign_bit_def by simp
  qed
qed (simp add: no_sign_bit_def)

lemma view_to_bytes_cases:
  "if no_sign_bit v then view_to_bytes v = Err OverflowError else \<exists>bs. view_to_bytes v = Ok bs \<and> signed_value bs = v"
  using view_bytes_fit [of v] signed_bytes_roundtrip [of "(bit_length v + 7) div 8" v]
  by (auto simp: view_to_bytes_def signed_bytes_le_def)

section \<open>Timeouts\<close>

text \<open>After \<open>receive_timeout_qc\<close> the current view is past the timeout's.\<close>

lemma receive_timeout_qc_view:
  "receive_timeout_qc t c = (Ok u, c') \<Longrightarrow> tqc_view t < current_view c'"
  unfolding receive_timeout_qc_def by (auto simp: act_simps split: if_splits elim!: bind_act_cases)

lemma receive_timeout_qc_overlay: "overlay (snd (receive_timeout_qc t c)) = overlay c"
proof -
  have "outcome (\<lambda>s. overlay s = overlay c) (\<lambda>_. True) (update_high_qc (tqc_high_qc t) c)"
    by (simp add: update_high_qc_def bind_act_def outcome_def set_high_qc_def split: res.splits option.splits)
  then have "outcome (\<lambda>s. overlay s = overlay c) (\<lambda>_. True) (receive_timeout_qc t c)"
    unfolding receive_timeout_qc_def
    by (intro outcome_if outcome_ret outcome_bind [where U = "\<lambda>_. True"] outcome_intros)
      (auto simp: update_timeout_qc_def split: option.splits)
  then show ?thesis by (simp add: outcome_def)
qed

lemma timeout_without_beacon: "beaconized_receive_timeout_qc sha256 adv t s = as_carnot (receive_timeout_qc t) s"
proof -
  obtain r c where r: "receive_timeout_qc t (node s) = (r, c)" by (cases "receive_timeout_qc t (node s)")
  then show ?thesis
    using receive_timeout_qc_view [of t "node s" _ c]
    by (cases r) (simp_all add: beaconized_receive_timeout_qc_def bind_act_def as_carnot_def)
qed

section \<open>Beacons of blocks\<close>

text \<open>What blspy documents: a signature of a key verifies under the public key of that key.\<close>

definition signatures_verify :: "('sk, 'pk, 'sig) Bls \<Rightarrow> 'sk \<Rightarrow> bool" where
  "signatures_verify B key \<longleftrightarrow> (\<exists>pk. G1_from_bytes B (bls_g1 B key) = Ok pk \<and>
     (\<forall>m. \<exists>sig. G2_from_bytes B (bls_sign B key m) = Ok sig \<and> bls_verify B pk m sig))"

lemma normal_beacon_verifies:
  assumes "signatures_verify B key" and "G1_from_bytes B (bls_g1 B key) = Ok pk" and "normal_generate B key v = Ok beacon"
  shows "verify_happy B beacon pk v h = (Ok True, h\<lparr>last_beacon := beacon\<rparr>)"
proof -
  obtain m where m: "view_to_bytes v = Ok m" "beacon = \<lparr>version = VERSION, beacon_sig = bls_sign B key m\<rparr>"
    using assms(3) by (auto simp: normal_generate_def bind_res_Ok_iff)
  obtain sig where "G2_from_bytes B (bls_sign B key m) = Ok sig" "bls_verify B pk m sig"
    using assms(1,2) unfolding signatures_verify_def by auto
  then show ?thesis by (simp add: m normal_verify_def verify_happy_def act_simps)
qed

lemma as_carnot_apply: "as_carnot m s = (fst (m (node s)), s\<lparr>node := snd (m (node s))\<rparr>)"
  by (simp add: as_carnot_def split: prod.splits)

lemma propose_block_keeps: "snd (propose_block ops h v q c) = c"
  by (simp add: propose_block_def bind_act_def assert_act_def split: res.splits)

lemma beaconized_proposal:
  assumes "beaconized_propose_block B ops h v q s = (Ok block, s')"
  shows "s' = s" and "G1_from_bytes B (node_pk s) = Ok (bpk block)" and
    "normal_generate B (sk s) (qc_view (bqc (bblock block))) = Ok (bbeacon block)" and
    "fst (propose_block ops h v q (node s)) = Ok (BroadCast (PBlock (bblock block)))"
proof -
  obtain r where r: "propose_block ops h v q (node s) = (r, node s)"
    using propose_block_keeps [of ops h v q "node s"] by (cases "propose_block ops h v q (node s)") simp
  note run = assms [unfolded beaconized_propose_block_def]
  obtain e where e: "r = Ok e" using run r by (cases r) (simp_all add: bind_act_def as_carnot_apply)
  then obtain b where b: "event_block e = Ok b"
    using run r by (cases "event_block e") (simp_all add: bind_act_def as_carnot_apply)
  then have "e = BroadCast (PBlock b)" by (cases e rule: event_block.cases) auto
  with run r e show "s' = s" "G1_from_bytes B (node_pk s) = Ok (bpk block)"
    "normal_generate B (sk s) (qc_view (bqc (bblock block))) = Ok (bbeacon block)"
    "fst (propose_block ops h v q (node s)) = Ok (BroadCast (PBlock (bblock block)))"
    by (auto simp: bind_act_def as_carnot_apply split: res.splits)
qed

end
