(* ===== verification/Committee_Sizes.thy ===== *)
theory Committee_Sizes
  imports Py_Float
begin

text \<open>
  deprecated/carnot/committee_sizes.py: the search for the largest odd number of committees whose
  probability of failure stays below a threshold.

  The distribution \<open>binom.cdf\<close> of scipy and the power of floats are parameters; the other operations
  on floats round as in \<open>Py_Float\<close>. The loop has no bound of its own: it is a partial function whose
  value \<open>None\<close> is not returning.
\<close>

section \<open>The search\<close>

record Binomial =
  binom_cdf :: "int \<Rightarrow> int \<Rightarrow> rat \<Rightarrow> rat"
  float_ipow :: "rat \<Rightarrow> int \<Rightarrow> rat"

definition failure_probability :: "Binomial \<Rightarrow> rat \<Rightarrow> rat \<Rightarrow> int \<Rightarrow> int \<Rightarrow> int \<Rightarrow> rat" where
  "failure_probability B committee_threshold network_threshold number_of_committees committee_size remainder =
     (let p = binom_cdf B \<lfloor>fl (committee_threshold * fl (of_int committee_size))\<rfloor> committee_size network_threshold
      in if 0 < remainder
         then let p1 = binom_cdf B \<lfloor>fl (committee_threshold * fl (of_int (committee_size + 1)))\<rfloor> (committee_size + 1) network_threshold
              in fl (1 - fl (float_ipow B p (number_of_committees - remainder) * float_ipow B p1 remainder))
         else fl (1 - float_ipow B p number_of_committees))"

type_synonym split = "int \<times> int \<times> int \<times> rat"

text \<open>The body of the loop, for the next value of \<open>odd_committee\<close>.\<close>

definition next_split :: "Binomial \<Rightarrow> rat \<Rightarrow> rat \<Rightarrow> int \<Rightarrow> int \<Rightarrow> split" where
  "next_split B ct nt number_of_nodes odd_committee =
     (let number_of_committees = 2 * odd_committee + 1;
          committee_size = number_of_nodes div number_of_committees;
          remainder = number_of_nodes mod number_of_committees
      in (number_of_committees, committee_size, remainder,
          failure_probability B ct nt number_of_committees committee_size remainder))"

partial_function (option) committee_loop ::
    "Binomial \<Rightarrow> rat \<Rightarrow> rat \<Rightarrow> rat \<Rightarrow> int \<Rightarrow> split \<Rightarrow> split \<Rightarrow> int \<Rightarrow> split option" where
  "committee_loop B ft ct nt n previous current odd_committee =
     (if snd (snd (snd current)) < ft
      then committee_loop B ft ct nt n current (next_split B ct nt n (odd_committee + 1)) (odd_committee + 1)
      else Some previous)"

text \<open>The loop runs at least once, so the value the variables \<open>previous_...\<close> start with is not read.\<close>

definition compute_optimal_number_of_committees_and_committee_size ::
    "Binomial \<Rightarrow> int \<Rightarrow> rat \<Rightarrow> rat \<Rightarrow> rat \<Rightarrow> (exn, split) res" where
  "compute_optimal_number_of_committees_and_committee_size B number_of_nodes failure_threshold ct nt =
     (if failure_threshold > 0
      then case committee_loop B failure_threshold ct nt number_of_nodes (1, number_of_nodes, 0, 0) (1, number_of_nodes, 0, 0) 0 of
             Some r \<Rightarrow> Ok r | None \<Rightarrow> Diverge
      else Err AssertionError)"

section \<open>What it finds\<close>

definition candidate :: "Binomial \<Rightarrow> rat \<Rightarrow> rat \<Rightarrow> int \<Rightarrow> nat \<Rightarrow> split" where
  "candidate B ct nt n j = (if j = 0 then (1, n, 0, 0) else next_split B ct nt n (int j))"

definition too_risky :: "Binomial \<Rightarrow> rat \<Rightarrow> rat \<Rightarrow> rat \<Rightarrow> int \<Rightarrow> nat \<Rightarrow> bool" where
  "too_risky B ft ct nt n j \<longleftrightarrow> \<not> snd (snd (snd (candidate B ct nt n j))) < ft"

lemma candidate_Suc: "next_split B ct nt n (int j + 1) = candidate B ct nt n (Suc j)" "next_split B ct nt n (1 + int j) = candidate B ct nt n (Suc j)"
  by (simp_all add: candidate_def add.commute)

lemma committee_loop_step:
  "committee_loop B ft ct nt n previous (candidate B ct nt n j) (int j) =
     (if too_risky B ft ct nt n j then Some previous
      else committee_loop B ft ct nt n (candidate B ct nt n j) (candidate B ct nt n (Suc j)) (int (Suc j)))"
  by (subst committee_loop.simps) (simp add: too_risky_def candidate_Suc add.commute)

lemma committee_loop_finds:
  assumes "too_risky B ft ct nt n (j + Suc d)" and "\<And>i. i < j + Suc d \<Longrightarrow> \<not> too_risky B ft ct nt n i"
  shows "committee_loop B ft ct nt n previous (candidate B ct nt n j) (int j) = Some (candidate B ct nt n (j + d))"
  using assms
proof (induction d arbitrary: j previous)
  case 0
  then show ?case by (simp add: committee_loop_step [of B ft ct nt n _ j] committee_loop_step [of B ft ct nt n _ "Suc j"] del: of_nat_Suc)
next
  case (Suc d)
  then show ?case using Suc.IH [of "Suc j" "candidate B ct nt n j"] by (simp add: committee_loop_step [of B ft ct nt n previous j] del: of_nat_Suc)
qed

lemma committee_loop_stops:
  assumes "committee_loop B ft ct nt n previous current k = Some r"
  shows "\<forall>j. current = candidate B ct nt n j \<longrightarrow> k = int j \<longrightarrow> (\<exists>i. too_risky B ft ct nt n i)"
proof (rule committee_loop.raw_induct [OF _ assms])
  fix loop and B :: Binomial and ft ct nt :: rat and n :: int and previous current :: split and k :: int and r :: split
  assume IH: "\<And>B ft ct nt n previous current k r. loop B ft ct nt n previous current k = Some r \<Longrightarrow>
      \<forall>j. current = candidate B ct nt n j \<longrightarrow> k = int j \<longrightarrow> (\<exists>i. too_risky B ft ct nt n i)"
    and body: "(if snd (snd (snd current)) < ft then loop B ft ct nt n current (next_split B ct nt n (k + 1)) (k + 1) else Some previous) = Some r"
  show "\<forall>j. current = candidate B ct nt n j \<longrightarrow> k = int j \<longrightarrow> (\<exists>i. too_risky B ft ct nt n i)"
  proof (intro allI impI)
    fix j
    assume j: "current = candidate B ct nt n j" "k = int j"
    show "\<exists>i. too_risky B ft ct nt n i"
    proof (cases "too_risky B ft ct nt n j")
      case False
      then have "loop B ft ct nt n current (candidate B ct nt n (Suc j)) (int (Suc j)) = Some r"
        using body j by (simp add: too_risky_def candidate_Suc add.commute)
      from IH [OF this] show ?thesis by blast
    qed blast
  qed
qed

text \<open>The search ends exactly when some number of committees is too risky, with the split before the
  first such number.\<close>

lemma search_result:
  assumes "0 < ft"
  shows "compute_optimal_number_of_committees_and_committee_size B n ft ct nt =
    (if \<exists>j. too_risky B ft ct nt n j
     then Ok (candidate B ct nt n ((LEAST j. too_risky B ft ct nt n j) - 1)) else Diverge)"
proof (cases "\<exists>j. too_risky B ft ct nt n j")
  case True
  define j where "j = (LEAST j. too_risky B ft ct nt n j)"
  have j: "too_risky B ft ct nt n j" using True unfolding j_def by (auto intro: LeastI)
  have less: "\<not> too_risky B ft ct nt n i" if "i < j" for i using not_less_Least that unfolding j_def by blast
  have "\<not> too_risky B ft ct nt n 0" using assms by (simp add: too_risky_def candidate_def)
  then obtain d where d: "j = Suc d" using j by (cases j) auto
  have "committee_loop B ft ct nt n (1, n, 0, 0) (candidate B ct nt n 0) (int 0) = Some (candidate B ct nt n (0 + d))"
    by (rule committee_loop_finds) (use j less d in auto)
  then show ?thesis
    using True assms d by (simp add: compute_optimal_number_of_committees_and_committee_size_def candidate_def [of _ _ _ _ 0] j_def [symmetric])
next
  case False
  have "committee_loop B ft ct nt n (1, n, 0, 0) (1, n, 0, 0) 0 = None"
    using committee_loop_stops [of B ft ct nt n "(1, n, 0, 0)" "(1, n, 0, 0)" 0] False
    by (cases "committee_loop B ft ct nt n (1, n, 0, 0) (1, n, 0, 0) 0") (auto simp: candidate_def dest: spec [of _ 0])
  then show ?thesis using False assms by (simp add: compute_optimal_number_of_committees_and_committee_size_def)
qed

lemma candidate_split: "candidate B ct nt n j = (c, sz, rem, p) \<Longrightarrow> c = 2 * int j + 1 \<and> c * sz + rem = n \<and> 0 \<le> rem \<and> rem < c"
  using pos_mod_bound [of "2 * int j + 1" n] by (auto simp: candidate_def next_split_def Let_def split: if_splits)

end
