(* ===== verification/Carnot_Properties.thy ===== *)
theory Carnot_Properties
  imports Carnot_Demo Beacon Committee_Sizes
begin

text \<open>
  The properties of a Carnot node and of its overlays, each followed by an instance on the network of
  \<open>Carnot_Demo\<close>.
\<close>

section \<open>Votes\<close>

text \<open>
  C32: A node never votes for two blocks of one view: in every run of the handlers from genesis, in any
  order and with any messages, two votes of the node with the same view name the same block, and the
  node holds that block. The blocks received must be certified (\<open>justified\<close>) and told by their
  identifier (\<open>as_stored\<close>). The node can vote twice for the same block: a local timeout sets the
  highest voted view to the current view even when that lowers it.
\<close>

theorem votes_name_one_block:
  assumes "at_genesis c g" and "inputs_ok ops h inputs c" and "run_inputs ops h inputs c = (vs, c')"
    and "v \<in> set vs" and "w \<in> set vs" and "vview v = vview w"
  shows "vblock v = vblock w \<and> (\<exists>b. map_of (safe_blocks c') (vblock v) = Some b \<and> bview b = vview v)"
proof -
  note run = run_inputs_tree [OF genesis_tree [OF assms(1)] assms(2,3)]
  then obtain a b where ab: "map_of (safe_blocks c') (vblock v) = Some a" "bview a = vview v"
      "map_of (safe_blocks c') (vblock w) = Some b" "bview b = vview w" using assms(4,5) by blast
  have "vblock v = vblock w" using same_view_same_block [OF _ ab(1,3)] run ab(2,4) assms(6) by (simp add: tree_from_def)
  then show ?thesis using ab(1,2) by blast
qed


theorem votes_name_one_block_witness:
  "vblock (demo_vote 1) = [2] \<and> (\<exists>b. map_of (safe_blocks (demo_at 3 3)) (vblock (demo_vote 1)) = Some b \<and> bview b = 2)"
  using votes_name_one_block [OF demo_at_genesis demo_inputs_ok leaf_demo_run, of "demo_vote 1" "demo_vote 1"]
  by (simp add: demo_vote_def)

text \<open>
  C33: A node votes in ascending order of views, each view at most once and above the highest voted view
  it started with, in every run in which a local timeout never comes while the node has voted ahead of
  its current view.
\<close>

theorem votes_ascend:
  assumes "timeouts_late ops h inputs c" and "run_inputs ops h inputs c = (vs, c')"
  shows "sorted_wrt (<) (map vview vs) \<and> (\<forall>v \<in> set vs. highest_voted_view c < vview v)"
  by (rule votes_ascending [OF assms])

theorem votes_ascend_witness:
  "sorted_wrt (<) (map vview [demo_vote 0, demo_vote 1]) \<and> - 1 < vview (demo_vote 0)"
  using votes_ascend [OF demo_timeouts_late leaf_demo_run] by (simp add: demo_defs)

text \<open>
  A node votes only with a quorum: when \<open>approve_block\<close> returns, the block is stored, there are as
  many votes as the threshold of the overlay, each for the block and from a child committee, and the
  node had not voted at its view or later. It then has voted at that view, and its vote carries a
  certificate of the block exactly when it is in the root committee.
\<close>

theorem approve_block_quorum:
  assumes "approve_block ops b votes c = (Ok e, c')"
  shows "has_block c (bid b) \<and> ov_threshold ops (overlay c) (cid c) = Ok (int (length votes)) \<and>
    all_res (\<lambda>vote. ov_is_child_member ops (overlay c) (cid c) (voter vote)) votes = Ok True \<and>
    list_all (\<lambda>vote. vblock vote = bid b) votes \<and>
    highest_voted_view c < bview b \<and> c' = c\<lparr>highest_voted_view := bview b\<rparr> \<and>
    (\<exists>to. e = Send to (PVote \<lparr>vblock = bid b, vview = bview b, voter = cid c,
       vqc = if ov_is_root ops (overlay c) (cid c) then Some (StandardQc (bid b) (bview b)) else None\<rparr>))"
  using approve_block_Ok [OF assms] by blast

theorem approve_block_quorum_witness:
  "has_block (demo_at (Suc 0) 0) (bid (demo_block 0)) \<and> tov_threshold demo_overlay [2] = Ok 0"
  using approve_block_quorum [OF demo_approve(1), of 0] by (simp add: tree_ops_def demo_at_def)

section \<open>Commits\<close>

text \<open>
  C34: Commits stay: from genesis on, whatever certified messages the node handles, the latest committed
  block exists, its view never decreases, and a committed block stays among the safe blocks.
\<close>

theorem commits_stay:
  assumes "at_genesis c0 g" and "(carnot_step ops h)\<^sup>*\<^sup>* c0 c" and "(carnot_step ops h)\<^sup>*\<^sup>* c c'"
  shows "\<exists>b b'. latest_committed_block c = Ok b \<and> latest_committed_block c' = Ok b' \<and> bview b \<le> bview b' \<and>
    map_of (safe_blocks c') (bid b) = Some b"
proof -
  have c: "block_tree c" using run_tree_from [OF assms(2) genesis_tree [OF assms(1)]] by (simp add: tree_from_def)
  have t: "tree_from c c'" by (rule run_tree_from [OF assms(3) c])
  then have c': "block_tree c'" by (simp add: tree_from_def)
  obtain b where b: "latest_committed_block c = Ok b" "commits c b" using latest_commits [OF c] by blast
  obtain b' where b': "latest_committed_block c' = Ok b'" "commits c' b'" using latest_commits [OF c'] by blast
  have "b \<in> snd ` set (safe_blocks c)" using b(2) by (simp add: commits_def)
  then have "b \<in> snd ` set (safe_blocks c')" using stored_grows [OF c] t by (simp add: tree_from_def)
  then have "map_of (safe_blocks c') (bid b) = Some b" using c' by (auto simp: block_tree_def)
  then show ?thesis using b(1) b'(1) commits_mono [OF c t b(2) b'(2)] by blast
qed

theorem commits_stay_witness:
  "\<exists>b b'. latest_committed_block (demo_at 0 0) = Ok b \<and> latest_committed_block (demo_at 1 0) = Ok b' \<and>
    bview b \<le> bview b' \<and> map_of (safe_blocks (demo_at 1 0)) (bid b) = Some b"
proof (rule commits_stay [of "demo_at 0 0" demo_genesis "tree_ops demo_random" demo_hash])
  show "at_genesis (demo_at 0 0) demo_genesis" by (simp add: at_genesis_def demo_at_def demo_defs)
  have "handle (tree_ops demo_random) demo_hash (InBlock (demo_block 0)) (demo_at 0 0) = (Ok None, demo_at 1 0)"
    by (simp add: demo_steps)
  then have "carnot_step (tree_ops demo_random) demo_hash (demo_at 0 0) (demo_at 1 0)"
    unfolding carnot_step_def using demo_justified(1) valid_input.simps(1) by blast
  then show "(carnot_step (tree_ops demo_random) demo_hash)\<^sup>*\<^sup>* (demo_at 0 0) (demo_at 1 0)" by blast
qed simp

section \<open>Certificates\<close>

lemma proposed_aggregate:
  assumes "handle ops h (InPropose v (NewViews ns)) c = (Ok (Some e), c')"
    and "high_qcs (map nv_high_qc ns) = Ok qs" and "py_max qc_view qs = Ok q"
  shows "typed_event e \<longleftrightarrow> is_standard q"
  using assms
  by (cases ns) (auto simp: an_event_eq propose_block_def bind_assert_eq bind_act_call build_qc_def py_index_def
      bind_res_Ok_iff split: prod.splits res.splits if_splits)

text \<open>A new view whose certificate is an aggregate, as its annotation permits.\<close>

definition demo_new_view :: "Id \<Rightarrow> NewView" where
  "demo_new_view s = \<lparr>nv_view = 2, nv_high_qc = Some (AggregateQc [0] (StandardQc [0] 0) 1), nv_sender = s,
     nv_timeout_qc = \<lparr>tqc_view = 1, tqc_high_qc = StandardQc [0] 0, tqc_qc_views = [], tqc_sender_ids = {}, tqc_sender = [1]\<rparr>\<rparr>"

text \<open>
  C35: The annotation of \<open>AggregateQc.highest_qc\<close>, a standard certificate, is kept when the certificates
  that are only annotated as \<open>Qc\<close> in timeout certificates, timeouts, new views and votes are standard: on such
  messages every handler leaves a node whose certificates are as annotated, and emits only such messages,
  also when it raises. The annotations alone do not suffice: a leader that proposes from new views
  emits a block as annotated exactly when the first newest of their certificates is a standard one;
  with an aggregate there, which \<open>Qc\<close> permits, the block holds an aggregate within an aggregate.
\<close>

theorem handlers_typed:
  assumes "handle ops h i c = (r, c')"
  shows "(typed_node c \<and> typed_input i \<longrightarrow> typed_node c' \<and> (\<forall>e. r = Ok (Some e) \<longrightarrow> typed_event e)) \<and>
    (\<forall>v ns qs q e. i = InPropose v (NewViews ns) \<and> r = Ok (Some e) \<and>
       high_qcs (map nv_high_qc ns) = Ok qs \<and> py_max qc_view qs = Ok q \<longrightarrow> (typed_event e \<longleftrightarrow> is_standard q))"
proof (intro conjI)
  show "typed_node c \<and> typed_input i \<longrightarrow> typed_node c' \<and> (\<forall>e. r = Ok (Some e) \<longrightarrow> typed_event e)"
    using typed_handle [of c i ops h] assms by (auto simp: outcome_def)
  show "\<forall>v ns qs q e. i = InPropose v (NewViews ns) \<and> r = Ok (Some e) \<and>
      high_qcs (map nv_high_qc ns) = Ok qs \<and> py_max qc_view qs = Ok q \<longrightarrow> (typed_event e \<longleftrightarrow> is_standard q)"
    using proposed_aggregate assms by blast
qed

theorem handlers_typed_witness:
  "typed_event (Send (ToCommittee None) (PVote (demo_vote 0))) \<and>
   (\<exists>e. fst (handle (tree_ops demo_random) demo_hash (InPropose 2 (NewViews (map demo_new_view demo_names)))
      (demo_node [1])) = Ok (Some e) \<and> \<not> typed_event e)"
proof
  have node: "typed_node (demo_at (Suc 0) 0)" by (simp add: typed_node_def demo_at_def demo_defs)
  have input: "typed_input (InApprove (demo_block 0) [])" by (simp add: demo_defs)
  have "handle (tree_ops demo_random) demo_hash (InApprove (demo_block 0) []) (demo_at (Suc 0) 0) =
      (Ok (Some (Send (ToCommittee None) (PVote (demo_vote 0)))), demo_at (Suc 0) 1)" by (simp add: demo_steps)
  from handlers_typed [OF this] node input show "typed_event (Send (ToCommittee None) (PVote (demo_vote 0)))" by simp
next
  let ?in = "InPropose 2 (NewViews (map demo_new_view demo_names))"
  let ?run = "handle (tree_ops demo_random) demo_hash ?in (demo_node [1])"
  have "tov_leader_threshold demo_overlay [1] = Ok 3" by code_simp
  then obtain e where e: "fst ?run = Ok (Some e)"
    by (auto simp: an_event_eq propose_block_def bind_assert_eq bind_act_call build_qc_def py_index_def attr_def
        tree_ops_def demo_defs demo_overlay_def demo_names_def demo_new_view_def bind_act_ret ret_def)
  then have "?run = (Ok (Some e), snd ?run)" by (simp add: prod_eq_iff)
  from handlers_typed [OF this] have "\<not> typed_event e" by (auto simp: attr_def demo_names_def demo_new_view_def)
  with e show "\<exists>e. fst ?run = Ok (Some e) \<and> \<not> typed_event e" by blast
qed

text \<open>
  What a certificate does to the highest one: a standard certificate replaces it exactly when it is
  newer, so its view never decreases; the highest certificate of an aggregate replaces it whenever their
  views differ, so the view can decrease (the guard is \<open>!=\<close> where the other case has \<open>>\<close>). A malformed
  aggregate is refused without effect. The current view advances exactly on a certificate for it.
\<close>

theorem high_qc_update:
  assumes "local_high_qc c = Some old"
  shows "update_high_qc (StandardQc b v) c =
      (Ok (), c\<lparr>local_high_qc := Some (if v > qc_view old then StandardQc b v else old),
                current_view := (if v = current_view c then current_view c + 1 else current_view c)\<rparr>) \<and>
    update_high_qc (AggregateQc qs q v) c =
      (if qs = [] then (Err ValueError, c) else if qc_view q \<noteq> Max (set qs) then (Err AssertionError, c)
       else (Ok (), c\<lparr>local_high_qc := Some (if qc_view q = qc_view old then old else q),
                current_view := (if v = current_view c then current_view c + 1 else current_view c)\<rparr>))"
  unfolding update_high_qc_def bind_act_call bind_act_modify assms
  by (cases c) (use assms in \<open>simp add: set_high_qc_def\<close>)

theorem high_qc_update_witness:
  "\<exists>c'. update_high_qc (AggregateQc [1] (StandardQc [1] 1) 3) (demo_at 3 2) = (Ok (), c') \<and>
     local_high_qc (demo_at 3 2) = Some (StandardQc [2] 2) \<and> local_high_qc c' = Some (StandardQc [1] 1)"
  using high_qc_update [of "demo_at 3 2" "StandardQc [2] 2" "[0]" 3 "[1]" "StandardQc [1] 1"] by (simp add: demo_at_def)

section \<open>Overlays\<close>

text \<open>
  C36: The committees of a tree partition the nodes: there are as many as asked for, they are disjoint,
  their sizes differ by at most one with the larger ones first, and the tables of the tree find for
  every node the one committee it is in and its identifier, the hash, and for other nodes nothing.
\<close>

theorem tree_committees:
  assumes "CarnotTree_init blake2b nodes (int k) = Ok t" and "distinct (inner_committees t)" and "distinct nodes"
  defines "cs \<equiv> split_committees nodes (int k)"
  shows "length cs = k \<and> \<Union> (set cs) = set nodes \<and>
    (\<forall>i j. i < j \<longrightarrow> j < k \<longrightarrow> cs ! i \<inter> cs ! j = {}) \<and>
    (\<forall>i<k. card (cs ! i) = length nodes div k + (if i < length nodes mod k then 1 else 0)) \<and>
    (\<forall>m. m \<in> set nodes \<longrightarrow> (\<exists>i<k. m \<in> cs ! i \<and> committee_by_member_id t m = Some (cs ! i) \<and>
       committee_id_by_member_id t m = Ok (blake2b_hash blake2b (cs ! i)))) \<and>
    (\<forall>m. m \<notin> set nodes \<longrightarrow> committee_by_member_id t m = None)"
proof -
  have tree: "tree_of blake2b nodes k t" using assms(1,2) by (simp add: tree_of_def)
  note t = tree_fields [OF tree]
  note part = committees_partition [OF assms(3) t(1), folded cs_def]
  have "\<exists>i<k. m \<in> cs ! i \<and> committee_by_member_id t m = Some (cs ! i) \<and>
      committee_id_by_member_id t m = Ok (blake2b_hash blake2b (cs ! i))" if m: "m \<in> set nodes" for m
  proof -
    obtain i where i: "i < k" "committees_by_member t m = Some (int i)" "m \<in> cs ! i" "committee_by_member_id t m = Some (cs ! i)"
      using committee_of_member(1) [OF tree, of m, folded cs_def] m part(2) by auto
    then have "committee_id_by_member_id t m = Ok (blake2b_hash blake2b (cs ! i))"
      using t(2,3) part(1) by (simp add: committee_id_by_member_id_def py_index_def cs_def)
    with i show ?thesis by blast
  qed
  moreover have "committee_by_member_id t m = None" if "m \<notin> set nodes" for m
    using committee_of_member(2) [OF tree, of m, folded cs_def] that part(2) by simp
  ultimately show ?thesis using part by blast
qed

theorem tree_committees_witness:
  "committee_by_member_id demo_tree [2] = Some {[2]} \<and> \<Union> (set (split_committees demo_names (int 3))) = {[1], [2], [3]}"
proof -
  have "distinct (inner_committees demo_tree)" "distinct demo_names" by (simp_all add: demo_tree_def demo_names_def)
  note part = tree_committees [OF demo_tree_init this]
  have "committee_by_member_id demo_tree [2] = Some {[2]}" by code_simp
  moreover have "set demo_names = {[1], [2], [3]}" by (simp add: demo_names_def)
  ultimately show ?thesis using part by simp
qed

text \<open>
  C37: The relations of the committee tree by index: the children of committee \<open>i\<close> are \<open>2 i + 1\<close> and
  \<open>2 i + 2\<close> where they exist, the root has no parent, and the parent that the tree computes for a right
  child is its own; for a left child it is the committee before it, so for every left child but the
  root's the computed parent does not have that child.
\<close>

theorem tree_relations:
  assumes "CarnotTree_init blake2b nodes (int k) = Ok t" and "distinct (inner_committees t)" and "i < k"
  shows "child_committees t (inner_committees t ! i) =
      Ok (if 2 * i + 1 < k then Some (inner_committees t ! (2 * i + 1)) else None,
          if 2 * i + 2 < k then Some (inner_committees t ! (2 * i + 2)) else None) \<and>
    tree_parent_committee t (inner_committees t ! 0) = Ok None \<and>
    (2 * i + 2 < k \<longrightarrow> tree_parent_committee t (inner_committees t ! (2 * i + 2)) = Ok (Some (inner_committees t ! i))) \<and>
    (2 * i + 1 < k \<longrightarrow> tree_parent_committee t (inner_committees t ! (2 * i + 1)) = Ok (Some (inner_committees t ! (i - 1))))"
proof -
  have tree: "tree_of blake2b nodes k t" using assms(1,2) by (simp add: tree_of_def)
  have half: "(2 * i + 2) div 2 - 1 = i" "(2 * i + 1) div 2 - 1 = i - 1" by simp_all
  show ?thesis
    using children_of [OF tree assms(3)] root_parent [OF tree] parent_index_of [OF tree, of "2 * i + 2"]
      parent_index_of [OF tree, of "2 * i + 1"] unfolding half by simp
qed

theorem tree_relations_witness:
  "child_committees demo_tree [1] = Ok (Some [2], Some [3]) \<and> tree_parent_committee demo_tree [3] = Ok (Some [1])"
  using tree_relations [OF demo_tree_init, of 0] by (simp add: demo_tree_def demo_names_def)

text \<open>
  C38: On a tree overlay only leaves can vote: the overlay's \<open>parent_committee\<close> returns nothing, so no
  node is ever the member of a child committee, and \<open>approve_block\<close> at a member outside the leaves,
  whose threshold is positive, raises \<open>AssertionError\<close> without effect for every block and all votes of
  nodes of the network.
\<close>

theorem tree_inner_members_cannot_vote:
  assumes "CarnotTree_init blake2b nodes (int k) = Ok (carnot_tree (overlay c))"
    and "distinct (inner_committees (carnot_tree (overlay c)))" and "distinct nodes"
    and "cid c \<in> set nodes" and "tov_is_leaf_member (overlay c) (cid c) = Ok False"
    and "\<forall>vote \<in> set votes. voter vote \<in> set nodes"
  shows "approve_block (tree_ops R) b votes c = (Err AssertionError, c)"
proof -
  have tree: "tree_of blake2b nodes k (carnot_tree (overlay c))" using assms(1,2) by (simp add: tree_of_def)
  have all: "\<Union> (set (split_committees nodes (int k))) = set nodes" by (rule committees_partition(2) [OF assms(3) tree_fields(1) [OF tree]])
  obtain C where "committee_by_member_id (carnot_tree (overlay c)) (cid c) = Some C"
    using committee_of_member(1) [OF tree, of "cid c"] assms(4) all by auto
  then have threshold: "ov_threshold (tree_ops R) (overlay c) (cid c) = Ok (int (card C) * 2 div 3 + 1)"
    using assms(5) by (simp add: tree_ops_def tov_threshold_def)
  have none: "ov_is_child_member (tree_ops R) (overlay c) (cid c) (voter vote) = Ok False" if "vote \<in> set votes" for vote
    using no_children(2) [OF tree, of "voter vote" "cid c"] that assms(4,6) all by (simp add: tree_ops_def)
  have "votes = [] \<Longrightarrow> int (length votes) \<noteq> int (card C) * 2 div 3 + 1" by simp
  then show ?thesis
    using threshold none by (cases votes) (auto simp: approve_block_def bind_assert_eq)
qed

theorem tree_inner_members_cannot_vote_witness:
  "approve_block (tree_ops demo_random) (demo_block 0) [demo_vote 0] ((demo_at (Suc 0) 0)\<lparr>cid := [1]\<rparr>) =
     (Err AssertionError, (demo_at (Suc 0) 0)\<lparr>cid := [1]\<rparr>)"
proof (rule tree_inner_members_cannot_vote [of "\<lambda>x. x" demo_names 3])
  have ov: "overlay ((demo_at (Suc 0) 0)\<lparr>cid := [1]\<rparr>) = demo_overlay" "cid ((demo_at (Suc 0) 0)\<lparr>cid := [1]\<rparr>) = [1]"
    by (simp_all add: demo_at_def)
  have tree: "carnot_tree demo_overlay = demo_tree" by (simp add: demo_overlay_def)
  show "CarnotTree_init (\<lambda>x. x) demo_names (int 3) = Ok (carnot_tree (overlay ((demo_at (Suc 0) 0)\<lparr>cid := [1]\<rparr>)))"
    unfolding ov tree by (rule demo_tree_init)
  show "distinct (inner_committees (carnot_tree (overlay ((demo_at (Suc 0) 0)\<lparr>cid := [1]\<rparr>))))" "distinct demo_names"
    unfolding ov tree by (simp_all add: demo_tree_def demo_names_def)
  show "cid ((demo_at (Suc 0) 0)\<lparr>cid := [1]\<rparr>) \<in> set demo_names" "\<forall>vote \<in> set [demo_vote 0]. voter vote \<in> set demo_names"
    unfolding ov by (simp_all add: demo_names_def demo_vote_def)
  have "tov_is_leaf_member demo_overlay [1] = Ok False" by code_simp
  then show "tov_is_leaf_member (overlay ((demo_at (Suc 0) 0)\<lparr>cid := [1]\<rparr>)) (cid ((demo_at (Suc 0) 0)\<lparr>cid := [1]\<rparr>)) = Ok False"
    unfolding ov .
qed

section \<open>Beacons\<close>

text \<open>
  C40: The beacon of a proposed block verifies wherever the block is received: at every node, whatever
  its last beacon is, \<open>verify_happy\<close> with the key and the certificate of the block accepts the beacon and
  makes it the last one. The proposal changes nothing at the proposer. That signatures verify under the
  public key is what blspy documents.
\<close>

theorem proposed_beacon_verifies:
  assumes "signatures_verify B (sk s)" and "node_pk s = bls_g1 B (sk s)"
    and "beaconized_propose_block B ops h v q s = (Ok block, s')"
  shows "verify_happy B (bbeacon block) (bpk block) (qc_view (bqc (bblock block))) handler =
      (Ok True, handler\<lparr>last_beacon := bbeacon block\<rparr>) \<and> s' = s"
  using normal_beacon_verifies [OF assms(1)] beaconized_proposal [OF assms(3)] assms(2) by simp

definition demo_bls :: "(bytes, bytes, bytes) Bls" where
  "demo_bls = \<lparr>bls_g1 = (\<lambda>k. k), bls_sign = (\<lambda>k m. k @ m), G1_from_bytes = Ok, G2_from_bytes = Ok,
     bls_verify = (\<lambda>pk m s. s = pk @ m)\<rparr>"

definition demo_flat :: FlatOverlay where
  "demo_flat = \<lparr>flat_leader = [1], flat_nodes = demo_names, flat_entropy = []\<rparr>"

definition demo_leader :: "(FlatOverlay, bytes) BeaconizedCarnot" where
  "demo_leader = \<lparr>node = (Carnot_init [1] demo_flat)\<lparr>safe_blocks := [([0], demo_genesis)]\<rparr>, sk = [1], node_pk = [1],
     random_beacon = \<lparr>last_beacon = \<lparr>version = 0, beacon_sig = []\<rparr>\<rparr>\<rparr>"

definition demo_quorum :: Quorum where
  "demo_quorum = Votes (map (\<lambda>i. \<lparr>vblock = [0], vview = 0, voter = i, vqc = None\<rparr>) demo_names)"

theorem proposed_beacon_verifies_witness:
  "verify_happy demo_bls \<lparr>version = 0, beacon_sig = [1]\<rparr> [1] 0 (random_beacon demo_leader) =
     (Ok True, \<lparr>last_beacon = \<lparr>version = 0, beacon_sig = [1]\<rparr>\<rparr>)"
proof -
  have sig: "signatures_verify demo_bls (sk demo_leader)" by (simp add: signatures_verify_def demo_bls_def)
  have key: "node_pk demo_leader = bls_g1 demo_bls (sk demo_leader)" by (simp add: demo_leader_def demo_bls_def)
  have "beaconized_propose_block demo_bls (flat_ops demo_random) demo_hash 1 demo_quorum demo_leader =
      (Ok \<lparr>bblock = \<lparr>bview = 1, bqc = StandardQc [0] 0, bid = dummy_block_id demo_hash 1 0\<rparr>,
           bbeacon = \<lparr>version = 0, beacon_sig = [1]\<rparr>, bpk = [1]\<rparr>, demo_leader)"
    by (simp add: beaconized_propose_block_def bind_act_def as_carnot_apply propose_block_def assert_act_def flat_ops_def
        demo_leader_def demo_flat_def demo_quorum_def demo_names_def demo_bls_def demo_defs py_index_def get_item_def
        build_qc_def attr_def normal_generate_def view_to_bytes_def signed_bytes_le_def bit_length_def VERSION_def)
  from proposed_beacon_verifies [OF sig key this, of "random_beacon demo_leader"] show ?thesis
    by (simp add: demo_leader_def)
qed

text \<open>
  A beaconized node never takes a recovery beacon: \<open>receive_timeout_qc\<close> does exactly what the
  inherited method does, because its guard compares the timeout with the view that the inherited method
  has already moved past it. The beacon and the overlay stay as they are.
\<close>

theorem recovery_beacon_unused:
  "beaconized_receive_timeout_qc sha256 adv t s = as_carnot (receive_timeout_qc t) s \<and>
   random_beacon (snd (beaconized_receive_timeout_qc sha256 adv t s)) = random_beacon s \<and>
   overlay (node (snd (beaconized_receive_timeout_qc sha256 adv t s))) = overlay (node s)"
  by (simp add: timeout_without_beacon as_carnot_apply receive_timeout_qc_overlay)

text \<open>
  A view is encoded so that the signed little-endian bytes decode to it, except where its magnitude
  fills its last byte: then no bit is left for the sign and the encoding raises \<open>OverflowError\<close>, as for
  the views 128 to 255, 32768 to 65535 and so on.
\<close>

theorem view_bytes:
  "if no_sign_bit v then view_to_bytes v = Err OverflowError else \<exists>bs. view_to_bytes v = Ok bs \<and> signed_value bs = v"
  by (rule view_to_bytes_cases)

section \<open>Committee sizes\<close>

text \<open>C39: The search for committee sizes stops before the first odd number of committees that is too
  risky. It returns a split of all nodes into an odd number of committees of a size and of one more; the
  probability of failure of that number, and of every smaller odd number from 3 on, is below the threshold
  while that of the next odd number is not. It runs forever exactly when every odd number stays below.\<close>

theorem committee_search:
  assumes "0 < ft"
  shows "case compute_optimal_number_of_committees_and_committee_size B n ft ct nt of
      Ok (c, sz, rem, p) \<Rightarrow> odd c \<and> c * sz + rem = n \<and> 0 \<le> rem \<and> rem < c \<and> p < ft \<and>
        (if c = 1 then p = 0 else (c, sz, rem, p) = next_split B ct nt n (c div 2)) \<and>
        (\<forall>k::nat. 0 < k \<longrightarrow> 2 * int k + 1 \<le> c \<longrightarrow> snd (snd (snd (next_split B ct nt n (int k)))) < ft) \<and>
        ft \<le> snd (snd (snd (next_split B ct nt n ((c + 1) div 2))))
    | Err e \<Rightarrow> False
    | Diverge \<Rightarrow> \<forall>k::nat. 0 < k \<longrightarrow> snd (snd (snd (next_split B ct nt n (int k)))) < ft"
proof (cases "\<exists>j. too_risky B ft ct nt n j")
  case True
  define j where "j = (LEAST j. too_risky B ft ct nt n j)"
  have j: "too_risky B ft ct nt n j" using True unfolding j_def by (auto intro: LeastI)
  have less: "\<not> too_risky B ft ct nt n i" if "i < j" for i using not_less_Least that unfolding j_def by blast
  have "\<not> too_risky B ft ct nt n 0" using assms by (simp add: too_risky_def candidate_def)
  then obtain d where d: "j = Suc d" using j by (cases j) auto
  obtain c sz rem p where c: "candidate B ct nt n d = (c, sz, rem, p)" by (metis prod_cases4)
  have ceq: "c = 2 * int d + 1" using candidate_split [OF c] by blast
  have "p < ft" using less [of d] d c by (simp add: too_risky_def)
  moreover have "if c = 1 then p = 0 else (c, sz, rem, p) = next_split B ct nt n (c div 2)"
    using c ceq by (auto simp: candidate_def split: if_splits)
  moreover have "\<forall>k::nat. 0 < k \<longrightarrow> 2 * int k + 1 \<le> c \<longrightarrow> snd (snd (snd (next_split B ct nt n (int k)))) < ft"
  proof (intro allI impI)
    fix k :: nat
    assume k: "0 < k" "2 * int k + 1 \<le> c"
    then have "k < j" using ceq d by simp
    from less [OF this] k(1) show "snd (snd (snd (next_split B ct nt n (int k)))) < ft"
      by (simp add: too_risky_def candidate_def)
  qed
  moreover have "(c + 1) div 2 = int (Suc d)" using ceq by simp
  then have "ft \<le> snd (snd (snd (next_split B ct nt n ((c + 1) div 2))))" using j d by (simp add: too_risky_def candidate_def)
  moreover have "odd c" using ceq by simp
  moreover have "compute_optimal_number_of_committees_and_committee_size B n ft ct nt = Ok (c, sz, rem, p)"
    using search_result [OF assms, of B n ct nt] True c d by (simp add: j_def [symmetric])
  ultimately show ?thesis using conjunct2 [OF candidate_split [OF c]] by (simp only: res.case prod.case simp_thms)
next
  case False
  then have "snd (snd (snd (next_split B ct nt n (int k)))) < ft" if "0 < k" for k
    using that by (auto simp: too_risky_def candidate_def split: if_splits)
  then show ?thesis using search_result [OF assms, of B n ct nt] False by simp
qed

theorem committee_search_witness:
  "\<exists>c sz rem p. compute_optimal_number_of_committees_and_committee_size
      \<lparr>binom_cdf = \<lambda>_ sz _. if sz < 4 then 0 else 1, float_ipow = \<lambda>x k. x ^ nat k\<rparr> 13 (1 / 2) (1 / 3) (1 / 4) = Ok (c, sz, rem, p) \<and>
    odd c \<and> c * sz + rem = 13 \<and> c = 3"
proof -
  let ?B = "\<lparr>binom_cdf = \<lambda>_ sz _. if sz < 4 then 0 else 1, float_ipow = \<lambda>x k. x ^ nat k\<rparr>"
  have risk: "snd (snd (snd (next_split ?B (1 / 3) (1 / 4) 13 1))) = 0" "snd (snd (snd (next_split ?B (1 / 3) (1 / 4) 13 2))) = 1"
    by code_simp+
  have loop: "compute_optimal_number_of_committees_and_committee_size ?B 13 (1 / 2) (1 / 3) (1 / 4) = Ok (next_split ?B (1 / 3) (1 / 4) 13 1)"
    unfolding compute_optimal_number_of_committees_and_committee_size_def
    by (simp add: committee_loop.simps risk)
  obtain sz rem p where split: "next_split ?B (1 / 3) (1 / 4) 13 1 = (3, sz, rem, p)" by (simp add: next_split_def Let_def)
  then show ?thesis using committee_search [where ft = "1 / 2" and B = ?B and n = 13 and ct = "1 / 3" and nt = "1 / 4"] loop by simp
qed

end
