(* ===== verification/Modular.thy ===== *)
theory Modular
  imports Prelude
begin

text \<open>
  Arithmetic modulo a prime, as Python's \<open>pow\<close> does it, and the facts on it that the field elements of
  src/da rest on: inverses, Fermat's theorem, and polynomials as lists of coefficients.
\<close>

section \<open>Primes and inverses\<close>

definition prime_modulus :: "int \<Rightarrow> bool" where
  "prime_modulus p \<longleftrightarrow> 1 < p \<and> (\<forall>d. 0 < d \<longrightarrow> d dvd p \<longrightarrow> d = 1 \<or> d = p)"

lemma prime_coprime: "prime_modulus p \<Longrightarrow> \<not> p dvd a \<Longrightarrow> coprime a p"
proof -
  assume p: "prime_modulus p" and a: "\<not> p dvd a"
  have "0 < gcd a p" using p by (auto simp: prime_modulus_def intro: le_neq_trans)
  then have "gcd a p = 1 \<or> gcd a p = p" using p by (auto simp: prime_modulus_def)
  moreover have "gcd a p \<noteq> p" using a by (metis gcd_dvd1)
  ultimately show "coprime a p" by (simp add: coprime_iff_gcd_eq_1)
qed

lemma prime_dvd_mult: "prime_modulus p \<Longrightarrow> p dvd a * b \<longleftrightarrow> p dvd a \<or> p dvd b"
  using prime_coprime by (metis coprime_commute coprime_dvd_mult_right_iff dvd_mult dvd_mult2)

lemma prime_dvd_power: "prime_modulus p \<Longrightarrow> p dvd a ^ n \<Longrightarrow> p dvd a"
  by (induction n) (auto simp: prime_dvd_mult prime_modulus_def)

text \<open>\<open>pow(a, -1, m)\<close>.\<close>

definition mod_inverse :: "int \<Rightarrow> int \<Rightarrow> (exn, int) res" where
  "mod_inverse a m =
     (if 0 < m \<and> coprime a m then Ok (fst (bezw (nat (a mod m)) (nat m)) mod m) else Err ValueError)"

lemma mod_inverse_Ok:
  assumes "mod_inverse a m = Ok b"
  shows "0 < m" and "a * b mod m = 1 mod m" and "0 \<le> b" and "b < m"
proof -
  from assms have m: "0 < m" "coprime a m" and b: "b = fst (bezw (nat (a mod m)) (nat m)) mod m"
    by (auto simp: mod_inverse_def split: if_splits)
  show "0 < m" "0 \<le> b" "b < m" using m(1) b by simp_all
  have "int (gcd (nat (a mod m)) (nat m)) = gcd (a mod m) m"
    unfolding gcd_int_int_eq [symmetric] using m(1) by simp
  also have "\<dots> = gcd a m" by (metis gcd.commute gcd_red_int)
  finally have "gcd (nat (a mod m)) (nat m) = 1" using m(2) by (simp add: coprime_iff_gcd_eq_1)
  then have "fst (bezw (nat (a mod m)) (nat m)) * (a mod m) + snd (bezw (nat (a mod m)) (nat m)) * m = 1"
    using bezw_aux [of "nat (a mod m)" "nat m"] m(1) by simp
  then have "(fst (bezw (nat (a mod m)) (nat m)) * (a mod m)) mod m = 1 mod m" by (metis mod_mult_self1)
  then show "a * b mod m = 1 mod m" unfolding b by (simp add: mod_simps mult.commute)
qed

lemma mod_inverse_ok: "prime_modulus p \<Longrightarrow> \<not> p dvd a \<Longrightarrow> \<exists>b. mod_inverse a p = Ok b"
  using prime_coprime by (auto simp: mod_inverse_def prime_modulus_def)

lemma mod_minus_mult: "(a - c * (b mod m)) mod m = (a - c * b) mod (m :: int)"
  by (metis mod_diff_right_eq mod_mult_right_eq)

lemma mod_plus_mult: "(a + c * (b mod m)) mod m = (a + c * b) mod (m :: int)"
  by (metis mod_add_right_eq mod_mult_right_eq)

lemma mod_power_cong: "a mod m = b mod m \<Longrightarrow> a ^ n mod m = b ^ n mod (m :: int)"
  by (metis power_mod)

lemma sum_mod_cong:
  assumes "\<And>i. i \<in> A \<Longrightarrow> f i mod m = g i mod m"
  shows "sum f A mod m = sum g A mod (m :: int)"
proof -
  have "(\<Sum>i\<in>A. f i mod m) = (\<Sum>i\<in>A. g i mod m)" by (rule sum.cong) (simp_all add: assms)
  then show ?thesis using mod_sum_eq [of f m A] mod_sum_eq [of g m A] by simp
qed

section \<open>Fermat's theorem\<close>

lemma prime_dvd_binomial:
  assumes "prime_modulus (int p)" and "0 < k" and "k < p"
  shows "int p dvd int (p choose k)"
proof -
  have "k * (p choose k) = p * ((p - 1) choose (k - 1))"
    using assms(2,3) by (metis times_binomial_minus1_eq)
  then have "int p dvd int k * int (p choose k)" by (metis dvd_triv_left of_nat_mult)
  moreover have "\<not> int p dvd int k" using assms(2,3) by (metis nat_dvd_not_less of_nat_dvd_iff)
  ultimately show ?thesis using prime_dvd_mult [OF assms(1)] by blast
qed

lemma fermat_nat:
  assumes "prime_modulus (int p)"
  shows "int p dvd int a ^ p - int a"
proof (induction a)
  case 0
  have "0 < p" using assms by (simp add: prime_modulus_def)
  then show ?case by (simp add: power_0_left)
next
  case (Suc a)
  have p: "1 < p" using assms by (simp add: prime_modulus_def)
  have "(int a + 1) ^ p = (\<Sum>k\<le>p. int (p choose k) * int a ^ k)"
    by (simp add: binomial_ring)
  also have "{..p} = insert 0 (insert p {1..<p})" using p by auto
  also have "(\<Sum>k\<in>insert 0 (insert p {1..<p}). int (p choose k) * int a ^ k) =
      1 + int a ^ p + (\<Sum>k = 1..<p. int (p choose k) * int a ^ k)" using p by simp
  finally have eq: "(int a + 1) ^ p = 1 + int a ^ p + (\<Sum>k = 1..<p. int (p choose k) * int a ^ k)" .
  have "int p dvd (\<Sum>k = 1..<p. int (p choose k) * int a ^ k)"
    by (intro dvd_sum dvd_mult2 prime_dvd_binomial [OF assms]) auto
  then have "int p dvd (int a ^ p - int a) + (\<Sum>k = 1..<p. int (p choose k) * int a ^ k)" using Suc by (rule dvd_add [rotated])
  then show ?case using eq by (simp add: algebra_simps)
qed

lemma fermat:
  assumes "prime_modulus p" and "\<not> p dvd a"
  shows "a ^ (nat p - 1) mod p = 1"
proof -
  have p: "1 < p" "int (nat p) = p" using assms(1) by (simp_all add: prime_modulus_def)
  define b where "b = nat (a mod p)"
  have b: "int b = a mod p" using p by (simp add: b_def)
  have "p dvd int b ^ nat p - int b" using fermat_nat [of "nat p" b] assms(1) p(2) by simp
  moreover have "int b ^ nat p - int b = int b * (int b ^ (nat p - 1) - 1)"
    using p(1) by (cases "nat p") (simp_all add: algebra_simps)
  moreover have "\<not> p dvd int b" using assms(2) b by (simp add: dvd_mod_iff)
  ultimately have "p dvd int b ^ (nat p - 1) - 1" using prime_dvd_mult [OF assms(1)] by simp
  then have "int b ^ (nat p - 1) mod p = 1" using p(1) by (metis mod_eq_dvd_iff mod_pos_pos_trivial zero_le_one)
  then show ?thesis unfolding b by (simp add: power_mod)
qed

section \<open>Lists of coefficients\<close>

text \<open>The value of a polynomial, lowest coefficient first, and lists of reduced coefficients.\<close>

fun peval :: "int list \<Rightarrow> int \<Rightarrow> int" where
  "peval [] x = 0"
| "peval (c # cs) x = c + x * peval cs x"

definition reduced :: "int \<Rightarrow> int list \<Rightarrow> bool" where
  "reduced p cs \<longleftrightarrow> (\<forall>c \<in> set cs. 0 \<le> c \<and> c < p)"

lemma reduced_simps [simp]: "reduced p []" "reduced p (c # cs) \<longleftrightarrow> 0 \<le> c \<and> c < p \<and> reduced p cs"
    "reduced p (cs @ ds) \<longleftrightarrow> reduced p cs \<and> reduced p ds"
  by (auto simp: reduced_def)

lemma reduced_mod [simp]: "0 < p \<Longrightarrow> reduced p (map (\<lambda>c. f c mod p) cs)"
  by (simp add: reduced_def)

lemma peval_append: "peval (cs @ ds) x = peval cs x + x ^ length cs * peval ds x"
  by (induction cs) (simp_all add: algebra_simps)

lemma peval_zeros [simp]: "peval (replicate n 0) x = 0"
  by (induction n) simp_all

lemma peval_sum: "peval cs x = (\<Sum>i<length cs. cs ! i * x ^ i)"
proof (induction cs)
  case (Cons c cs)
  have "(\<Sum>i<length (c # cs). (c # cs) ! i * x ^ i) = c + (\<Sum>i<length cs. cs ! i * x ^ Suc i)"
    unfolding length_Cons sum.lessThan_Suc_shift by simp
  also have "(\<Sum>i<length cs. cs ! i * x ^ Suc i) = x * (\<Sum>i<length cs. cs ! i * x ^ i)"
    by (simp add: sum_distrib_left algebra_simps)
  finally show ?case using Cons by simp
qed simp

lemma peval_mod: "peval (map (\<lambda>c. c mod p) cs) x mod p = peval cs x mod p"
proof (induction cs)
  case (Cons c cs)
  have "x * peval (map (\<lambda>c. c mod p) cs) x mod p = x * peval cs x mod p" by (rule mod_mult_cong [OF refl Cons.IH])
  then have "(c mod p + x * peval (map (\<lambda>c. c mod p) cs) x) mod p = (c + x * peval cs x) mod p"
    by (intro mod_add_cong) simp_all
  then show ?case by simp
qed simp

lemma peval_cong: "x mod p = y mod p \<Longrightarrow> peval cs x mod p = peval cs y mod p"
proof (induction cs)
  case (Cons c cs)
  have "x * peval cs x mod p = y * peval cs y mod p" by (rule mod_mult_cong [OF Cons.prems Cons.IH [OF Cons.prems]])
  then show ?case by (metis mod_add_right_eq peval.simps(2))
qed simp

text \<open>A polynomial of degree below \<open>n\<close> with \<open>n\<close> roots is zero.\<close>

fun synthetic :: "int list \<Rightarrow> int \<Rightarrow> int list" where
  "synthetic [] u = []"
| "synthetic [c] u = []"
| "synthetic (c # d # cs) u = peval (d # cs) u # synthetic (d # cs) u"

lemma length_synthetic [simp]: "length (synthetic cs u) = length cs - 1"
  by (induction cs u rule: synthetic.induct) simp_all

lemma synthetic_eval: "peval cs x = peval cs u + (x - u) * peval (synthetic cs u) x"
proof (induction cs u rule: synthetic.induct)
  case (3 c d cs u)
  have "peval (c # d # cs) x = c + x * peval (d # cs) x" by simp
  also have "\<dots> = c + x * (peval (d # cs) u + (x - u) * peval (synthetic (d # cs) u) x)" using 3 by metis
  also have "\<dots> = c + u * peval (d # cs) u + (x - u) * (peval (d # cs) u + x * peval (synthetic (d # cs) u) x)"
    by (simp add: algebra_simps del: peval.simps)
  finally show ?case by simp
qed simp_all

lemma synthetic_zero:
  assumes "\<forall>c \<in> set (synthetic cs u). p dvd c" and "p dvd peval cs u"
  shows "\<forall>c \<in> set cs. p dvd c"
  using assms
proof (induction cs u rule: synthetic.induct)
  case (3 c d cs u)
  have d: "p dvd peval (d # cs) u" and "\<forall>c \<in> set (synthetic (d # cs) u). p dvd c" using "3.prems"(1) by simp_all
  then have "\<forall>c \<in> set (d # cs). p dvd c" using "3.IH" by blast
  moreover have "p dvd c" using "3.prems"(2) d by (simp only: peval.simps(2) [of c]) (metis dvd_add_left_iff dvd_mult)
  ultimately show ?case by simp
qed simp_all

lemma too_many_roots:
  assumes "prime_modulus p" and "distinct (map (\<lambda>x. x mod p) us)" and "length cs \<le> length us"
    and "\<forall>u \<in> set us. p dvd peval cs u"
  shows "\<forall>c \<in> set cs. p dvd c"
  using assms(2-)
proof (induction us arbitrary: cs)
  case (Cons u us)
  show ?case
  proof (rule synthetic_zero)
    show "p dvd peval cs u" using Cons.prems(3) by simp
    show "\<forall>c \<in> set (synthetic cs u). p dvd c"
    proof (rule Cons.IH)
      show "distinct (map (\<lambda>x. x mod p) us)" "length (synthetic cs u) \<le> length us" using Cons.prems(1,2) by auto
      show "\<forall>v \<in> set us. p dvd peval (synthetic cs u) v"
      proof
        fix v
        assume v: "v \<in> set us"
        have "p dvd peval cs u + (v - u) * peval (synthetic cs u) v"
          using Cons.prems(3) v unfolding synthetic_eval [of cs v u, symmetric] by simp
        then have "p dvd (v - u) * peval (synthetic cs u) v" using \<open>p dvd peval cs u\<close> by (simp add: dvd_add_right_iff)
        moreover have "\<not> p dvd v - u" using Cons.prems(1) imageI [OF v, of "\<lambda>x. x mod p"] by (auto simp: mod_eq_dvd_iff [symmetric])
        ultimately show "p dvd peval (synthetic cs u) v" using prime_dvd_mult [OF assms(1)] by blast
      qed
    qed
  qed
qed simp

lemma peval_minus: "length cs = length ds \<Longrightarrow> peval (map2 (\<lambda>c d. c - d) cs ds) x = peval cs x - peval ds x"
  by (induction cs ds rule: list_induct2) (simp_all add: right_diff_distrib)

text \<open>Equal values at enough points: equal coefficients.\<close>

lemma interpolation_unique:
  assumes "prime_modulus p" and "distinct (map (\<lambda>x. x mod p) us)" and "length cs = length us" and "length ds = length us"
    and "\<forall>u \<in> set us. peval cs u mod p = peval ds u mod p" and "reduced p cs" and "reduced p ds"
  shows "cs = ds"
proof -
  let ?e = "map2 (\<lambda>c d. c - d) cs ds"
  have len: "length cs = length ds" using assms(3,4) by simp
  have "\<forall>c \<in> set ?e. p dvd c"
    by (rule too_many_roots [OF assms(1,2)]) (use assms(3-5) len in \<open>auto simp: peval_minus mod_eq_dvd_iff\<close>)
  then have "\<forall>i<length cs. p dvd cs ! i - ds ! i" using len by (auto simp: set_conv_nth)
  moreover have "p dvd a - b \<Longrightarrow> a = b" if "0 \<le> a" "a < p" "0 \<le> b" "b < p" for a b
    using that by (metis mod_eq_dvd_iff mod_pos_pos_trivial)
  ultimately show ?thesis using len assms(6,7) by (intro nth_equalityI) (auto simp: reduced_def)
qed

end
