(* ===== verification/Field_Poly.thy ===== *)
theory Field_Poly
  imports Modular
begin

text \<open>
  da/kzg_rs/poly.py: polynomials with coefficients modulo a number, lowest coefficient first.

  The modulus is positive wherever the code makes a polynomial. \<open>interpolate_polynomialcoeff\<close> of the
  consensus specification is the parameter \<open>interp\<close>, from points and values to coefficients.

  The long division of the code inserts each new factor in front of the quotient, but pops all leading
  zeros of the remainder at once: where that skips a degree, the quotient gets no zero. Against
  the division by hand (\<open>long_division\<close>) it therefore computes the right remainder and, instead of the
  quotient, its nonzero coefficients (\<open>divide_loop_eq\<close>).
\<close>

section \<open>The operations\<close>

record Polynomial =
  coefficients :: "int list"
  poly_modulus :: int

definition poly_len :: "Polynomial \<Rightarrow> int" where
  "poly_len p = int (length (coefficients p))"

definition poly_getitem :: "Polynomial \<Rightarrow> int \<Rightarrow> (exn, int) res" where
  "poly_getitem p i = py_index (coefficients p) i"

definition poly_equal :: "Polynomial \<Rightarrow> Polynomial \<Rightarrow> bool" where
  "poly_equal p q \<longleftrightarrow> coefficients p = coefficients q \<and> poly_modulus p = poly_modulus q"

lemma poly_equal_eq: "poly_equal p q \<longleftrightarrow> p = q"
  by (cases p; cases q) (simp add: poly_equal_def)

text \<open>\<open>itertools.zip_longest\<close>.\<close>

fun zip_longest :: "'a \<Rightarrow> 'a list \<Rightarrow> 'a list \<Rightarrow> ('a \<times> 'a) list" where
  "zip_longest z [] ys = map (\<lambda>y. (z, y)) ys"
| "zip_longest z (x # xs) [] = (x, z) # zip_longest z xs []"
| "zip_longest z (x # xs) (y # ys) = (x, y) # zip_longest z xs ys"

definition poly_add :: "Polynomial \<Rightarrow> Polynomial \<Rightarrow> Polynomial" where
  "poly_add p q = \<lparr>coefficients = map (\<lambda>(a, b). (a + b) mod poly_modulus p) (zip_longest 0 (coefficients p) (coefficients q)),
     poly_modulus = poly_modulus p\<rparr>"

definition poly_sub :: "Polynomial \<Rightarrow> Polynomial \<Rightarrow> Polynomial" where
  "poly_sub p q = \<lparr>coefficients = map (\<lambda>(a, b). (a - b) mod poly_modulus p) (zip_longest 0 (coefficients p) (coefficients q)),
     poly_modulus = poly_modulus p\<rparr>"

definition mul_row :: "int \<Rightarrow> int list \<Rightarrow> int list \<Rightarrow> nat \<Rightarrow> int list \<Rightarrow> int list" where
  "mul_row m as bs i result = foldl (\<lambda>r j. r[i + j := (r ! (i + j) + as ! i * bs ! j) mod m]) result [0..<length bs]"

definition poly_mul :: "Polynomial \<Rightarrow> Polynomial \<Rightarrow> Polynomial" where
  "poly_mul p q =
     (let as = coefficients p; bs = coefficients q
      in \<lparr>coefficients = foldl (\<lambda>r i. mul_row (poly_modulus p) as bs i r) (replicate (length as + length bs - 1) 0) [0..<length as],
          poly_modulus = poly_modulus p\<rparr>)"

definition poly_neg :: "Polynomial \<Rightarrow> Polynomial" where
  "poly_neg p = \<lparr>coefficients = map (\<lambda>c. - 1 * c) (coefficients p), poly_modulus = poly_modulus p\<rparr>"

text \<open>\<open>eval\<close>, with \<open>pow(x, i, mod=m)\<close>.\<close>

definition poly_eval :: "Polynomial \<Rightarrow> int \<Rightarrow> (exn, int) res" where
  "poly_eval p x = (case coefficients p of
       [] \<Rightarrow> Err IndexError
     | c # cs \<Rightarrow> Ok ((c + sum_list (map (\<lambda>(i, a). x ^ i mod poly_modulus p * a) (zip [1..<Suc (length cs)] cs))) mod poly_modulus p))"

definition evaluation_form :: "int list \<Rightarrow> Polynomial \<Rightarrow> (exn, int list) res" where
  "evaluation_form roots p =
     map_res (\<lambda>i. bind_res (py_index roots i) (poly_eval p)) [0..poly_len p - 1]"

text \<open>Division.\<close>

definition sub_shifted :: "int \<Rightarrow> int list \<Rightarrow> int list \<Rightarrow> int \<Rightarrow> int list" where
  "sub_shifted m remainder divisor factor =
     (let k = length remainder - length divisor
      in take k remainder @ map2 (\<lambda>r d. (r - d * factor) mod m) (drop k remainder) divisor)"

definition pop_zeros :: "int list \<Rightarrow> int list" where
  "pop_zeros xs = rev (dropWhile (\<lambda>c. c = 0) (rev xs))"

lemma pop_zeros_snoc [simp]: "pop_zeros [] = []" "pop_zeros (xs @ [c]) = (if c = 0 then pop_zeros xs else xs @ [c])"
  by (simp_all add: pop_zeros_def)

lemma length_pop_zeros: "length (pop_zeros xs) \<le> length xs"
  using length_dropWhile_le [of "\<lambda>c. c = 0" "rev xs"] by (simp add: pop_zeros_def)

lemma last_sub_shifted:
  assumes "divisor \<noteq> []" and "length divisor \<le> length remainder" and "mod_inverse (last divisor) m = Ok di"
  shows "sub_shifted m remainder divisor (last remainder * di mod m) =
    butlast (sub_shifted m remainder divisor (last remainder * di mod m)) @ [0]"
    and "length (sub_shifted m remainder divisor f) = length remainder"
proof -
  show len: "length (sub_shifted m remainder divisor f) = length remainder" for f
    using assms(2) by (simp add: sub_shifted_def Let_def)
  let ?s = "sub_shifted m remainder divisor (last remainder * di mod m)"
  have "remainder \<noteq> []" using assms(1,2) by auto
  then have ne: "?s \<noteq> []" using len by (metis length_0_conv)
  have k: "\<not> length remainder \<le> length remainder - length divisor" using assms(1,2) by (cases divisor) auto
  have "last ?s = (last remainder - last divisor * (last remainder * di mod m)) mod m"
    using assms(1,2) \<open>remainder \<noteq> []\<close> k by (auto simp: sub_shifted_def Let_def last_append last_map last_zip zip_eq_Nil_iff)
  also have "\<dots> = (last remainder - last remainder * (last divisor * di mod m)) mod m"
    unfolding mod_minus_mult by (simp add: ac_simps)
  also have "\<dots> = 0" unfolding mod_inverse_Ok(2) [OF assms(3)] mod_minus_mult by simp
  finally show "?s = butlast ?s @ [0]" using ne by (metis append_butlast_last_id)
qed

function divide_loop :: "int \<Rightarrow> int list \<Rightarrow> int list \<Rightarrow> int list \<Rightarrow> (exn, int list \<times> int list) res" where
  "divide_loop m divisor quot remainder =
     (if length divisor \<le> length remainder
      then if divisor = [] then Err IndexError
      else bind_res (mod_inverse (last divisor) m) (\<lambda>di.
        let factor = last remainder * di mod m
        in divide_loop m divisor (factor # quot) (pop_zeros (sub_shifted m remainder divisor factor)))
      else Ok (quot, remainder))"
  by pat_completeness auto

termination
proof (relation "measure (\<lambda>(m, divisor, quot, remainder). length remainder)", goal_cases)
  case (2 m divisor quot remainder di factor)
  let ?s = "sub_shifted m remainder divisor factor"
  have s: "?s = butlast ?s @ [0]" and len: "length ?s = length remainder"
    using last_sub_shifted [of divisor remainder m di] 2 by auto
  have "length (pop_zeros ?s) \<le> length (butlast ?s)" by (subst s) (simp only: pop_zeros_snoc if_True simp_thms length_pop_zeros)
  moreover have "length remainder - 1 < length remainder" using 2 by (cases remainder) auto
  ultimately show ?case using len by simp
qed simp

declare divide_loop.simps [simp del]

definition divide :: "Polynomial \<Rightarrow> Polynomial \<Rightarrow> (exn, Polynomial \<times> Polynomial) res" where
  "divide p q = bind_res (divide_loop (poly_modulus p) (coefficients q) [] (coefficients p)) (\<lambda>(quot, remainder).
     Ok (\<lparr>coefficients = quot, poly_modulus = poly_modulus p\<rparr>,
         \<lparr>coefficients = remainder, poly_modulus = poly_modulus p\<rparr>))"

section \<open>Interpolation\<close>

definition interpolate :: "(int list \<Rightarrow> int list \<Rightarrow> (exn, int list) res) \<Rightarrow> int list \<Rightarrow> int list \<Rightarrow> (exn, int list) res" where
  "interpolate interp evaluations roots = interp (py_slice 0 (int (length evaluations)) roots) evaluations"

definition from_evaluations ::
    "(int list \<Rightarrow> int list \<Rightarrow> (exn, int list) res) \<Rightarrow> int list \<Rightarrow> int \<Rightarrow> int list \<Rightarrow> (exn, Polynomial) res" where
  "from_evaluations interp evaluations m roots =
     bind_res (interpolate interp evaluations roots) (\<lambda>cs.
       Ok \<lparr>coefficients = map (\<lambda>x. x mod m) cs, poly_modulus = m\<rparr>)"

section \<open>Values\<close>

lemma powers_sum: "sum_list (map (\<lambda>(i, a). x ^ i mod m * a) (zip [k..<k + length cs] cs)) mod m = x ^ k * peval cs x mod m"
proof (induction cs arbitrary: k)
  case (Cons c cs)
  have up: "[k..<k + length (c # cs)] = k # [Suc k..<Suc k + length cs]"
    using upt_conv_Cons [of k "k + Suc (length cs)"] by simp
  have "(x ^ k mod m * c + sum_list (map (\<lambda>(i, a). x ^ i mod m * a) (zip [Suc k..<Suc k + length cs] cs))) mod m =
      (x ^ k * c + x ^ Suc k * peval cs x) mod m"
    by (rule mod_add_cong [OF _ Cons.IH]) (simp add: mod_mult_left_eq)
  then show ?case unfolding up by (simp add: algebra_simps)
qed simp

lemma poly_eval_eq:
  assumes "coefficients p \<noteq> []"
  shows "poly_eval p x = Ok (peval (coefficients p) x mod poly_modulus p)"
proof -
  obtain c cs where cs: "coefficients p = c # cs" using assms by (cases "coefficients p") auto
  have "(c + sum_list (map (\<lambda>(i, a). x ^ i mod poly_modulus p * a) (zip [1..<1 + length cs] cs))) mod poly_modulus p =
      (c + x ^ 1 * peval cs x) mod poly_modulus p"
    by (rule mod_add_cong [OF refl powers_sum])
  then show ?thesis by (simp add: poly_eval_def cs)
qed

lemma eval_list: "coefficients p \<noteq> [] \<Longrightarrow> map_res (poly_eval p) xs = Ok (map (\<lambda>x. peval (coefficients p) x mod poly_modulus p) xs)"
  by (rule map_res_Ok) (rule poly_eval_eq)

lemma evaluation_form_eq:
  assumes "length (coefficients p) \<le> length roots"
  shows "evaluation_form roots p =
    Ok (map (\<lambda>x. peval (coefficients p) x mod poly_modulus p) (take (length (coefficients p)) roots))"
proof (cases "coefficients p = []")
  case True
  then show ?thesis by (simp add: evaluation_form_def poly_len_def)
next
  case False
  have "evaluation_form roots p = Ok (map (\<lambda>i. peval (coefficients p) (roots ! nat i) mod poly_modulus p) [0..int (length (coefficients p)) - 1])"
    unfolding evaluation_form_def poly_len_def by (rule map_res_Ok) (use False assms in \<open>auto simp: py_index_def poly_eval_eq\<close>)
  also have "map (\<lambda>i. peval (coefficients p) (roots ! nat i) mod poly_modulus p) [0..int (length (coefficients p)) - 1] =
      map (\<lambda>x. peval (coefficients p) x mod poly_modulus p) (take (length (coefficients p)) roots)"
    unfolding upto_int using assms by (intro nth_equalityI) simp_all
  finally show ?thesis .
qed

lemma peval_uminus: "peval (map uminus cs) x = - peval cs x"
  by (induction cs) simp_all

lemma peval_zip_longest:
  "peval (map (\<lambda>(a, b). (a + b) mod m) (zip_longest 0 as bs)) x mod m = (peval as x + peval bs x) mod m"
  "peval (map (\<lambda>(a, b). (a - b) mod m) (zip_longest 0 as bs)) x mod m = (peval as x - peval bs x) mod m"
proof -
  have "peval (map (\<lambda>(a, b). a + b) (zip_longest 0 as bs)) x = peval as x + peval bs x"
    and "peval (map (\<lambda>(a, b). a - b) (zip_longest 0 as bs)) x = peval as x - peval bs x"
    by (induction "0 :: int" as bs rule: zip_longest.induct)
      (simp_all add: o_def peval_uminus distrib_left right_diff_distrib)
  moreover have "map (\<lambda>(a, b). (a + b) mod m) ps = map (\<lambda>c. c mod m) (map (\<lambda>(a, b). a + b) ps)"
    "map (\<lambda>(a, b). (a - b) mod m) ps = map (\<lambda>c. c mod m) (map (\<lambda>(a, b). a - b) ps)" for ps :: "(int \<times> int) list"
    by (simp_all add: case_prod_beta)
  ultimately show "peval (map (\<lambda>(a, b). (a + b) mod m) (zip_longest 0 as bs)) x mod m = (peval as x + peval bs x) mod m"
    and "peval (map (\<lambda>(a, b). (a - b) mod m) (zip_longest 0 as bs)) x mod m = (peval as x - peval bs x) mod m"
    by (simp_all only: peval_mod)
qed

text \<open>The product: each row adds a multiple of the second factor, shifted.\<close>

lemma peval_update: "i < length cs \<Longrightarrow> peval (cs[i := c]) x = peval cs x + x ^ i * (c - cs ! i)"
proof (induction cs arbitrary: i)
  case (Cons d cs)
  then show ?case by (cases i) (simp_all add: distrib_left right_diff_distrib mult.assoc mult.left_commute)
qed simp

lemma mul_row_prefix:
  assumes "n \<le> length bs" and "i + length bs \<le> length result"
  shows "length (foldl (\<lambda>r j. r[i + j := (r ! (i + j) + as ! i * bs ! j) mod m]) result [0..<n]) = length result \<and>
    peval (foldl (\<lambda>r j. r[i + j := (r ! (i + j) + as ! i * bs ! j) mod m]) result [0..<n]) x mod m =
      (peval result x + x ^ i * (as ! i * peval (take n bs) x)) mod m"
  using assms(1)
proof (induction n)
  case (Suc n)
  let ?r = "foldl (\<lambda>r j. r[i + j := (r ! (i + j) + as ! i * bs ! j) mod m]) result [0..<n]"
  let ?c = "(?r ! (i + n) + as ! i * bs ! n) mod m"
  have len: "length ?r = length result" using Suc by simp
  have n: "n < length bs" "i + n < length ?r" using Suc.prems assms(2) len by simp_all
  have IH: "peval ?r x mod m = (peval result x + x ^ i * (as ! i * peval (take n bs) x)) mod m" using Suc by simp
  have "x ^ (i + n) * (?c - ?r ! (i + n)) mod m = x ^ (i + n) * (as ! i * bs ! n) mod m"
  proof -
    have "(?c - ?r ! (i + n)) mod m = (as ! i * bs ! n) mod m" by (simp add: mod_diff_left_eq)
    then show ?thesis by (rule mod_mult_cong [OF refl])
  qed
  with IH have "(peval ?r x + x ^ (i + n) * (?c - ?r ! (i + n))) mod m =
      (peval result x + x ^ i * (as ! i * peval (take n bs) x) + x ^ (i + n) * (as ! i * bs ! n)) mod m"
    by (rule mod_add_cong)
  also have "\<dots> = (peval result x + x ^ i * (as ! i * peval (take (Suc n) bs) x)) mod m"
    using n(1) by (simp add: take_Suc_conv_app_nth peval_append power_add algebra_simps)
  finally show ?case using n(2) len by (simp add: peval_update)
qed simp

lemma mul_rows:
  assumes "n \<le> length as" and "length as + length bs - 1 \<le> length result" and "bs \<noteq> []"
  shows "length (foldl (\<lambda>r i. mul_row m as bs i r) result [0..<n]) = length result \<and>
    peval (foldl (\<lambda>r i. mul_row m as bs i r) result [0..<n]) x mod m = (peval result x + peval (take n as) x * peval bs x) mod m"
  using assms(1)
proof (induction n)
  case (Suc n)
  let ?r = "foldl (\<lambda>r i. mul_row m as bs i r) result [0..<n]"
  have len: "length ?r = length result" using Suc by simp
  have n: "n < length as" "n + length bs \<le> length ?r" using Suc.prems assms(2,3) len by (cases bs; simp)+
  note row = mul_row_prefix [OF le_refl n(2), of as m x, folded mul_row_def]
  have "(peval ?r x + x ^ n * (as ! n * peval bs x)) mod m = (peval result x + peval (take n as) x * peval bs x + x ^ n * (as ! n * peval bs x)) mod m"
    by (rule mod_add_cong) (use Suc in simp_all)
  also have "\<dots> = (peval result x + peval (take (Suc n) as) x * peval bs x) mod m"
    using n(1) by (simp add: take_Suc_conv_app_nth peval_append algebra_simps)
  finally show ?case using row len by simp
qed simp

lemma poly_mul_eval: "peval (coefficients (poly_mul p q)) x mod poly_modulus p =
    (peval (coefficients p) x * peval (coefficients q) x) mod poly_modulus p"
proof (cases "coefficients q = []")
  case True
  have "foldl (\<lambda>r i. mul_row m as [] i r) rs js = rs" for m as rs js by (induction js) (simp_all add: mul_row_def)
  then show ?thesis by (simp add: poly_mul_def Let_def True)
next
  case False
  then show ?thesis
    using mul_rows [OF le_refl _ False, of "coefficients p" "replicate (length (coefficients p) + length (coefficients q) - 1) 0" "poly_modulus p" x]
    by (simp add: poly_mul_def Let_def)
qed

section \<open>Division by hand\<close>

text \<open>One degree after the other, with the inverse \<open>di\<close> of the leading coefficient of the divisor.\<close>

function long_division :: "int \<Rightarrow> int list \<Rightarrow> int \<Rightarrow> int list \<Rightarrow> int list \<times> int list" where
  "long_division m d di r =
     (if d \<noteq> [] \<and> length d \<le> length r
      then let f = last r * di mod m;
               (g, s) = long_division m d di (butlast (sub_shifted m r d f))
           in (g @ [f], s)
      else ([], r))"
  by pat_completeness auto

termination
  by (relation "measure (\<lambda>(m, d, di, r). length r)") (auto simp: sub_shifted_def Let_def neq_Nil_conv)

declare long_division.simps [simp del]

lemma sub_shifted_eval:
  assumes "length d \<le> length r"
  shows "peval (sub_shifted m r d f) x mod m = (peval r x - f * x ^ (length r - length d) * peval d x) mod m"
proof -
  let ?k = "length r - length d"
  have "map2 (\<lambda>r d. (r - d * f) mod m) a b = map (\<lambda>c. c mod m) (map2 (\<lambda>r d. r - d * f) a b)" for a b
    by (simp add: case_prod_beta)
  then have "peval (map2 (\<lambda>r d. (r - d * f) mod m) (drop ?k r) d) x mod m = peval (map2 (\<lambda>r d. r - d * f) (drop ?k r) d) x mod m"
    by (simp only: peval_mod)
  also have "peval (map2 (\<lambda>r d. r - d * f) (drop ?k r) d) x = peval (drop ?k r) x - f * peval d x"
  proof -
    have "peval (map2 (\<lambda>r d. r - d * f) a b) x = peval a x - f * peval b x" if "length a = length b" for a b
      using that by (induction a b rule: list_induct2) (simp_all add: distrib_left right_diff_distrib mult.commute mult.left_commute)
    then show ?thesis using assms by simp
  qed
  finally have "(peval (take ?k r) x + x ^ ?k * peval (map2 (\<lambda>r d. (r - d * f) mod m) (drop ?k r) d) x) mod m =
      (peval (take ?k r) x + x ^ ?k * (peval (drop ?k r) x - f * peval d x)) mod m"
    by (intro mod_add_cong mod_mult_cong) simp_all
  moreover have "peval r x = peval (take ?k r) x + x ^ ?k * peval (drop ?k r) x"
    using peval_append [of "take ?k r" "drop ?k r" x] by simp
  ultimately show ?thesis using assms by (simp add: sub_shifted_def Let_def peval_append algebra_simps)
qed

lemma sub_shifted_reduced: "0 < m \<Longrightarrow> reduced m r \<Longrightarrow> reduced m (sub_shifted m r d f)"
  by (auto simp: sub_shifted_def Let_def reduced_def dest: in_set_takeD)

lemma reduced_butlast: "reduced m r \<Longrightarrow> reduced m (butlast r)"
  by (auto simp: reduced_def dest: in_set_butlastD)

lemma reduced_pop_zeros: "reduced m r \<Longrightarrow> reduced m (pop_zeros r)"
  by (auto simp: reduced_def pop_zeros_def dest: set_dropWhileD)

lemma long_division_spec:
  assumes "mod_inverse (last d) m = Ok di" and "d \<noteq> []" and "reduced m r" and "long_division m d di r = (g, s)"
  shows "peval r x mod m = (peval g x * peval d x + peval s x) mod m" and "length g = Suc (length r) - length d"
    and "length s < length d" and "reduced m g" and "reduced m s"
proof -
  have m: "0 < m" by (rule mod_inverse_Ok(1) [OF assms(1)])
  have "peval r x mod m = (peval g x * peval d x + peval s x) mod m \<and> length g = Suc (length r) - length d \<and>
    length s < length d \<and> reduced m g \<and> reduced m s"
    using assms(3,4)
  proof (induction r arbitrary: g s rule: length_induct)
    case (1 r)
    show ?case
    proof (cases "length d \<le> length r")
      case True
      define f where "f = last r * di mod m"
      define b where "b = butlast (sub_shifted m r d f)"
      obtain h where h: "long_division m d di b = (h, s)" and g: "g = h @ [f]"
        using 1(3) True assms(2) by (subst (asm) long_division.simps) (auto simp: f_def b_def Let_def split: prod.splits)
      have len: "length b = length r - 1" and ne: "0 < length r" and sub: "sub_shifted m r d f = b @ [0]"
        using last_sub_shifted [OF assms(2) True assms(1)] assms(2) True by (auto simp: b_def f_def)
      have "reduced m b" unfolding b_def by (intro reduced_butlast sub_shifted_reduced m 1(2))
      moreover have "length b < length r" using len ne by linarith
      ultimately have IH: "peval b x mod m = (peval h x * peval d x + peval s x) mod m" "length h = Suc (length b) - length d"
          "length s < length d" "reduced m h" "reduced m s"
        using 1(1) h by blast+
      let ?k = "length r - length d"
      have k: "length h = ?k" using IH(2) len ne by simp
      have "peval b x mod m = (peval r x - f * x ^ ?k * peval d x) mod m"
        using sub_shifted_eval [OF True, of m f x] by (simp add: sub peval_append)
      then have "(peval r x - f * x ^ ?k * peval d x) mod m = (peval h x * peval d x + peval s x) mod m" using IH(1) by simp
      then have "(peval r x - f * x ^ ?k * peval d x + f * x ^ ?k * peval d x) mod m =
          (peval h x * peval d x + peval s x + f * x ^ ?k * peval d x) mod m" by (rule mod_add_cong) simp
      then have "peval r x mod m = (peval g x * peval d x + peval s x) mod m" using k by (simp add: g peval_append algebra_simps)
      then show ?thesis using IH(3-5) k len True ne m by (auto simp: g f_def)
    next
      case False
      then have "long_division m d di r = ([], r)" by (subst long_division.simps) simp
      then show ?thesis using 1(2,3) False by simp
    qed
  qed
  then show "peval r x mod m = (peval g x * peval d x + peval s x) mod m" and "length g = Suc (length r) - length d"
    and "length s < length d" and "reduced m g" and "reduced m s" by blast+
qed

text \<open>The division of the code, which drops the zeros among the coefficients of the quotient.\<close>

abbreviation nonzero :: "int list \<Rightarrow> int list" where
  "nonzero cs \<equiv> filter (\<lambda>c. c \<noteq> 0) cs"

lemma long_division_zero:
  assumes "reduced m xs" and "0 < m"
  shows "long_division m d di (xs @ [0]) =
    (if d \<noteq> [] \<and> length d \<le> Suc (length xs) then (fst (long_division m d di xs) @ [0], snd (long_division m d di xs))
     else ([], xs @ [0]))"
proof (cases "d \<noteq> [] \<and> length d \<le> Suc (length xs)")
  case True
  have "map2 (\<lambda>r d. r mod m) a b = a" if "length a = length b" "reduced m a" for a b :: "int list"
    using that by (induction a b rule: list_induct2) simp_all
  moreover have "reduced m (xs @ [0])" using assms by simp
  then have "reduced m (drop k (xs @ [0]))" for k unfolding reduced_def by (blast dest: in_set_dropD)
  ultimately have "sub_shifted m (xs @ [0]) d 0 = xs @ [0]"
    using True append_take_drop_id [of "Suc (length xs) - length d" "xs @ [0]"]
    by (simp add: sub_shifted_def Let_def del: drop_append take_append)
  then show ?thesis using True by (subst long_division.simps) (simp add: Let_def split: prod.splits)
next
  case False
  then have "long_division m d di (xs @ [0]) = ([], xs @ [0])" by (subst long_division.simps) auto
  then show ?thesis using False by (simp only: if_False)
qed

lemma long_division_short: "length r < length d \<Longrightarrow> long_division m d di r = ([], r)"
  by (subst long_division.simps) simp

lemma long_division_pop:
  assumes "d \<noteq> []" and "reduced m r"
  shows "nonzero (fst (long_division m d di (pop_zeros r))) = nonzero (fst (long_division m d di r)) \<and>
    pop_zeros (snd (long_division m d di (pop_zeros r))) = pop_zeros (snd (long_division m d di r))"
  using assms(2)
proof (induction r rule: rev_induct)
  case (snoc c r)
  show ?case
  proof (cases "c = 0")
    case True
    have r: "reduced m r" "0 < m" using snoc.prems True by simp_all
    show ?thesis
    proof (cases "length d \<le> Suc (length r)")
      case True
      then show ?thesis using snoc.IH [OF r(1)] assms(1) \<open>c = 0\<close> by (simp add: long_division_zero [OF r])
    next
      case False
      have "length (pop_zeros r) \<le> length r" by (rule length_pop_zeros)
      then have "length (pop_zeros r) < length d" "length (r @ [0 :: int]) < length d" "length r < length d"
        using False by simp_all
      then show ?thesis using snoc.IH [OF r(1)] \<open>c = 0\<close> by (simp add: long_division_short)
    qed
  qed simp
qed simp

lemma pop_zeros_idem: "pop_zeros (pop_zeros r) = pop_zeros r"
  by (induction r rule: rev_induct) simp_all

lemma factor_nonzero:
  assumes "mod_inverse b m = Ok di" and "0 < a" and "a < m"
  shows "a * di mod m \<noteq> 0"
proof
  assume "a * di mod m = 0"
  then have "m dvd a * di" by auto
  then have "m dvd a * (b * di)" by (metis dvd_mult mult.left_commute)
  moreover have "a * (b * di) mod m = a * (1 mod m) mod m"
    using mod_inverse_Ok(2) [OF assms(1)] by (metis mod_mult_right_eq)
  ultimately have "m dvd a" by (auto simp: mod_mult_right_eq)
  then show False using assms(2,3) by (simp add: zdvd_not_zless)
qed

lemma divide_loop_eq:
  assumes "mod_inverse (last d) m = Ok di" and "d \<noteq> []" and "reduced m r" and "pop_zeros r = r"
  shows "divide_loop m d q r =
    Ok (nonzero (fst (long_division m d di r)) @ q, pop_zeros (snd (long_division m d di r)))"
  using assms(3,4)
proof (induction r arbitrary: q rule: length_induct)
  case (1 r)
  show ?case
  proof (cases "length d \<le> length r")
    case True
    define f where "f = last r * di mod m"
    define b where "b = butlast (sub_shifted m r d f)"
    have sub: "sub_shifted m r d f = b @ [0]" and len: "length b = length r - 1" and ne: "r \<noteq> []"
      using last_sub_shifted [OF assms(2) True assms(1)] assms(2) True by (auto simp: b_def f_def)
    have m: "0 < m" by (rule mod_inverse_Ok(1) [OF assms(1)])
    have b: "reduced m b" unfolding b_def by (intro reduced_butlast sub_shifted_reduced m 1(2))
    have "last r \<noteq> 0"
    proof
      assume "last r = 0"
      then have "r = butlast r @ [0]" using ne by (metis append_butlast_last_id)
      then have "length (pop_zeros r) \<le> length (butlast r)" by (metis length_pop_zeros pop_zeros_snoc(2))
      also have "length (butlast r) < length r" using ne by (cases r) simp_all
      finally show False using 1(3) by simp
    qed
    then have "0 < last r" "last r < m" using 1(2) ne by (auto simp: reduced_def order_le_less)
    then have f: "f \<noteq> 0" unfolding f_def by (rule factor_nonzero [OF assms(1)])
    have "length (pop_zeros b) \<le> length b" by (rule length_pop_zeros)
    moreover have "length b < length r" using len ne by (cases r) simp_all
    ultimately have short: "length (pop_zeros b) < length r" by (rule le_less_trans)
    have "divide_loop m d q r = divide_loop m d (f # q) (pop_zeros b)"
      using True assms(1,2) by (subst divide_loop.simps) (simp add: Let_def f_def [symmetric] sub)
    also have "\<dots> = Ok (nonzero (fst (long_division m d di (pop_zeros b))) @ f # q,
        pop_zeros (snd (long_division m d di (pop_zeros b))))"
      using 1(1) short b by (simp add: reduced_pop_zeros pop_zeros_idem)
    also have "\<dots> = Ok (nonzero (fst (long_division m d di b)) @ f # q, pop_zeros (snd (long_division m d di b)))"
      using long_division_pop [OF assms(2) b] by simp
    also have "long_division m d di r = (fst (long_division m d di b) @ [f], snd (long_division m d di b))"
      using True assms(2) by (subst long_division.simps) (simp add: Let_def f_def [symmetric] b_def [symmetric] split: prod.splits)
    then have "Ok (nonzero (fst (long_division m d di b)) @ f # q, pop_zeros (snd (long_division m d di b))) =
        (Ok (nonzero (fst (long_division m d di r)) @ q, pop_zeros (snd (long_division m d di r))) :: (exn, _) res)"
      using f by simp
    finally show ?thesis .
  next
    case False
    then show ?thesis using 1(3) by (subst divide_loop.simps) (simp add: long_division_short)
  qed
qed

lemma divide_eq:
  assumes "mod_inverse (last (coefficients q)) (poly_modulus p) = Ok di" and "coefficients q \<noteq> []"
    and "reduced (poly_modulus p) (coefficients p)" and "length (coefficients q) \<le> length (coefficients p)"
    and "long_division (poly_modulus p) (coefficients q) di (coefficients p) = (g, s)"
  shows "divide p q = Ok (\<lparr>coefficients = nonzero (butlast g) @ [last g], poly_modulus = poly_modulus p\<rparr>,
      \<lparr>coefficients = pop_zeros s, poly_modulus = poly_modulus p\<rparr>)"
proof -
  let ?m = "poly_modulus p" and ?d = "coefficients q" and ?r = "coefficients p"
  define f where "f = last ?r * di mod ?m"
  define b where "b = butlast (sub_shifted ?m ?r ?d f)"
  have sub: "sub_shifted ?m ?r ?d f = b @ [0]"
    using last_sub_shifted [OF assms(2,4,1)] by (simp add: b_def f_def)
  have b: "reduced ?m b"
    unfolding b_def by (intro reduced_butlast sub_shifted_reduced mod_inverse_Ok(1) [OF assms(1)] assms(3))
  have "long_division ?m ?d di ?r = (fst (long_division ?m ?d di b) @ [f], snd (long_division ?m ?d di b))"
    using assms(2,4) by (subst long_division.simps) (simp add: Let_def f_def [symmetric] b_def [symmetric] split: prod.splits)
  then have g: "g = fst (long_division ?m ?d di b) @ [f]" "s = snd (long_division ?m ?d di b)" using assms(5) by simp_all
  have "divide_loop ?m ?d [] ?r = divide_loop ?m ?d [f] (pop_zeros b)"
    using assms(1,2,4) by (subst divide_loop.simps) (simp add: Let_def f_def [symmetric] sub)
  also have "\<dots> = Ok (nonzero (butlast g) @ [f], pop_zeros s)"
    using divide_loop_eq [OF assms(1,2) reduced_pop_zeros [OF b] pop_zeros_idem] long_division_pop [OF assms(2) b]
    by (simp add: g)
  finally show ?thesis by (simp add: divide_def g)
qed

end
