(* ===== verification/Roots_Fft.thy ===== *)
theory Roots_Fft
  imports Field_Poly
begin

text \<open>
  da/kzg_rs/roots.py and the transform of field elements of da/kzg_rs/fft.py.

  \<open>_fft\<close> recurses on the elements at even and odd positions. On an empty sequence it calls itself
  forever, which Python ends with \<open>RecursionError\<close>. For a power of two of elements and the powers of a
  root of unity of that order it evaluates the polynomial of the elements at all of them, and \<open>ifft\<close>
  undoes it.
\<close>

section \<open>Roots of unity\<close>

text \<open>Python's \<open>pow\<close> with a modulus: a negative exponent is one of the inverse.\<close>

definition py_pow :: "int \<Rightarrow> int \<Rightarrow> int \<Rightarrow> (exn, int) res" where
  "py_pow b e m =
     (if m = 0 then Err ValueError
      else if 0 \<le> e then Ok (b ^ nat e mod m)
      else bind_res (mod_inverse b m) (\<lambda>i. Ok (i ^ nat (- e) mod m)))"

definition compute_root_of_unity :: "int \<Rightarrow> int \<Rightarrow> int \<Rightarrow> (exn, int) res" where
  "compute_root_of_unity primitive_root order modulus =
     (if order = 0 then Err ZeroDivisionError
      else if (modulus - 1) mod order = 0
      then py_pow primitive_root ((modulus - 1) div order) modulus
      else Err AssertionError)"

fun root_loop :: "nat \<Rightarrow> int \<Rightarrow> int \<Rightarrow> int \<Rightarrow> int list" where
  "root_loop 0 m w current = []"
| "root_loop (Suc n) m w current = current # root_loop n m w (current * w mod m)"

definition compute_roots_of_unity :: "int \<Rightarrow> int \<Rightarrow> int \<Rightarrow> (exn, int list) res" where
  "compute_roots_of_unity primitive_root order modulus =
     bind_res (compute_root_of_unity primitive_root order modulus) (\<lambda>w. Ok (root_loop (nat order) modulus w 1))"

section \<open>Transforms\<close>

text \<open>\<open>vals[::2]\<close> and \<open>vals[1::2]\<close>.\<close>

fun evens :: "'a list \<Rightarrow> 'a list" where
  "evens [] = []"
| "evens [x] = [x]"
| "evens (x # y # xs) = x # evens xs"

definition odds :: "'a list \<Rightarrow> 'a list" where
  "odds xs = evens (drop 1 xs)"

lemma odds_simps [simp]: "odds [] = []" "odds [x] = []" "odds (x # y # xs) = y # odds xs"
  by (simp_all add: odds_def, cases xs, simp_all)

lemma length_evens_odds: "length (evens xs) = (length xs + 1) div 2" "length (odds xs) = length xs div 2"
  by (induction xs rule: evens.induct) simp_all

text \<open>The loop over \<open>zip(L, R)\<close>; between the two halves a longer \<open>L\<close> leaves zeros.\<close>

definition butterfly :: "int \<Rightarrow> int list \<Rightarrow> int list \<Rightarrow> int list \<Rightarrow> (exn, int list) res" where
  "butterfly m roots L R =
     (if length roots < min (length L) (length R) then Err IndexError
      else
        let terms = map2 (\<lambda>y r. y * r mod m) R roots
        in Ok (map2 (\<lambda>x t. (x + t) mod m) L terms @ replicate (length L - length R) 0 @
               map2 (\<lambda>x t. (x - t + m) mod m) L terms))"

function fft_rec :: "int list \<Rightarrow> int list \<Rightarrow> int \<Rightarrow> (exn, int list) res" where
  "fft_rec vals roots m =
     (if length vals = 1 then Ok vals
      else if vals = [] then Err RecursionError
      else bind_res (fft_rec (evens vals) (evens roots) m) (\<lambda>L.
           bind_res (fft_rec (odds vals) (evens roots) m) (\<lambda>R. butterfly m roots L R)))"
  by pat_completeness auto

termination
proof (relation "measure (\<lambda>(vals, roots, m). length vals)", goal_cases)
  case (2 vals roots m)
  then have "2 \<le> length vals" by (cases vals rule: evens.cases) auto
  then show ?case by (simp add: length_evens_odds)
next
  case (3 vals roots m L)
  then have "2 \<le> length vals" by (cases vals rule: evens.cases) auto
  then show ?case by (simp add: length_evens_odds)
qed simp

declare fft_rec.simps [simp del]

definition fft :: "int list \<Rightarrow> int list \<Rightarrow> int \<Rightarrow> (exn, int list) res" where
  "fft vals roots m = (if length vals = length roots then fft_rec vals roots m else Err AssertionError)"

text \<open>\<open>[roots[0], *roots[:0:-1]]\<close>.\<close>

definition inverse_roots :: "'a list \<Rightarrow> (exn, 'a list) res" where
  "inverse_roots roots = bind_res (py_index roots 0) (\<lambda>r. Ok (r # rev (tl roots)))"

definition ifft :: "int list \<Rightarrow> int list \<Rightarrow> int \<Rightarrow> (exn, int list) res" where
  "ifft vals roots m =
     (if length vals = length roots
      then
        let invlen = int (length vals) ^ nat (m - 2) mod m
        in bind_res (inverse_roots roots) (\<lambda>rs. bind_res (fft_rec vals rs m) (\<lambda>out. Ok (map (\<lambda>x. x * invlen mod m) out)))
      else Err AssertionError)"

section \<open>Powers of a root\<close>

definition powers :: "int \<Rightarrow> int \<Rightarrow> int list \<Rightarrow> bool" where
  "powers m w roots \<longleftrightarrow> (\<forall>i<length roots. roots ! i mod m = w ^ i mod m)"

lemma root_loop_powers:
  "length (root_loop n m w c) = n" "i < n \<Longrightarrow> root_loop n m w c ! i mod m = c * w ^ i mod m"
proof -
  show "length (root_loop n m w c) = n" by (induction n m w c rule: root_loop.induct) simp_all
  show "i < n \<Longrightarrow> root_loop n m w c ! i mod m = c * w ^ i mod m"
  proof (induction n m w c arbitrary: i rule: root_loop.induct)
    case (2 n m w c)
    show ?case
    proof (cases i)
      case (Suc j)
      then have "root_loop (Suc n) m w c ! i mod m = (c * w mod m) * w ^ j mod m" using 2 by simp
      also have "\<dots> = c * w ^ i mod m" by (simp add: Suc mod_mult_left_eq mult.assoc)
      finally show ?thesis .
    qed simp
  qed simp
qed

lemma evens_nth: "i < length (evens xs) \<Longrightarrow> evens xs ! i = xs ! (2 * i)"
proof (induction xs arbitrary: i rule: evens.induct)
  case (3 x y xs)
  then show ?case by (cases i) simp_all
qed simp_all

lemma powers_evens: "powers m w roots \<Longrightarrow> powers m (w ^ 2) (evens roots)"
  by (auto simp: powers_def evens_nth length_evens_odds power_mult [symmetric])

lemma peval_evens_odds: "peval vals x = peval (evens vals) (x ^ 2) + x * peval (odds vals) (x ^ 2)"
  by (induction vals rule: evens.induct) (simp_all add: algebra_simps power2_eq_square)

section \<open>The transform evaluates\<close>

text \<open>The primitive root of the order: half way through its powers lies \<open>- 1\<close>.\<close>

definition half_root :: "int \<Rightarrow> int \<Rightarrow> nat \<Rightarrow> bool" where
  "half_root m w k \<longleftrightarrow> (0 < k \<longrightarrow> w ^ (2 ^ (k - 1)) mod m = - 1 mod m)"

lemma butterfly_halves:
  assumes "length L = h" and "length R = h" and "length roots = 2 * h"
  shows "butterfly m roots L R = Ok (map (\<lambda>i. (L ! i + R ! i * roots ! i mod m) mod m) [0..<h] @
      map (\<lambda>i. (L ! i - R ! i * roots ! i mod m + m) mod m) [0..<h])"
proof -
  have "map2 (\<lambda>y r. y * r mod m) R roots = map (\<lambda>i. R ! i * roots ! i mod m) [0..<h]"
    using assms by (intro nth_equalityI) simp_all
  then show ?thesis using assms by (auto simp: butterfly_def Let_def intro!: nth_equalityI)
qed

lemma power_shift:
  assumes "powers m w roots" and "length roots = 2 * h" and "w ^ h mod m = - 1 mod m" and "i < h"
  shows "roots ! (h + i) mod m = - (roots ! i) mod m"
proof -
  have "roots ! (h + i) mod m = w ^ h * w ^ i mod m" using assms by (simp add: powers_def power_add)
  also have "\<dots> = - 1 * roots ! i mod m"
    by (rule mod_mult_cong [OF assms(3)]) (use assms in \<open>simp add: powers_def\<close>)
  finally show ?thesis by simp
qed

lemma fft_evaluates:
  assumes "0 < m" and "length vals = 2 ^ k" and "length roots = 2 ^ k" and "reduced m vals"
    and "powers m w roots" and "half_root m w k"
  shows "fft_rec vals roots m = Ok (map (\<lambda>r. peval vals r mod m) roots)"
  using assms(2-)
proof (induction k arbitrary: vals roots w)
  case 0
  then obtain v r where "vals = [v]" "roots = [r]" by (auto simp: length_Suc_conv)
  then show ?case using 0 by (subst fft_rec.simps) simp
next
  case (Suc k)
  define h where "h = (2 :: nat) ^ k"
  have len: "length vals = 2 * h" "length roots = 2 * h" "0 < h" using Suc.prems(1,2) by (simp_all add: h_def)
  have half: "w ^ h mod m = - 1 mod m" using Suc.prems(5) by (simp add: half_root_def h_def)
  let ?rs = "evens roots"
  have sub: "length (evens vals) = h" "length (odds vals) = h" "length ?rs = h" using len by (simp_all add: length_evens_odds)
  have red: "reduced m (evens vals)" "reduced m (odds vals)"
    using Suc.prems(3) by (induction vals rule: evens.induct) simp_all
  have "half_root m (w ^ 2) k"
    using half by (cases k) (simp_all add: half_root_def h_def power_mult [symmetric])
  then have LR: "fft_rec (evens vals) ?rs m = Ok (map (\<lambda>r. peval (evens vals) r mod m) ?rs)"
    "fft_rec (odds vals) ?rs m = Ok (map (\<lambda>r. peval (odds vals) r mod m) ?rs)"
    using Suc.IH [OF _ _ _ powers_evens [OF Suc.prems(4)]] sub red by (simp_all add: h_def)
  have "2 \<le> length vals" using len by linarith
  then have "fft_rec vals roots m = butterfly m roots (map (\<lambda>r. peval (evens vals) r mod m) ?rs) (map (\<lambda>r. peval (odds vals) r mod m) ?rs)"
    by (subst fft_rec.simps) (auto simp: LR)
  also have "\<dots> = Ok (map (\<lambda>i. (peval (evens vals) (?rs ! i) mod m + peval (odds vals) (?rs ! i) mod m * roots ! i mod m) mod m) [0..<h] @
      map (\<lambda>i. (peval (evens vals) (?rs ! i) mod m - peval (odds vals) (?rs ! i) mod m * roots ! i mod m + m) mod m) [0..<h])"
    using sub len by (subst butterfly_halves [of _ h]) simp_all
  also have "\<dots> = Ok (map (\<lambda>i. peval vals (roots ! i) mod m) [0..<h] @ map (\<lambda>i. peval vals (roots ! (h + i)) mod m) [0..<h])"
  proof -
    have sq: "?rs ! i mod m = (roots ! i) ^ 2 mod m" if "i < h" for i
    proof -
      have "?rs ! i mod m = w ^ (2 * i) mod m" using that sub len Suc.prems(4) by (simp add: evens_nth powers_def)
      also have "\<dots> = (w ^ i) ^ 2 mod m" by (simp add: power_mult [symmetric] mult.commute)
      also have "\<dots> = (roots ! i) ^ 2 mod m" 
        by (rule mod_power_cong) (use that len Suc.prems(4) in \<open>simp add: powers_def\<close>)
      finally show ?thesis .
    qed
    have first: "(peval (evens vals) (?rs ! i) mod m + peval (odds vals) (?rs ! i) mod m * roots ! i mod m) mod m = peval vals (roots ! i) mod m"
      if "i < h" for i
    proof -
      have "(peval (evens vals) (?rs ! i) + roots ! i * peval (odds vals) (?rs ! i)) mod m =
          (peval (evens vals) ((roots ! i) ^ 2) + roots ! i * peval (odds vals) ((roots ! i) ^ 2)) mod m"
        by (intro mod_add_cong mod_mult_cong peval_cong sq that refl)
      then show ?thesis by (simp add: peval_evens_odds [of vals] mod_simps mult.commute)
    qed
    have second: "(peval (evens vals) (?rs ! i) mod m - peval (odds vals) (?rs ! i) mod m * roots ! i mod m + m) mod m =
        peval vals (roots ! (h + i)) mod m" if i: "i < h" for i
    proof -
      have "roots ! (h + i) mod m = - (roots ! i) mod m" by (rule power_shift [OF Suc.prems(4) len(2) half i])
      then have "peval vals (roots ! (h + i)) mod m = peval vals (- (roots ! i)) mod m" by (rule peval_cong)
      also have "\<dots> = (peval (evens vals) ((roots ! i) ^ 2) - roots ! i * peval (odds vals) ((roots ! i) ^ 2)) mod m"
        by (simp add: peval_evens_odds [of vals])
      also have "\<dots> = (peval (evens vals) (?rs ! i) - roots ! i * peval (odds vals) (?rs ! i)) mod m"
        by (intro mod_diff_cong mod_mult_cong peval_cong sq [symmetric] i refl)
      finally show ?thesis by (simp add: mod_simps mult.commute)
    qed
    show ?thesis using first second by simp
  qed
  also have "map (\<lambda>i. peval vals (roots ! i) mod m) [0..<h] @ map (\<lambda>i. peval vals (roots ! (h + i)) mod m) [0..<h] =
      map (\<lambda>r. peval vals r mod m) roots"
    using len by (intro nth_equalityI) (auto simp: nth_append)
  finally show ?case .
qed

section \<open>The inverse transform\<close>

lemma odd_part: "0 < d \<Longrightarrow> \<exists>a q. odd q \<and> d = 2 ^ a * (q :: nat)"
proof (induction d rule: less_induct)
  case (less d)
  show ?case
  proof (cases "odd d")
    case True
    then show ?thesis by (intro exI [of _ 0] exI [of _ d]) simp
  next
    case False
    then obtain e where e: "d = 2 * e" by blast
    then have "0 < e" "e < d" using less.prems by simp_all
    then obtain a q where "odd q" "e = 2 ^ a * q" using less.IH [of e] by blast
    then show ?thesis using e by (intro exI [of _ "Suc a"] exI [of _ q]) simp
  qed
qed

lemma not_minus_one: "2 < p \<Longrightarrow> - 1 mod p \<noteq> 1 mod (p :: int)"
  by (simp add: zmod_minus1)

definition root_of_order :: "int \<Rightarrow> int \<Rightarrow> nat \<Rightarrow> bool" where
  "root_of_order p w k \<longleftrightarrow> w ^ (2 ^ k) mod p = 1 mod p \<and> half_root p w k"

lemma power_one: "w ^ n mod p = 1 mod p \<Longrightarrow> w ^ (n * i) mod p = 1 mod (p :: int)"
  using mod_power_cong [of "w ^ n" p 1 i] by (simp add: power_mult)

lemma power_distinct:
  assumes "2 < p" and "root_of_order p w k" and "0 < d" and "d < 2 ^ k"
  shows "w ^ d mod p \<noteq> 1 mod p"
proof
  assume one: "w ^ d mod p = 1 mod p"
  obtain a q where q: "odd q" "d = 2 ^ a * q" using odd_part [OF assms(3)] by blast
  then have "2 ^ a * 1 \<le> d" by (cases q) auto
  then have "2 ^ a \<le> d" by simp
  then have "2 ^ a < (2 :: nat) ^ k" by (rule le_less_trans [OF _ assms(4)])
  then have a: "a < k" by simp
  then have k: "0 < k" by simp
  have "w ^ (d * 2 ^ (k - 1 - a)) mod p = 1 mod p" by (rule power_one [OF one])
  also have "d * 2 ^ (k - 1 - a) = 2 ^ (k - 1) * q"
    using a q(2) by (simp add: power_add [symmetric] mult.commute mult.left_commute)
  finally have "(w ^ (2 ^ (k - 1))) ^ q mod p = 1 mod p" by (simp add: power_mult)
  moreover have "(w ^ (2 ^ (k - 1))) ^ q mod p = (- 1) ^ q mod p"
    by (rule mod_power_cong) (use assms(2) k in \<open>simp add: root_of_order_def half_root_def\<close>)
  ultimately show False using q(1) not_minus_one [OF assms(1)] by simp
qed

lemma power_inj:
  assumes "2 < p" and root: "root_of_order p w k" and "j < 2 ^ k" and "l < 2 ^ k" and eq: "w ^ j mod p = w ^ l mod p"
  shows "j = l"
proof (rule ccontr)
  let ?n = "2 ^ k :: nat"
  assume "j \<noteq> l"
  have full: "w ^ ?n mod p = 1 mod p" using root by (simp add: root_of_order_def)
  have "w ^ (?n - min j l) * w ^ j mod p = w ^ (?n - min j l) * w ^ l mod p" by (rule mod_mult_cong [OF refl eq])
  then have "w ^ (?n - min j l + j) mod p = w ^ (?n - min j l + l) mod p" by (simp add: power_add)
  moreover have "?n - min j l + min j l = ?n" "?n - min j l + max j l = ?n + (max j l - min j l)"
    using assms(3,4) by auto
  ultimately have "w ^ (?n + (max j l - min j l)) mod p = 1 mod p" using full by (auto simp: min_def max_def split: if_splits)
  moreover have "w ^ (?n + (max j l - min j l)) mod p = 1 * w ^ (max j l - min j l) mod p"
    unfolding power_add by (rule mod_mult_cong [OF full refl])
  ultimately have "w ^ (max j l - min j l) mod p = 1 mod p" by simp
  moreover have "0 < max j l - min j l" "max j l - min j l < ?n" using \<open>j \<noteq> l\<close> assms(3,4) by auto
  ultimately show False using power_distinct [OF assms(1) root] by blast
qed

lemma powers_distinct:
  assumes "2 < p" and "root_of_order p w k" and "powers p w roots" and "length roots \<le> 2 ^ k"
  shows "distinct (map (\<lambda>r. r mod p) roots)"
  unfolding distinct_conv_nth
proof (intro allI impI)
  fix i j
  assume ij: "i < length (map (\<lambda>r. r mod p) roots)" "j < length (map (\<lambda>r. r mod p) roots)" "i \<noteq> j"
  then have "w ^ i mod p \<noteq> w ^ j mod p" using power_inj [OF assms(1,2), of i j] assms(4) by auto
  then show "map (\<lambda>r. r mod p) roots ! i \<noteq> map (\<lambda>r. r mod p) roots ! j" using ij assms(3) by (simp add: powers_def)
qed

text \<open>What \<open>compute_roots_of_unity\<close> returns for a power of two, given a quadratic non-residue.\<close>

definition proper_root :: "int \<Rightarrow> int \<Rightarrow> nat \<Rightarrow> bool" where
  "proper_root p g k \<longleftrightarrow> prime_modulus p \<and> 2 < p \<and> (p - 1) mod 2 ^ k = 0 \<and> g ^ nat ((p - 1) div 2) mod p = - 1 mod p"

lemma root_loop_range: "0 < m \<Longrightarrow> 0 \<le> c \<Longrightarrow> c < m \<Longrightarrow> reduced m (root_loop n m w c)"
  by (induction n m w c rule: root_loop.induct) simp_all

lemma compute_roots_ok:
  assumes "proper_root p g k"
  shows "\<exists>w roots. compute_roots_of_unity g (2 ^ k) p = Ok roots \<and> length roots = 2 ^ k \<and> powers p w roots \<and>
    root_of_order p w k \<and> reduced p roots"
proof -
  from assms have p: "2 < p" and div: "(p - 1) mod 2 ^ k = 0" and half: "g ^ nat ((p - 1) div 2) mod p = - 1 mod p"
    and prime: "prime_modulus p" by (simp_all add: proper_root_def)
  define q where "q = nat ((p - 1) div 2 ^ k)"
  have q: "p - 1 = 2 ^ k * int q" using div p mult_div_mod_eq [of "2 ^ k" "p - 1"] by (simp add: q_def pos_imp_zdiv_nonneg_iff)
  define w where "w = g ^ q mod p"
  have power: "w ^ n mod p = g ^ (q * n) mod p" for n by (simp add: w_def power_mod power_mult)
  have odd: "odd p"
  proof
    assume "even p"
    then show False using prime p unfolding prime_modulus_def by (auto dest: spec [of _ 2])
  qed
  have "g ^ (q * 2 ^ k) mod p = 1 mod p"
  proof -
    have "int (nat ((p - 1) div 2) * 2) = p - 1" using odd p by (simp add: pos_imp_zdiv_nonneg_iff)
    also have "\<dots> = int (q * 2 ^ k)" using q by simp
    finally have "q * 2 ^ k = nat ((p - 1) div 2) * 2" by (simp only: of_nat_eq_iff)
    then have "g ^ (q * 2 ^ k) mod p = (g ^ nat ((p - 1) div 2)) ^ 2 mod p" by (simp add: power_mult)
    also have "\<dots> = (- 1) ^ 2 mod p" by (rule mod_power_cong) (simp add: half)
    finally show ?thesis by simp
  qed
  moreover have "g ^ (q * 2 ^ (k - 1)) mod p = - 1 mod p" if "0 < k"
  proof -
    have "2 ^ k = (2 :: int) * 2 ^ (k - 1)" using that by (simp add: power_Suc [symmetric])
    then have "(p - 1) div 2 = int (q * 2 ^ (k - 1))" using q by simp
    then have "nat ((p - 1) div 2) = q * 2 ^ (k - 1)" by (simp only: nat_int)
    then show ?thesis using half by simp
  qed
  ultimately have root: "root_of_order p w k" by (simp add: root_of_order_def half_root_def power)
  have "py_pow g ((p - 1) div 2 ^ k) p = Ok w" using p by (simp add: py_pow_def pos_imp_zdiv_nonneg_iff w_def q_def)
  then have "compute_roots_of_unity g (2 ^ k) p = Ok (root_loop (2 ^ k) p w 1)"
    using div by (simp add: compute_roots_of_unity_def compute_root_of_unity_def nat_power_eq)
  moreover have "powers p w (root_loop (2 ^ k) p w 1)" by (simp add: powers_def root_loop_powers)
  moreover have "reduced p (root_loop (2 ^ k) p w 1)" using p by (intro root_loop_range) simp_all
  ultimately show ?thesis using root root_loop_powers(1) by blast
qed

lemma powers_inverse:
  assumes "powers p w roots" and "length roots = n" and "0 < n" and "w ^ n mod p = 1 mod p"
  shows "\<exists>rs. inverse_roots roots = Ok rs \<and> length rs = n \<and> powers p (w ^ (n - 1)) rs"
proof -
  obtain r rest where roots: "roots = r # rest" using assms(2,3) by (cases roots) auto
  let ?rs = "r # rev rest"
  have "?rs ! i mod p = (w ^ (n - 1)) ^ i mod p" if i: "i < n" for i
  proof (cases i)
    case 0
    then show ?thesis using assms(1) roots by (auto simp: powers_def)
  next
    case (Suc j)
    have n: "n = Suc (length rest)" using assms(2) roots by simp
    have j: "j < length rest" using i Suc n by simp
    have "?rs ! i = roots ! (n - i)"
      using j by (simp add: n rev_nth nth_Cons' roots Suc)
    then have "?rs ! i mod p = w ^ (n - i) * 1 mod p" using assms(1,2) i Suc by (simp add: powers_def)
    also have "\<dots> = w ^ (n - i) * w ^ (n * j) mod p"
      by (rule mod_mult_cong [OF refl power_one [OF assms(4), symmetric]])
    also have "w ^ (n - i) * w ^ (n * j) = w ^ (n - i + n * j)" by (simp add: power_add)
    also have "n - i + n * j = (n - 1) * i" using i Suc by (simp add: diff_mult_distrib algebra_simps)
    finally show ?thesis by (simp add: power_mult)
  qed
  then show ?thesis using assms(2) roots
    by (intro exI [of _ ?rs]) (simp add: inverse_roots_def py_index_def powers_def)
qed

text \<open>Sums of powers: the columns of the transform are orthogonal.\<close>

lemma orthogonal:
  assumes prime: "prime_modulus p" and "2 < p" and root: "root_of_order p w k" and "j < 2 ^ k" and "l < 2 ^ k"
  defines "z \<equiv> w ^ j * (w ^ (2 ^ k - 1)) ^ l"
  shows "(\<Sum>i<2 ^ k. z ^ i) mod p = (if j = l then 2 ^ k else 0) mod p"
proof -
  let ?n = "2 ^ k :: nat"
  have full: "w ^ ?n mod p = 1 mod p" using root by (simp add: root_of_order_def)
  have n: "0 < ?n" by simp
  have inv: "w ^ l * (w ^ (?n - 1)) ^ l mod p = 1 mod p"
  proof -
    have "l + (?n - 1) * l = ?n * l" by (cases ?n) simp_all
    then have "w ^ l * (w ^ (?n - 1)) ^ l = w ^ (?n * l)" by (simp add: power_mult [symmetric] power_add [symmetric])
    then show ?thesis using power_one [OF full] by simp
  qed
  show ?thesis
  proof (cases "j = l")
    case True
    then have "z mod p = 1 mod p" using inv by (simp add: z_def)
    then have "z ^ i mod p = 1 ^ i mod p" for i by (rule mod_power_cong)
    then have "(\<Sum>i<?n. z ^ i) mod p = (\<Sum>i<?n. 1) mod p" by (intro sum_mod_cong) simp
    then show ?thesis using True by simp
  next
    case False
    have "z mod p \<noteq> 1 mod p"
    proof
      assume "z mod p = 1 mod p"
      then have "w ^ l * z mod p = w ^ l * 1 mod p" by (rule mod_mult_cong [OF refl])
      moreover have "w ^ l * z mod p = w ^ j * 1 mod p"
        using mod_mult_cong [OF refl inv, of "w ^ j"] by (simp add: z_def mult.left_commute)
      ultimately have eq: "w ^ j mod p = w ^ l mod p" by simp
      then show False using power_inj [OF assms(2) root assms(4,5)] False by blast
    qed
    then have "\<not> p dvd z - 1" by (simp add: mod_eq_dvd_iff)
    moreover have "p dvd (z - 1) * (\<Sum>i<?n. z ^ i)"
    proof -
      have "z ^ ?n = (w ^ ?n) ^ j * ((w ^ ?n) ^ (?n - 1)) ^ l"
        by (simp add: z_def power_mult_distrib power_mult [symmetric] mult.commute mult.left_commute)
      also have "\<dots> mod p = 1 ^ j * (1 ^ (?n - 1)) ^ l mod p"
        by (intro mod_mult_cong mod_power_cong full)
      finally have "z ^ ?n mod p = 1 mod p" by simp
      then show ?thesis unfolding power_diff_1_eq [symmetric] by (simp add: mod_eq_dvd_iff)
    qed
    ultimately have "p dvd (\<Sum>i<?n. z ^ i)" using prime_dvd_mult [OF prime] by blast
    then show ?thesis using False by simp
  qed
qed

lemma prime_not_dvd_power2: "prime_modulus p \<Longrightarrow> 2 < p \<Longrightarrow> \<not> p dvd 2 ^ k"
  using prime_dvd_power [of p 2 k] zdvd_imp_le [of p 2] by auto

lemma ifft_fft:
  assumes prime: "prime_modulus p" and odd: "2 < p" and root: "root_of_order p w k"
    and vals: "length vals = 2 ^ k" "reduced p vals" and roots: "length roots = 2 ^ k" "powers p w roots"
  shows "\<exists>F. fft vals roots p = Ok F \<and> F = map (\<lambda>r. peval vals r mod p) roots \<and> ifft F roots p = Ok vals"
proof -
  let ?n = "2 ^ k :: nat"
  have p: "0 < p" using odd by simp
  have full: "w ^ ?n mod p = 1 mod p" and half: "half_root p w k" using root by (simp_all add: root_of_order_def)
  define F where "F = map (\<lambda>r. peval vals r mod p) roots"
  have F: "fft vals roots p = Ok F" "length F = ?n" "reduced p F"
    using fft_evaluates [OF p vals(1) roots(1) vals(2) roots(2) half] vals(1) roots(1) p by (simp_all add: fft_def F_def)
  obtain rs where rs: "inverse_roots roots = Ok rs" "length rs = ?n" "powers p (w ^ (?n - 1)) rs"
    using powers_inverse [OF roots(2,1) _ full] by auto
  have "half_root p (w ^ (?n - 1)) k"
    unfolding half_root_def
  proof
    assume k: "0 < k"
    have "(w ^ (?n - 1)) ^ (2 ^ (k - 1)) = (w ^ (2 ^ (k - 1))) ^ (?n - 1)" by (simp add: power_mult [symmetric] mult.commute)
    also have "\<dots> mod p = (- 1) ^ (?n - 1) mod p"
      by (rule mod_power_cong) (use half k in \<open>simp add: half_root_def\<close>)
    also have "(- 1 :: int) ^ (?n - 1) = - 1" using k by (simp add: uminus_power_if)
    finally show "(w ^ (?n - 1)) ^ (2 ^ (k - 1)) mod p = - 1 mod p" .
  qed
  then have inv: "fft_rec F rs p = Ok (map (\<lambda>r. peval F r mod p) rs)"
    by (rule fft_evaluates [OF p F(2) rs(2) F(3) rs(3)])
  define invlen where "invlen = int ?n ^ nat (p - 2) mod p"
  have len: "int ?n * invlen mod p = 1"
  proof -
    have "int ?n * invlen mod p = int ?n ^ Suc (nat (p - 2)) mod p" by (simp add: invlen_def mod_mult_right_eq)
    also have "Suc (nat (p - 2)) = nat p - 1" using odd by linarith
    finally show ?thesis using fermat [OF prime prime_not_dvd_power2 [OF prime odd, of k]] by simp
  qed
  have "peval F (rs ! l) mod p * invlen mod p = vals ! l" if l: "l < ?n" for l
  proof -
    let ?v = "w ^ (?n - 1)"
    have "peval F (rs ! l) mod p = (\<Sum>i<?n. F ! i * (rs ! l) ^ i) mod p" by (simp add: peval_sum F(2))
    also have "\<dots> = (\<Sum>i<?n. (\<Sum>j<?n. vals ! j * (w ^ j * ?v ^ l) ^ i)) mod p"
    proof (rule sum_mod_cong)
      fix i
      assume "i \<in> {..<?n}"
      then have i: "i < ?n" by simp
      have "F ! i * (rs ! l) ^ i mod p = peval vals (w ^ i) * (?v ^ l) ^ i mod p"
      proof (rule mod_mult_cong)
        have "F ! i mod p = peval vals (roots ! i) mod p" using i roots(1) by (simp add: F_def)
        also have "\<dots> = peval vals (w ^ i) mod p" by (rule peval_cong) (use roots i in \<open>simp add: powers_def\<close>)
        finally show "F ! i mod p = peval vals (w ^ i) mod p" .
        show "(rs ! l) ^ i mod p = (?v ^ l) ^ i mod p" by (rule mod_power_cong) (use rs l in \<open>simp add: powers_def\<close>)
      qed
      also have "peval vals (w ^ i) * (?v ^ l) ^ i = (\<Sum>j<?n. vals ! j * (w ^ j * ?v ^ l) ^ i)"
        unfolding peval_sum vals(1) sum_distrib_right
        by (rule sum.cong) (simp_all add: power_mult_distrib power_mult [symmetric] mult.commute mult.left_commute)
      finally show "F ! i * (rs ! l) ^ i mod p = (\<Sum>j<?n. vals ! j * (w ^ j * ?v ^ l) ^ i) mod p" .
    qed
    also have "(\<Sum>i<?n. (\<Sum>j<?n. vals ! j * (w ^ j * ?v ^ l) ^ i)) = (\<Sum>j<?n. vals ! j * (\<Sum>i<?n. (w ^ j * ?v ^ l) ^ i))"
      by (subst sum.swap) (simp add: sum_distrib_left)
    also have "\<dots> mod p = (\<Sum>j<?n. vals ! j * (if j = l then 2 ^ k else 0)) mod p"
      by (intro sum_mod_cong mod_mult_cong refl orthogonal [OF prime odd root _ l]) simp
    also have "(\<Sum>j<?n. vals ! j * (if j = l then 2 ^ k else 0)) = vals ! l * 2 ^ k" using l by (simp add: if_distrib [of "(*) _"] cong: if_cong)
    finally have "peval F (rs ! l) mod p * invlen mod p = vals ! l * 2 ^ k * invlen mod p" by (simp add: mod_mult_left_eq)
    also have "\<dots> = vals ! l * (int ?n * invlen mod p) mod p" by (simp add: mod_mult_right_eq mult.assoc)
    also have "\<dots> = vals ! l" using l vals unfolding len by (auto simp: reduced_def)
    finally show ?thesis .
  qed
  then have "map (\<lambda>x. x * invlen mod p) (map (\<lambda>r. peval F r mod p) rs) = vals"
    using rs(2) vals(1) by (intro nth_equalityI) simp_all
  moreover have "int (length F) ^ nat (p - 2) mod p = invlen" by (simp add: invlen_def F(2))
  ultimately have "ifft F roots p = Ok vals" using F(2) roots(1) by (simp add: ifft_def rs(1) inv Let_def)
  then show ?thesis using F(1) F_def by blast
qed

end
