(* ===== verification/Reed_Solomon.thy ===== *)
theory Reed_Solomon
  imports Roots_Fft
begin

text \<open>
  da/kzg_rs/rs.py: a polynomial is extended to its values at more points than it has coefficients,
  and read back from any of them that are enough. A lost value is \<open>None\<close>.

  \<open>interp\<close> stands for \<open>interpolate_polynomialcoeff\<close> of the consensus specification, which returns
  the coefficients, as many as there are points, of the polynomial through the points
  (\<open>interpolates\<close>). \<open>lagrange\<close> is an implementation of it for the examples.
\<close>

section \<open>The code\<close>

definition rs_encode :: "Polynomial \<Rightarrow> int \<Rightarrow> int list \<Rightarrow> (exn, int list) res" where
  "rs_encode p factor roots =
     (if factor \<ge> 2
      then if int (length (coefficients p)) * factor \<le> int (length roots)
           then map_res (poly_eval p) (py_slice 0 (int (length (coefficients p)) * factor) roots)
           else Err AssertionError
      else Err AssertionError)"

fun present :: "(int option \<times> int) list \<Rightarrow> (int \<times> int) list" where
  "present [] = []"
| "present ((None, r) # ps) = present ps"
| "present ((Some v, r) # ps) = (v, r) # present ps"

definition rs_decode ::
    "(int list \<Rightarrow> int list \<Rightarrow> (exn, int list) res) \<Rightarrow> int \<Rightarrow> int option list \<Rightarrow> int list \<Rightarrow> int \<Rightarrow> (exn, Polynomial) res" where
  "rs_decode interp m encoded roots original_len =
     (case present (zip encoded roots) of
        [] \<Rightarrow> Err ValueError
      | ps \<Rightarrow> bind_res (interpolate interp (map fst ps) (map snd ps)) (\<lambda>cs.
          Ok \<lparr>coefficients = py_slice 0 original_len cs, poly_modulus = m\<rparr>))"

section \<open>Interpolation\<close>

definition interpolates :: "int \<Rightarrow> (int list \<Rightarrow> int list \<Rightarrow> (exn, int list) res) \<Rightarrow> bool" where
  "interpolates m interp \<longleftrightarrow>
     (\<forall>xs ys. xs \<noteq> [] \<longrightarrow> length xs = length ys \<longrightarrow> distinct (map (\<lambda>x. x mod m) xs) \<longrightarrow>
       (\<exists>cs. interp xs ys = Ok cs \<and> length cs = length xs \<and> reduced m cs \<and>
         (\<forall>i<length xs. peval cs (xs ! i) mod m = ys ! i mod m)))"

lemma interpolatesE:
  assumes "interpolates m interp" and "xs \<noteq> []" and "length xs = length ys" and "distinct (map (\<lambda>x. x mod m) xs)"
  obtains cs where "interp xs ys = Ok cs" and "length cs = length xs" and "reduced m cs"
    and "\<And>i. i < length xs \<Longrightarrow> peval cs (xs ! i) mod m = ys ! i mod m"
  using assms unfolding interpolates_def by blast

text \<open>The polynomial through given points is the given one, with zeros up to the number of points.\<close>

lemma interpolates_known:
  assumes "prime_modulus m" and "interpolates m interp" and "xs \<noteq> []" and "distinct (map (\<lambda>x. x mod m) xs)"
    and "reduced m cs" and "length cs \<le> length xs" and "length ys = length xs"
    and "\<And>i. i < length xs \<Longrightarrow> ys ! i mod m = peval cs (xs ! i) mod m"
  shows "interp xs ys = Ok (cs @ replicate (length xs - length cs) 0)"
proof -
  obtain ds where ds: "interp xs ys = Ok ds" "length ds = length xs" "reduced m ds"
      "\<And>i. i < length xs \<Longrightarrow> peval ds (xs ! i) mod m = ys ! i mod m"
    using interpolatesE [OF assms(2,3) assms(7) [symmetric] assms(4)] by blast
  have "ds = cs @ replicate (length xs - length cs) 0"
  proof (rule interpolation_unique [OF assms(1,4)])
    show "\<forall>u \<in> set xs. peval ds u mod m = peval (cs @ replicate (length xs - length cs) 0) u mod m"
      using ds(4) assms(8) by (auto simp: in_set_conv_nth peval_append)
    show "reduced m (cs @ replicate (length xs - length cs) 0)"
      using assms(1,5) by (auto simp: reduced_def prime_modulus_def)
  qed (use ds assms(6) in simp_all)
  then show ?thesis using ds(1) by simp
qed

section \<open>Encoding and decoding\<close>

lemma rs_encode_values:
  assumes "coefficients p \<noteq> []" and "2 \<le> factor" and "int (length (coefficients p)) * factor \<le> int (length roots)"
  shows "rs_encode p factor roots =
    Ok (map (\<lambda>x. peval (coefficients p) x mod poly_modulus p) (take (length (coefficients p) * nat factor) roots))"
  using assms by (simp add: rs_encode_def eval_list py_slice_nonneg nat_mult_distrib)

lemma present_values: "\<forall>(e, r) \<in> set ps. e = None \<or> e = Some (f r) \<Longrightarrow> map fst (present ps) = map f (map snd (present ps))"
  by (induction ps rule: present.induct) auto

lemma present_points: "set (map snd (present ps)) \<subseteq> set (map snd ps)"
  "distinct (map (\<lambda>p. g (snd p)) ps) \<Longrightarrow> distinct (map (\<lambda>p. g (snd p)) (present ps))"
proof -
  show sub: "set (map snd (present ps)) \<subseteq> set (map snd ps)" for ps by (induction ps rule: present.induct) auto
  show "distinct (map (\<lambda>p. g (snd p)) ps) \<Longrightarrow> distinct (map (\<lambda>p. g (snd p)) (present ps))"
  proof (induction ps rule: present.induct)
    case (3 v r ps)
    then show ?case using sub [of ps] by force
  qed auto
qed

lemma length_present: "length (present ps) = length (filter (\<lambda>e. e \<noteq> None) (map fst ps))"
  by (induction ps rule: present.induct) auto

lemma rs_decode_values:
  assumes "prime_modulus m" and "interpolates m interp" and "distinct (map (\<lambda>x. x mod m) roots)"
    and "reduced m cs" and "cs \<noteq> []" and "length encoded \<le> length roots"
    and "\<And>i v. i < length encoded \<Longrightarrow> encoded ! i = Some v \<Longrightarrow> v = peval cs (roots ! i) mod m"
    and "length cs \<le> length (filter (\<lambda>e. e \<noteq> None) encoded)"
  shows "rs_decode interp m encoded roots (int (length cs)) = Ok \<lparr>coefficients = cs, poly_modulus = m\<rparr>"
proof -
  let ?zs = "zip encoded roots"
  let ?ps = "present ?zs"
  let ?xs = "map snd ?ps"
  have "e = None \<or> e = Some (peval cs r mod m)" if "(e, r) \<in> set ?zs" for e r
    using that assms(7) by (cases e) (auto simp: in_set_zip)
  then have pts: "map fst ?ps = map (\<lambda>r. peval cs r mod m) ?xs" by (intro present_values) blast
  have "distinct (map (\<lambda>x. x mod m) (take (length encoded) roots))"
    using assms(3) distinct_take [of "map (\<lambda>x. x mod m) roots" "length encoded"] by (simp add: take_map)
  then have "distinct (map (\<lambda>x. x mod m) (map snd ?zs))" using assms(6) by (simp add: map_snd_zip_take min_def)
  then have "distinct (map (\<lambda>p. snd p mod m) ?zs)" unfolding map_map o_def .
  then have dist: "distinct (map (\<lambda>x. x mod m) ?xs)" using present_points(2) [of "\<lambda>x. x mod m" ?zs] by (simp add: o_def)
  have "map fst ?zs = encoded" using assms(6) by (simp add: map_fst_zip_take)
  then have len: "length cs \<le> length ?xs" using assms(8) by (simp only: length_map length_present)
  then have ne: "?ps \<noteq> []" using assms(5) by auto
  have "interp ?xs (map fst ?ps) = Ok (cs @ replicate (length ?xs - length cs) 0)"
    by (rule interpolates_known [OF assms(1,2) _ dist assms(4) len]) (use ne in \<open>simp_all add: pts\<close>)
  then have "interpolate interp (map fst ?ps) ?xs = Ok (cs @ replicate (length ?xs - length cs) 0)"
    by (simp add: interpolate_def py_slice_nonneg)
  then show ?thesis using ne by (cases ?ps) (simp_all add: rs_decode_def py_slice_nonneg)
qed

text \<open>Lost values.\<close>

definition erased :: "int list \<Rightarrow> int option list \<Rightarrow> bool" where
  "erased sent received \<longleftrightarrow> list_all2 (\<lambda>s r. r = None \<or> r = Some s) sent received"

lemma rs_erasure:
  assumes "prime_modulus m" and "interpolates m interp" and "distinct (map (\<lambda>x. x mod m) roots)"
    and "poly_modulus p = m" and "reduced m (coefficients p)" and "coefficients p \<noteq> []"
    and "rs_encode p factor roots = Ok sent" and "erased sent received"
    and "length (coefficients p) \<le> length (filter (\<lambda>e. e \<noteq> None) received)"
  shows "rs_decode interp m received roots (int (length (coefficients p))) = Ok p"
proof -
  have f: "2 \<le> factor" "int (length (coefficients p)) * factor \<le> int (length roots)"
    using assms(7) by (auto simp: rs_encode_def split: if_splits)
  have sent: "sent = map (\<lambda>x. peval (coefficients p) x mod m) (take (length (coefficients p) * nat factor) roots)"
    using assms(7) unfolding rs_encode_values [OF assms(6) f] assms(4) by simp
  have "length sent \<le> length roots" by (simp add: sent)
  moreover have "length received = length sent" using assms(8) by (auto simp: erased_def dest: list_all2_lengthD)
  moreover have "v = peval (coefficients p) (roots ! i) mod m" if "i < length received" "received ! i = Some v" for i v
    using assms(8) that \<open>length received = length sent\<close> by (fastforce simp: erased_def sent list_all2_conv_all_nth)
  ultimately have "rs_decode interp m received roots (int (length (coefficients p))) =
      Ok \<lparr>coefficients = coefficients p, poly_modulus = m\<rparr>"
    by (intro rs_decode_values assms) simp_all
  then show ?thesis using assms(4) by simp
qed

section \<open>An interpolation\<close>

text \<open>One point after the other: a multiple of the polynomial that vanishes at the points before.\<close>

fun vanishing :: "int \<Rightarrow> int list \<Rightarrow> int list" where
  "vanishing m [] = [1 mod m]"
| "vanishing m (x # xs) = (let v = vanishing m xs in map2 (\<lambda>a b. (a - x * b) mod m) (0 # v) (v @ [0]))"

fun lagrange :: "int \<Rightarrow> int list \<Rightarrow> int list \<Rightarrow> (exn, int list) res" where
  "lagrange m (x # xs) (y # ys) =
     bind_res (lagrange m xs ys) (\<lambda>cs.
     bind_res (mod_inverse (peval (vanishing m xs) x) m) (\<lambda>vi.
       let c = (y - peval cs x) * vi mod m
       in Ok (map2 (\<lambda>a b. (a + c * b) mod m) (cs @ [0]) (vanishing m xs))))"
| "lagrange m xs ys = Ok []"

lemma peval_plus_mult: "length as = length bs \<Longrightarrow> peval (map2 (\<lambda>a b. (a + c * b) mod m) as bs) x mod m = (peval as x + c * peval bs x) mod m"
proof -
  assume len: "length as = length bs"
  have "map2 (\<lambda>a b. (a + c * b) mod m) as bs = map (\<lambda>c. c mod m) (map2 (\<lambda>a b. a + c * b) as bs)"
    by (simp add: case_prod_beta)
  moreover have "peval (map2 (\<lambda>a b. a + c * b) as bs) x = peval as x + c * peval bs x"
    using len by (induction as bs rule: list_induct2) (simp_all add: distrib_left mult.left_commute)
  ultimately show ?thesis by (simp only: peval_mod)
qed

lemma length_vanishing [simp]: "length (vanishing m xs) = Suc (length xs)"
  by (induction xs) (simp_all add: Let_def)

lemma vanishing_eval: "peval (vanishing m xs) x mod m = prod_list (map (\<lambda>u. x - u) xs) mod m"
proof (induction xs)
  case (Cons u xs)
  let ?v = "vanishing m xs"
  have "peval (vanishing m (u # xs)) x mod m = (peval (0 # ?v) x + (- u) * peval (?v @ [0]) x) mod m"
    using peval_plus_mult [of "0 # ?v" "?v @ [0]" "- u" m x] by (simp add: Let_def)
  also have "\<dots> = (x - u) * peval ?v x mod m" by (simp add: peval_append algebra_simps)
  also have "\<dots> = (x - u) * prod_list (map (\<lambda>u. x - u) xs) mod m" by (rule mod_mult_cong [OF refl Cons])
  finally show ?case by simp
qed simp

lemma lagrange_interpolates:
  assumes "prime_modulus m"
  shows "interpolates m (lagrange m)"
  unfolding interpolates_def
proof (intro allI impI)
  fix xs ys :: "int list"
  assume "length xs = length ys" and "distinct (map (\<lambda>x. x mod m) xs)"
  then show "\<exists>cs. lagrange m xs ys = Ok cs \<and> length cs = length xs \<and> reduced m cs \<and>
      (\<forall>i<length xs. peval cs (xs ! i) mod m = ys ! i mod m)"
  proof (induction xs ys rule: list_induct2)
    case (Cons x xs y ys)
    let ?v = "vanishing m xs"
    obtain cs where cs: "lagrange m xs ys = Ok cs" "length cs = length xs" "reduced m cs"
        "\<forall>i<length xs. peval cs (xs ! i) mod m = ys ! i mod m" using Cons by auto
    have new: "\<not> m dvd x - u" if "u \<in> set xs" for u
      using Cons.prems imageI [OF that, of "\<lambda>x. x mod m"] by (auto simp: mod_eq_dvd_iff [symmetric])
    have "\<not> m dvd prod_list (map (\<lambda>u. x - u) us)" if "set us \<subseteq> set xs" for us
      using that new assms by (induction us) (auto simp: prime_dvd_mult prime_modulus_def)
    then have "\<not> m dvd peval ?v x" using vanishing_eval [of m xs x] by (metis dvd_mod_iff dvd_refl order_refl)
    then obtain vi where vi: "mod_inverse (peval ?v x) m = Ok vi" using mod_inverse_ok [OF assms] by blast
    define c where "c = (y - peval cs x) * vi mod m"
    let ?ds = "map2 (\<lambda>a b. (a + c * b) mod m) (cs @ [0]) ?v"
    have eval: "peval ?ds z mod m = (peval cs z + c * peval ?v z) mod m" for z
      using peval_plus_mult [of "cs @ [0]" ?v c m z] cs(2) by (simp add: peval_append)
    have "peval ?ds x mod m = y mod m"
    proof -
      have "c * peval ?v x mod m = (y - peval cs x) * (peval ?v x * vi) mod m"
        unfolding c_def mod_mult_left_eq by (simp add: ac_simps)
      also have "\<dots> = (y - peval cs x) * 1 mod m" by (rule mod_mult_cong [OF refl mod_inverse_Ok(2) [OF vi]])
      finally have "(peval cs x + c * peval ?v x) mod m = (peval cs x + (y - peval cs x) * 1) mod m"
        by (rule mod_add_cong [OF refl])
      then show ?thesis by (simp add: eval)
    qed
    moreover have "peval ?ds (xs ! i) mod m = ys ! i mod m" if "i < length xs" for i
    proof -
      have "prod_list (map (\<lambda>u. xs ! i - u) xs) = 0" using nth_mem [OF that] by (force simp: prod_list_zero_iff)
      then have "peval ?v (xs ! i) mod m = 0 mod m" by (simp add: vanishing_eval)
      then have "c * peval ?v (xs ! i) mod m = c * 0 mod m" by (rule mod_mult_cong [OF refl])
      then have "(peval cs (xs ! i) + c * peval ?v (xs ! i)) mod m = (ys ! i + c * 0) mod m"
        by (rule mod_add_cong [OF cs(4) [rule_format, OF that]])
      then show ?thesis by (simp add: eval)
    qed
    ultimately have "\<forall>i<length (x # xs). peval ?ds ((x # xs) ! i) mod m = (y # ys) ! i mod m"
      by (auto simp: nth_Cons split: nat.splits)
    moreover have "reduced m ?ds" using assms by (auto simp: reduced_def prime_modulus_def)
    ultimately show ?case using cs(1,2) vi by (intro exI [of _ ?ds]) (simp add: Let_def c_def)
  qed simp
qed

lemma prime_modulus_code: "prime_modulus p \<longleftrightarrow> 1 < p \<and> (\<forall>d \<in> set [2..p - 1]. \<not> d dvd p)"
proof
  assume p: "1 < p \<and> (\<forall>d \<in> set [2..p - 1]. \<not> d dvd p)"
  have "d = 1 \<or> d = p" if "0 < d" "d dvd p" for d
  proof (rule ccontr)
    assume "\<not> (d = 1 \<or> d = p)"
    moreover have "d \<le> p" using p that(2) by (auto dest: zdvd_imp_le)
    ultimately have "d \<in> set [2..p - 1]" using that(1) by simp
    then show False using p that(2) by blast
  qed
  then show "prime_modulus p" using p by (simp add: prime_modulus_def)
qed (force simp: prime_modulus_def)

end
