(* ===== verification/Kzg.thy ===== *)
theory Kzg
  imports Reed_Solomon Fragments
begin

text \<open>
  da/kzg_rs/trusted_setup.py, common.py and kzg.py: commitments to polynomials and proofs of
  their values.

  The curve, its encoding and its pairing (\<open>eth2spec.utils.bls\<close>), and the conversions of the
  consensus specification are fields of \<open>KzgEnv\<close>, together with the globals of common.py, which
  \<open>load_common\<close> computes. The curve is used through its documented behaviour, \<open>discrete_logs\<close>: points
  are multiples of the generators, the operations compute with the multipliers modulo the group
  order, and the encoding of a point determines its multiplier.
\<close>

section \<open>The libraries\<close>

record ('g, 'h) KzgEnv =
  Z1 :: 'g
  Z2 :: 'h
  G1 :: 'g
  G2 :: 'h
  add1 :: "'g \<Rightarrow> 'g \<Rightarrow> 'g"
  add2 :: "'h \<Rightarrow> 'h \<Rightarrow> 'h"
  multiply1 :: "'g \<Rightarrow> int \<Rightarrow> 'g"
  multiply2 :: "'h \<Rightarrow> int \<Rightarrow> 'h"
  neg1 :: "'g \<Rightarrow> 'g"
  neg2 :: "'h \<Rightarrow> 'h"
  pairing_check :: "('g \<times> 'h) list \<Rightarrow> bool"
  G1_to_bytes48 :: "'g \<Rightarrow> bytes"
  bytes48_to_G1 :: "bytes \<Rightarrow> (exn, 'g) res"
  interpolate_coeff :: "int list \<Rightarrow> int list \<Rightarrow> (exn, int list) res"
  bytes_to_bls_field :: "bytes \<Rightarrow> (exn, int) res"
  field_from_bytes :: "bytes \<Rightarrow> (exn, int) res"
  blake2b :: "nat \<Rightarrow> bytes \<Rightarrow> bytes"
  BLS_MODULUS :: int
  GLOBAL_PARAMETERS :: "'g list"
  GLOBAL_PARAMETERS_G2 :: "'h list"
  ROOTS_OF_UNITY :: "int list"

definition discrete_logs :: "('g, 'h) KzgEnv \<Rightarrow> ('g \<Rightarrow> int) \<Rightarrow> ('h \<Rightarrow> int) \<Rightarrow> bool" where
  "discrete_logs E l1 l2 \<longleftrightarrow>
     (let m = BLS_MODULUS E
      in l1 (Z1 E) mod m = 0 \<and> l2 (Z2 E) mod m = 0 \<and> l1 (G1 E) mod m = 1 mod m \<and> l2 (G2 E) mod m = 1 mod m \<and>
         (\<forall>x y. l1 (add1 E x y) mod m = (l1 x + l1 y) mod m) \<and> (\<forall>x y. l2 (add2 E x y) mod m = (l2 x + l2 y) mod m) \<and>
         (\<forall>x c. l1 (multiply1 E x c) mod m = l1 x * c mod m) \<and> (\<forall>x c. l2 (multiply2 E x c) mod m = l2 x * c mod m) \<and>
         (\<forall>x. l1 (neg1 E x) mod m = - l1 x mod m) \<and> (\<forall>x. l2 (neg2 E x) mod m = - l2 x mod m) \<and>
         (\<forall>ps. pairing_check E ps \<longleftrightarrow> sum_list (map (\<lambda>(x, y). l1 x * l2 y) ps) mod m = 0) \<and>
         (\<forall>x. \<exists>y. bytes48_to_G1 E (G1_to_bytes48 E x) = Ok y \<and> l1 y mod m = l1 x mod m) \<and>
         (\<forall>x y. G1_to_bytes48 E x = G1_to_bytes48 E y \<longleftrightarrow> l1 x mod m = l1 y mod m))"

section \<open>Trusted setup\<close>

text \<open>\<open>accumulate(repeat(secret), bls.multiply, initial=generator)\<close>, the first \<open>length\<close> elements.\<close>

fun accumulate :: "('g \<Rightarrow> int \<Rightarrow> 'g) \<Rightarrow> int \<Rightarrow> 'g \<Rightarrow> nat \<Rightarrow> 'g list" where
  "accumulate mul secret x 0 = []"
| "accumulate mul secret x (Suc n) = x # accumulate mul secret (mul x secret) n"

definition generate_one_sided_setup :: "('g \<Rightarrow> int \<Rightarrow> 'g) \<Rightarrow> int \<Rightarrow> int \<Rightarrow> 'g \<Rightarrow> 'g list" where
  "generate_one_sided_setup mul len secret generator = accumulate mul secret generator (nat len)"

definition generate_setup :: "('g, 'h) KzgEnv \<Rightarrow> int \<Rightarrow> int \<Rightarrow> int \<Rightarrow> 'g list \<times> 'h list" where
  "generate_setup E g1_length g2_length secret =
     (generate_one_sided_setup (multiply1 E) g1_length secret (G1 E),
      generate_one_sided_setup (multiply2 E) g2_length secret (G2 E))"

definition linear_combination :: "('g \<Rightarrow> 'g \<Rightarrow> 'g) \<Rightarrow> ('g \<Rightarrow> int \<Rightarrow> 'g) \<Rightarrow> 'g list \<Rightarrow> int list \<Rightarrow> 'g \<Rightarrow> 'g" where
  "linear_combination add mul points coeffs zero = foldl (\<lambda>o' (p, c). add o' (mul p c)) zero (zip points coeffs)"

text \<open>\<open>verify_setup\<close>, with the random coefficients it draws.\<close>

definition verify_setup ::
    "('g, 'h) KzgEnv \<Rightarrow> int list \<Rightarrow> int list \<Rightarrow> 'g list \<times> 'h list \<Rightarrow> (exn, bool) res" where
  "verify_setup E coeffs1 coeffs2 setup =
     (case setup of (g1_setup, g2_setup) \<Rightarrow>
       let g1_lower = linear_combination (add1 E) (multiply1 E) (py_slice 0 (- 1) g1_setup) coeffs1 (Z1 E);
           g1_upper = linear_combination (add1 E) (multiply1 E) (drop 1 g1_setup) coeffs1 (Z1 E);
           g2_lower = linear_combination (add2 E) (multiply2 E) (py_slice 0 (- 1) g2_setup) coeffs2 (Z2 E);
           g2_upper = linear_combination (add2 E) (multiply2 E) (drop 1 g2_setup) coeffs2 (Z2 E)
       in bind_res (py_index g1_setup 0) (\<lambda>x. if x \<noteq> G1 E then Ok False else
          bind_res (py_index g2_setup 0) (\<lambda>y. if y \<noteq> G2 E then Ok False else
          Ok (pairing_check E [(g1_upper, neg2 E g2_lower), (g1_lower, g2_upper)]))))"

text \<open>The globals of common.py.\<close>

definition BYTES_PER_FIELD_ELEMENT :: int where
  "BYTES_PER_FIELD_ELEMENT = 32"

definition PRIMITIVE_ROOT :: int where
  "PRIMITIVE_ROOT = 7"

definition load_common :: "('g, 'h) KzgEnv \<Rightarrow> (exn, ('g, 'h) KzgEnv) res" where
  "load_common E =
     (let (g1, g2) = generate_setup E 4096 8 1987
      in bind_res (compute_roots_of_unity PRIMITIVE_ROOT 4096 (BLS_MODULUS E)) (\<lambda>roots.
        Ok (E\<lparr>GLOBAL_PARAMETERS := g1, GLOBAL_PARAMETERS_G2 := g2, ROOTS_OF_UNITY := roots\<rparr>)))"

section \<open>Commitments and proofs\<close>

definition py_batched :: "'a list \<Rightarrow> int \<Rightarrow> (exn, 'a list list) res" where
  "py_batched xs n = (if n < 1 then Err ValueError else Ok (batched xs (nat n)))"

definition bytes_to_polynomial :: "('g, 'h) KzgEnv \<Rightarrow> bytes \<Rightarrow> int \<Rightarrow> (exn, Polynomial) res" where
  "bytes_to_polynomial E b n =
     (if n = 0 then Err ZeroDivisionError
      else if int (length b) mod n = 0
      then bind_res (py_batched b n) (\<lambda>cs.
           bind_res (map_res (bytes_to_bls_field E) cs) (\<lambda>eval_form.
           from_evaluations (interpolate_coeff E) eval_form (BLS_MODULUS E) (ROOTS_OF_UNITY E)))
      else Err AssertionError)"

definition g1_linear_combination :: "('g, 'h) KzgEnv \<Rightarrow> Polynomial \<Rightarrow> 'g list \<Rightarrow> (exn, bytes) res" where
  "g1_linear_combination E p global_parameters =
     (if length (coefficients p) \<le> length global_parameters
      then Ok (G1_to_bytes48 E (foldl (add1 E) (Z1 E) (map2 (multiply1 E) global_parameters (coefficients p))))
      else Err AssertionError)"

definition bytes_to_commitment :: "('g, 'h) KzgEnv \<Rightarrow> bytes \<Rightarrow> 'g list \<Rightarrow> (exn, Polynomial \<times> bytes) res" where
  "bytes_to_commitment E b global_parameters =
     bind_res (bytes_to_polynomial E b BYTES_PER_FIELD_ELEMENT) (\<lambda>poly.
     bind_res (g1_linear_combination E poly global_parameters) (\<lambda>c. Ok (poly, c)))"

definition generate_element_proof ::
    "('g, 'h) KzgEnv \<Rightarrow> int \<Rightarrow> Polynomial \<Rightarrow> 'g list \<Rightarrow> int list \<Rightarrow> (exn, bytes) res" where
  "generate_element_proof E element_index p global_parameters roots =
     bind_res (py_index roots element_index) (\<lambda>u.
     bind_res (poly_eval p u) (\<lambda>v.
       let f_x_v = poly_sub p \<lparr>coefficients = [v], poly_modulus = BLS_MODULUS E\<rparr>;
           x_u = \<lparr>coefficients = [- u, 1], poly_modulus = BLS_MODULUS E\<rparr>
       in bind_res (divide f_x_v x_u) (\<lambda>(witness, _). g1_linear_combination E witness global_parameters)))"

definition verify_element_proof ::
    "('g, 'h) KzgEnv \<Rightarrow> int \<Rightarrow> bytes \<Rightarrow> bytes \<Rightarrow> int \<Rightarrow> int list \<Rightarrow> (exn, bool) res" where
  "verify_element_proof E chunk com prf element_index roots =
     bind_res (py_index roots element_index) (\<lambda>u.
     bind_res (bytes48_to_G1 E com) (\<lambda>c.
       let commitment_check_G1 = add1 E c (neg1 E (multiply1 E (G1 E) chunk))
       in bind_res (py_index (GLOBAL_PARAMETERS_G2 E) 1) (\<lambda>s2.
            let proof_check_g2 = add2 E s2 (neg2 E (multiply2 E (G2 E) u))
            in bind_res (bytes48_to_G1 E prf) (\<lambda>w.
                 Ok (pairing_check E [(commitment_check_G1, neg2 E (G2 E)), (w, proof_check_g2)])))))"

section \<open>What the logarithms say\<close>

lemma discrete_logsD:
  assumes "discrete_logs E l1 l2"
  shows "l1 (Z1 E) mod BLS_MODULUS E = 0" "l2 (Z2 E) mod BLS_MODULUS E = 0"
    "l1 (G1 E) mod BLS_MODULUS E = 1 mod BLS_MODULUS E" "l2 (G2 E) mod BLS_MODULUS E = 1 mod BLS_MODULUS E"
    "l1 (add1 E x y) mod BLS_MODULUS E = (l1 x + l1 y) mod BLS_MODULUS E"
    "l2 (add2 E x' y') mod BLS_MODULUS E = (l2 x' + l2 y') mod BLS_MODULUS E"
    "l1 (multiply1 E x c) mod BLS_MODULUS E = l1 x * c mod BLS_MODULUS E"
    "l2 (multiply2 E x' c) mod BLS_MODULUS E = l2 x' * c mod BLS_MODULUS E"
    "l1 (neg1 E x) mod BLS_MODULUS E = - l1 x mod BLS_MODULUS E"
    "l2 (neg2 E x') mod BLS_MODULUS E = - l2 x' mod BLS_MODULUS E"
    "pairing_check E ps \<longleftrightarrow> sum_list (map (\<lambda>(x, y). l1 x * l2 y) ps) mod BLS_MODULUS E = 0"
    "\<exists>z. bytes48_to_G1 E (G1_to_bytes48 E x) = Ok z \<and> l1 z mod BLS_MODULUS E = l1 x mod BLS_MODULUS E"
    "G1_to_bytes48 E x = G1_to_bytes48 E y \<longleftrightarrow> l1 x mod BLS_MODULUS E = l1 y mod BLS_MODULUS E"
  using assms by (simp_all add: discrete_logs_def Let_def)

text \<open>The powers of the secret.\<close>

definition secret_powers :: "('g, 'h) KzgEnv \<Rightarrow> ('g \<Rightarrow> int) \<Rightarrow> 'g list \<Rightarrow> int \<Rightarrow> bool" where
  "secret_powers E l1 gs s \<longleftrightarrow> (\<forall>i<length gs. l1 (gs ! i) mod BLS_MODULUS E = s ^ i mod BLS_MODULUS E)"

definition setup_ok :: "('g, 'h) KzgEnv \<Rightarrow> ('g \<Rightarrow> int) \<Rightarrow> ('h \<Rightarrow> int) \<Rightarrow> int \<Rightarrow> bool" where
  "setup_ok E l1 l2 s \<longleftrightarrow> discrete_logs E l1 l2 \<and> secret_powers E l1 (GLOBAL_PARAMETERS E) s \<and>
     1 < length (GLOBAL_PARAMETERS_G2 E) \<and> l2 (GLOBAL_PARAMETERS_G2 E ! 1) mod BLS_MODULUS E = s mod BLS_MODULUS E"

lemma accumulate_logs:
  assumes "\<And>x c. l (mul x c) mod m = l x * c mod m"
  shows "length (accumulate mul s x n) = n" "i < n \<Longrightarrow> l (accumulate mul s x n ! i) mod m = l x * s ^ i mod (m :: int)"
proof -
  show "length (accumulate mul s x n) = n" for x by (induction n arbitrary: x) simp_all
  show "i < n \<Longrightarrow> l (accumulate mul s x n ! i) mod m = l x * s ^ i mod m"
  proof (induction n arbitrary: x i)
    case (Suc n)
    show ?case
    proof (cases i)
      case (Suc j)
      then have "l (accumulate mul s x (Suc n) ! i) mod m = l (mul x s) * s ^ j mod m" using Suc.IH Suc.prems by simp
      also have "\<dots> = l x * s * s ^ j mod m" by (rule mod_mult_cong [OF assms refl])
      finally show ?thesis by (simp add: Suc mult.assoc)
    qed simp
  qed simp
qed

lemma generate_setup_logs:
  assumes "discrete_logs E l1 l2" and "generate_setup E n1 n2 s = (g1, g2)"
  shows "length g1 = nat n1" "length g2 = nat n2" "i < length g1 \<Longrightarrow> l1 (g1 ! i) mod BLS_MODULUS E = s ^ i mod BLS_MODULUS E"
    "i < length g2 \<Longrightarrow> l2 (g2 ! i) mod BLS_MODULUS E = s ^ i mod BLS_MODULUS E"
proof -
  note D = discrete_logsD [OF assms(1)]
  have g: "g1 = accumulate (multiply1 E) s (G1 E) (nat n1)" "g2 = accumulate (multiply2 E) s (G2 E) (nat n2)"
    using assms(2) by (auto simp: generate_setup_def generate_one_sided_setup_def)
  show "length g1 = nat n1" "length g2 = nat n2"
    by (simp_all add: g accumulate_logs(1) [of l1 _ "BLS_MODULUS E", OF D(7)] accumulate_logs(1) [of l2 _ "BLS_MODULUS E", OF D(8)])
  note len = this
  show "i < length g1 \<Longrightarrow> l1 (g1 ! i) mod BLS_MODULUS E = s ^ i mod BLS_MODULUS E"
    using accumulate_logs(2) [of l1 _ "BLS_MODULUS E", OF D(7), of i "nat n1" s "G1 E"] mod_mult_cong [OF D(3) refl, of "s ^ i"]
    unfolding len by (simp add: g)
  show "i < length g2 \<Longrightarrow> l2 (g2 ! i) mod BLS_MODULUS E = s ^ i mod BLS_MODULUS E"
    using accumulate_logs(2) [of l2 _ "BLS_MODULUS E", OF D(8), of i "nat n2" s "G2 E"] mod_mult_cong [OF D(4) refl, of "s ^ i"]
    unfolding len by (simp add: g)
qed

text \<open>The commitment is the value of the polynomial at the secret.\<close>

lemma foldl_logs:
  assumes "\<And>x y. l (add x y) mod m = (l x + l y) mod m"
  shows "l (foldl add z xs) mod m = (l z + sum_list (map l xs)) mod (m :: int)"
proof (induction xs arbitrary: z)
  case (Cons x xs)
  have "l (foldl add (add z x) xs) mod m = (l (add z x) + sum_list (map l xs)) mod m" by (rule Cons)
  also have "\<dots> = (l z + l x + sum_list (map l xs)) mod m" by (rule mod_add_cong [OF assms refl])
  finally show ?case by (simp add: add.assoc)
qed simp

lemma combination_logs:
  assumes "\<And>x c. l (mul x c) mod m = l x * c mod m" and "\<And>i. i < length cs \<Longrightarrow> l (gs ! i) mod m = b * s ^ i mod (m :: int)"
    and "length cs \<le> length gs"
  shows "sum_list (map l (map2 mul gs cs)) mod m = b * peval cs s mod m"
  using assms(2,3)
proof (induction cs arbitrary: gs b)
  case (Cons c cs)
  then obtain g gs' where gs: "gs = g # gs'" by (cases gs) auto
  have head: "l (mul g c) mod m = b * c mod m"
    using assms(1) [of g c] mod_mult_cong [OF _ refl, of "l g" m b c] Cons.prems(1) [of 0] by (simp add: gs)
  have "sum_list (map l (map2 mul gs' cs)) mod m = (b * s) * peval cs s mod m"
    by (rule Cons.IH) (use Cons.prems(1) [of "Suc _"] Cons.prems(2) in \<open>auto simp: gs mult.assoc\<close>)
  with head have "(l (mul g c) + sum_list (map l (map2 mul gs' cs))) mod m = (b * c + (b * s) * peval cs s) mod m"
    by (rule mod_add_cong)
  then show ?case by (simp add: gs distrib_left mult.assoc)
qed simp

lemma commitment_log:
  assumes "discrete_logs E l1 l2" and "secret_powers E l1 gs s" and "length (coefficients p) \<le> length gs"
  shows "\<exists>x. g1_linear_combination E p gs = Ok (G1_to_bytes48 E x) \<and>
    l1 x mod BLS_MODULUS E = peval (coefficients p) s mod BLS_MODULUS E"
proof -
  note D = discrete_logsD [OF assms(1)]
  let ?x = "foldl (add1 E) (Z1 E) (map2 (multiply1 E) gs (coefficients p))"
  have "l1 ?x mod BLS_MODULUS E = (l1 (Z1 E) + sum_list (map l1 (map2 (multiply1 E) gs (coefficients p)))) mod BLS_MODULUS E"
    by (rule foldl_logs [OF D(5)])
  also have "\<dots> = (0 + 1 * peval (coefficients p) s) mod BLS_MODULUS E"
    by (rule mod_add_cong, simp add: D(1), rule combination_logs [OF D(7) _ assms(3)])
      (use assms(2,3) in \<open>simp add: secret_powers_def\<close>)
  finally show ?thesis using assms(3) by (auto simp: g1_linear_combination_def)
qed

text \<open>A generated setup is verified, whatever the random coefficients.\<close>

lemma linear_combination_log:
  assumes "\<And>x y. l (add x y) mod m = (l x + l y) mod m" and "\<And>x c. l (mul x c) mod m = l x * c mod m" and "l z mod m = 0"
    and "\<And>i. i < length cs \<Longrightarrow> l (gs ! i) mod m = b * s ^ i mod (m :: int)" and "length cs \<le> length gs"
  shows "l (linear_combination add mul gs cs z) mod m = b * peval cs s mod m"
proof -
  have "linear_combination add mul gs cs z = foldl add z (map2 mul gs cs)"
    unfolding linear_combination_def foldl_map by (rule foldl_cong) auto
  then have "l (linear_combination add mul gs cs z) mod m = (l z + sum_list (map l (map2 mul gs cs))) mod m"
    using foldl_logs [of l add m z "map2 mul gs cs", OF assms(1)] by simp
  also have "\<dots> = (0 + b * peval cs s) mod m"
    by (rule mod_add_cong, simp add: assms(3), rule combination_logs [of l mul m, OF assms(2,4,5)])
  finally show ?thesis by simp
qed

lemma generated_setup_verifies:
  assumes E: "discrete_logs E l1 l2" and n: "1 \<le> n1" "1 \<le> n2"
    and cs: "length cs1 \<le> nat (n1 - 1)" "length cs2 \<le> nat (n2 - 1)"
  shows "verify_setup E cs1 cs2 (generate_setup E n1 n2 s) = Ok True"
proof -
  let ?m = "BLS_MODULUS E"
  obtain g1 g2 where g: "generate_setup E n1 n2 s = (g1, g2)" by (cases "generate_setup E n1 n2 s")
  note D = discrete_logsD [OF E] and G = generate_setup_logs [OF E g]
  have len: "length cs1 < length g1" "length cs2 < length g2" using G(1,2) cs n by auto
  have first: "py_index g1 0 = Ok (G1 E)" "py_index g2 0 = Ok (G2 E)"
  proof -
    have "g1 = accumulate (multiply1 E) s (G1 E) (nat n1)" "g2 = accumulate (multiply2 E) s (G2 E) (nat n2)"
      using g by (auto simp: generate_setup_def generate_one_sided_setup_def)
    moreover have "nat n1 = Suc (nat (n1 - 1))" "nat n2 = Suc (nat (n2 - 1))" using n by auto
    ultimately show "py_index g1 0 = Ok (G1 E)" "py_index g2 0 = Ok (G2 E)" by (simp_all add: py_index_def)
  qed
  define A A' where "A = linear_combination (add1 E) (multiply1 E) (butlast g1) cs1 (Z1 E)"
    and "A' = linear_combination (add1 E) (multiply1 E) (drop 1 g1) cs1 (Z1 E)"
  define B B' where "B = linear_combination (add2 E) (multiply2 E) (butlast g2) cs2 (Z2 E)"
    and "B' = linear_combination (add2 E) (multiply2 E) (drop 1 g2) cs2 (Z2 E)"
  have A: "l1 A mod ?m = 1 * peval cs1 s mod ?m" unfolding A_def
    by (rule linear_combination_log [of l1, OF D(5,7,1)]) (use G(3) len in \<open>auto simp: nth_butlast\<close>)
  have A': "l1 A' mod ?m = s * peval cs1 s mod ?m" unfolding A'_def
    by (rule linear_combination_log [of l1, OF D(5,7,1)]) (use G(3) [of "Suc _"] len in auto)
  have B: "l2 B mod ?m = 1 * peval cs2 s mod ?m" unfolding B_def
    by (rule linear_combination_log [of l2, OF D(6,8,2)]) (use G(4) len in \<open>auto simp: nth_butlast\<close>)
  have B': "l2 B' mod ?m = s * peval cs2 s mod ?m" unfolding B'_def
    by (rule linear_combination_log [of l2, OF D(6,8,2)]) (use G(4) [of "Suc _"] len in auto)
  have nB: "l2 (neg2 E B) mod ?m = - peval cs2 s mod ?m"
    unfolding D(10) using B by (metis mod_minus_eq mult_1)
  have "(l1 A' * l2 (neg2 E B) + l1 A * l2 B') mod ?m = (s * peval cs1 s * - peval cs2 s + 1 * peval cs1 s * (s * peval cs2 s)) mod ?m"
    by (intro mod_add_cong mod_mult_cong A A' nB B')
  then have "(l1 A' * l2 (neg2 E B) + l1 A * l2 B') mod ?m = 0" by simp
  then have "pairing_check E [(A', neg2 E B), (A, B')]" by (simp add: D(11))
  then show ?thesis
    using first by (simp add: verify_setup_def g Let_def py_slice_butlast A_def A'_def B_def B'_def)
qed

text \<open>The check compares the logarithms.\<close>

lemma verify_element_iff:
  assumes "setup_ok E l1 l2 s" and "py_index roots idx = Ok u"
    and "com = G1_to_bytes48 E c" and "prf = G1_to_bytes48 E w"
  shows "verify_element_proof E v com prf idx roots =
    Ok ((l1 c - v) mod BLS_MODULUS E = l1 w * (s - u) mod BLS_MODULUS E)"
proof -
  let ?m = "BLS_MODULUS E"
  have logs: "discrete_logs E l1 l2" and g2: "1 < length (GLOBAL_PARAMETERS_G2 E)" "l2 (GLOBAL_PARAMETERS_G2 E ! 1) mod ?m = s mod ?m"
    using assms(1) by (simp_all add: setup_ok_def)
  note D = discrete_logsD [OF logs]
  obtain c' w' where c': "bytes48_to_G1 E com = Ok c'" "l1 c' mod ?m = l1 c mod ?m"
    and w': "bytes48_to_G1 E prf = Ok w'" "l1 w' mod ?m = l1 w mod ?m"
    using D(12) [of c] D(12) [of w] assms(3,4) by auto
  let ?a = "add1 E c' (neg1 E (multiply1 E (G1 E) v))"
  let ?b = "add2 E (GLOBAL_PARAMETERS_G2 E ! 1) (neg2 E (multiply2 E (G2 E) u))"
  have minus1: "l1 (neg1 E (multiply1 E (G1 E) v)) mod ?m = - v mod ?m"
  proof -
    have "l1 (multiply1 E (G1 E) v) mod ?m = v mod ?m" using D(7) [of "G1 E" v] mod_mult_cong [OF D(3) refl, of v] by simp
    then show ?thesis unfolding D(9) by (metis mod_minus_eq)
  qed
  have minus2: "l2 (neg2 E (multiply2 E (G2 E) u)) mod ?m = - u mod ?m"
  proof -
    have "l2 (multiply2 E (G2 E) u) mod ?m = u mod ?m" using D(8) [of "G2 E" u] mod_mult_cong [OF D(4) refl, of u] by simp
    then show ?thesis unfolding D(10) by (metis mod_minus_eq)
  qed
  have a: "l1 ?a mod ?m = (l1 c - v) mod ?m"
    using D(5) mod_add_cong [OF c'(2) minus1] by simp
  have b: "l2 ?b mod ?m = (s - u) mod ?m"
    using D(6) mod_add_cong [OF g2(2) minus2] by simp
  have n: "l2 (neg2 E (G2 E)) mod ?m = - 1 mod ?m"
    unfolding D(10) using D(4) by (metis mod_minus_eq)
  have "pairing_check E [(?a, neg2 E (G2 E)), (w', ?b)] \<longleftrightarrow>
      (l1 ?a * l2 (neg2 E (G2 E)) + l1 w' * l2 ?b) mod ?m = 0" by (simp add: D(11))
  also have "(l1 ?a * l2 (neg2 E (G2 E)) + l1 w' * l2 ?b) mod ?m = ((l1 c - v) * (- 1) + l1 w * (s - u)) mod ?m"
    by (intro mod_add_cong mod_mult_cong a b n w'(2))
  also have "((l1 c - v) * (- 1) + l1 w * (s - u)) mod ?m = 0 \<longleftrightarrow> (l1 c - v) mod ?m = l1 w * (s - u) mod ?m"
    by (simp add: mod_eq_dvd_iff mod_eq_0_iff_dvd algebra_simps)
      (metis (no_types, lifting) dvd_minus_iff minus_diff_eq diff_diff_eq2 add.commute add_diff_eq)
  finally have "pairing_check E [(?a, neg2 E (G2 E)), (w', ?b)] \<longleftrightarrow> (l1 c - v) mod ?m = l1 w * (s - u) mod ?m" .
  moreover have "py_index (GLOBAL_PARAMETERS_G2 E) 1 = Ok (GLOBAL_PARAMETERS_G2 E ! 1)" using g2(1) by (simp add: py_index_def)
  ultimately show ?thesis by (simp add: verify_element_proof_def assms(2) c'(1) w'(1) Let_def)
qed

section \<open>The quotient\<close>

lemma long_division_linear:
  assumes "0 < m" and "r \<noteq> []" and "reduced m r"
  shows "long_division m [- u, 1] (1 mod m) r = (map (\<lambda>c. c mod m) (synthetic r u), [peval r u mod m])"
  using assms(2,3)
proof (induction r rule: length_induct)
  case (1 r)
  show ?case
  proof (cases "length r = 1")
    case True
    then obtain c where "r = [c]" by (auto simp: length_Suc_conv)
    then show ?thesis using 1 by (subst long_division.simps) simp
  next
    case False
    then obtain b c ys where r: "r = ys @ [b, c]"
      using 1(2) by (metis append_butlast_last_id append.assoc append_Cons append_Nil length_Cons list.size(3) One_nat_def)
    have c: "c * (1 mod m) mod m = c" using 1(3) by (simp add: r mod_mult_right_eq)
    have sub: "sub_shifted m r [- u, 1] c = (ys @ [(b + u * c) mod m]) @ [0]"
      using 1(3) by (simp add: r sub_shifted_def Let_def)
    have syn: "map (\<lambda>c. c mod m) (synthetic (ys @ [b, c]) u) = map (\<lambda>c. c mod m) (synthetic (ys @ [(b + u * c) mod m]) u) @ [c mod m]"
    proof (induction ys)
      case (Cons y ys)
      have "peval (ys @ [b, c]) u mod m = peval (ys @ [(b + u * c) mod m]) u mod m"
        by (simp add: peval_append mod_plus_mult)
      moreover have "synthetic (y # zs) u = peval zs u # synthetic zs u" if "zs \<noteq> []" for zs
        using that by (cases zs) simp_all
      ultimately show ?case using Cons by simp
    qed simp
    have "long_division m [- u, 1] (1 mod m) (ys @ [(b + u * c) mod m]) =
        (map (\<lambda>c. c mod m) (synthetic (ys @ [(b + u * c) mod m]) u), [peval (ys @ [(b + u * c) mod m]) u mod m])"
      by (rule 1(1) [rule_format]) (use 1(3) assms(1) in \<open>simp_all add: r\<close>)
    moreover have "peval (ys @ [(b + u * c) mod m]) u mod m = peval r u mod m" by (simp add: r peval_append mod_plus_mult)
    moreover have "butlast (sub_shifted m r [- u, 1] c) = ys @ [(b + u * c) mod m]" unfolding sub butlast_snoc ..
    ultimately show ?thesis using 1(3) c syn by (subst long_division.simps) (simp add: r Let_def)
  qed
qed

lemma synthetic_nth: "i + 1 < length cs \<Longrightarrow> synthetic cs u ! i = peval (drop (Suc i) cs) u"
proof (induction cs u arbitrary: i rule: synthetic.induct)
  case (3 c d cs u)
  then show ?case by (cases i) (simp_all del: peval.simps)
qed simp_all

lemma synthetic_head: "synthetic (a # cs) u = synthetic (b # cs) u"
  by (cases cs) simp_all

text \<open>The quotient \<open>divide\<close> computes: the zeros below the leading coefficient are missing.\<close>

definition compressed :: "int list \<Rightarrow> int list" where
  "compressed q = (if q = [] then [] else nonzero (butlast q) @ [last q])"

lemma length_compressed: "length (compressed q) \<le> length q"
proof (cases q rule: rev_cases)
  case (snoc xs x)
  then show ?thesis by (simp add: compressed_def)
qed (simp add: compressed_def)

definition quotient_full :: "int \<Rightarrow> int list \<Rightarrow> int \<Rightarrow> bool" where
  "quotient_full m cs u \<longleftrightarrow> (\<forall>j. 1 \<le> j \<and> j + 1 < length cs \<longrightarrow> peval (drop j cs) u mod m \<noteq> 0)"

lemma compressed_full:
  assumes "quotient_full m cs u"
  shows "compressed (map (\<lambda>c. c mod m) (synthetic cs u)) = map (\<lambda>c. c mod m) (synthetic cs u)"
proof (cases "synthetic cs u = []")
  case False
  let ?q = "map (\<lambda>c. c mod m) (synthetic cs u)"
  have "\<forall>c \<in> set (butlast ?q). c \<noteq> 0"
  proof
    fix c
    assume "c \<in> set (butlast ?q)"
    then obtain i where i: "i < length (butlast ?q)" "c = butlast ?q ! i" unfolding in_set_conv_nth by blast
    then have "i + 2 < length cs" "c = peval (drop (Suc i) cs) u mod m" by (simp_all add: nth_butlast synthetic_nth)
    then show "c \<noteq> 0" using assms by (simp add: quotient_full_def)
  qed
  then have "nonzero (butlast ?q) = butlast ?q" by (simp add: filter_id_conv)
  then show ?thesis using False by (simp add: compressed_def)
qed (simp add: compressed_def)

lemma mod_inverse_one: "1 < m \<Longrightarrow> mod_inverse 1 m = Ok 1"
proof -
  assume m: "1 < m"
  then obtain b where b: "mod_inverse 1 m = Ok b" by (auto simp: mod_inverse_def)
  from mod_inverse_Ok [OF b] m show ?thesis using b by simp
qed

lemma zip_longest_Nil: "zip_longest z xs [] = map (\<lambda>x. (x, z)) xs"
  by (induction xs) simp_all

text \<open>What is committed to as a proof.\<close>

lemma witness_polynomial:
  assumes "1 < m" and "reduced m (c # cs)"
  shows "\<exists>rem. divide (poly_sub \<lparr>coefficients = c # cs, poly_modulus = m\<rparr> \<lparr>coefficients = [v], poly_modulus = m\<rparr>)
      \<lparr>coefficients = [- u, 1], poly_modulus = m\<rparr> =
    Ok (\<lparr>coefficients = compressed (map (\<lambda>c. c mod m) (synthetic (c # cs) u)), poly_modulus = m\<rparr>, rem)"
proof -
  let ?r = "((c - v) mod m) # cs"
  have "map (\<lambda>c. c mod m) cs = cs" using assms(2) by (intro map_idI) (auto simp: reduced_def)
  then have sub: "poly_sub \<lparr>coefficients = c # cs, poly_modulus = m\<rparr> \<lparr>coefficients = [v], poly_modulus = m\<rparr> =
      \<lparr>coefficients = ?r, poly_modulus = m\<rparr>"
    by (simp add: poly_sub_def zip_longest_Nil o_def)
  show ?thesis
  proof (cases cs)
    case Nil
    then show ?thesis unfolding sub by (simp add: divide_def divide_loop.simps compressed_def)
  next
    case (Cons d ds)
    have red: "reduced m ?r" using assms by simp
    have "divide \<lparr>coefficients = ?r, poly_modulus = m\<rparr> \<lparr>coefficients = [- u, 1], poly_modulus = m\<rparr> =
      Ok (\<lparr>coefficients = nonzero (butlast (map (\<lambda>c. c mod m) (synthetic ?r u))) @ [last (map (\<lambda>c. c mod m) (synthetic ?r u))], poly_modulus = m\<rparr>,
        \<lparr>coefficients = pop_zeros [peval ?r u mod m], poly_modulus = m\<rparr>)"
      using divide_eq [of "\<lparr>coefficients = [- u, 1], poly_modulus = m\<rparr>" "\<lparr>coefficients = ?r, poly_modulus = m\<rparr>" 1]
        long_division_linear [of m ?r u] mod_inverse_one [OF assms(1)] assms(1) red Cons by simp
    moreover have "synthetic ?r u = synthetic (c # cs) u" by (rule synthetic_head)
    moreover have "synthetic (c # cs) u \<noteq> []" by (simp add: Cons)
    ultimately show ?thesis unfolding sub compressed_def by simp
  qed
qed

lemma element_proof_log:
  assumes "discrete_logs E l1 l2" and "secret_powers E l1 gs s" and m: "BLS_MODULUS E = m" "1 < m"
    and p: "poly_modulus p = m" "reduced m (coefficients p)" "coefficients p \<noteq> []" "length (coefficients p) \<le> length gs"
    and u: "py_index roots idx = Ok u"
  shows "\<exists>w. generate_element_proof E idx p gs roots = Ok (G1_to_bytes48 E w) \<and>
    l1 w mod m = peval (compressed (map (\<lambda>c. c mod m) (synthetic (coefficients p) u))) s mod m"
proof -
  obtain c cs where cs: "coefficients p = c # cs" using p(3) by (cases "coefficients p") auto
  then have p': "p = \<lparr>coefficients = c # cs, poly_modulus = m\<rparr>" using p(1) by simp
  let ?q = "compressed (map (\<lambda>c. c mod m) (synthetic (c # cs) u))"
  have "length ?q \<le> length (map (\<lambda>c. c mod m) (synthetic (c # cs) u))" by (rule length_compressed)
  then have len: "length ?q \<le> length gs" using p(4) by (simp add: cs)
  obtain rem where "divide (poly_sub p \<lparr>coefficients = [peval (coefficients p) u mod m], poly_modulus = m\<rparr>)
      \<lparr>coefficients = [- u, 1], poly_modulus = m\<rparr> = Ok (\<lparr>coefficients = ?q, poly_modulus = m\<rparr>, rem)"
    using witness_polynomial [OF m(2), of c cs "peval (coefficients p) u mod m" u] p(2) by (auto simp: p' simp del: peval.simps)
  then have "generate_element_proof E idx p gs roots = g1_linear_combination E \<lparr>coefficients = ?q, poly_modulus = m\<rparr> gs"
    using u p(1,3) by (simp add: generate_element_proof_def poly_eval_eq m(1))
  then show ?thesis
    using commitment_log [OF assms(1,2), of "\<lparr>coefficients = ?q, poly_modulus = m\<rparr>"] len by (simp add: m(1) cs)
qed

text \<open>A proof of the right value is accepted exactly when the missing zeros make no difference.\<close>

lemma element_proof_accepted:
  assumes E: "setup_ok E l1 l2 s" and m: "BLS_MODULUS E = m" "1 < m"
    and p: "poly_modulus p = m" "reduced m (coefficients p)" "coefficients p \<noteq> []"
      "length (coefficients p) \<le> length (GLOBAL_PARAMETERS E)"
    and u: "py_index roots idx = Ok u" and com: "com = G1_to_bytes48 E c" "l1 c mod m = peval (coefficients p) s mod m"
    and v: "v mod m = peval (coefficients p) u mod m"
    and q: "q = map (\<lambda>c. c mod m) (synthetic (coefficients p) u)"
  shows "\<exists>prf. generate_element_proof E idx p (GLOBAL_PARAMETERS E) roots = Ok prf \<and>
    verify_element_proof E v com prf idx roots = Ok (peval q s * (s - u) mod m = peval (compressed q) s * (s - u) mod m)"
proof -
  have logs: "discrete_logs E l1 l2" "secret_powers E l1 (GLOBAL_PARAMETERS E) s" using E by (simp_all add: setup_ok_def)
  obtain w where w: "generate_element_proof E idx p (GLOBAL_PARAMETERS E) roots = Ok (G1_to_bytes48 E w)"
      "l1 w mod m = peval (compressed q) s mod m"
    using element_proof_log [OF logs m p u] q by blast
  have "(l1 c - v) mod m = (peval (coefficients p) s - peval (coefficients p) u) mod m"
    by (rule mod_diff_cong [OF com(2) v])
  also have "peval (coefficients p) s - peval (coefficients p) u = peval (synthetic (coefficients p) u) s * (s - u)"
    using synthetic_eval [of "coefficients p" s u] by simp
  also have "\<dots> mod m = peval q s * (s - u) mod m" unfolding q by (rule mod_mult_cong [OF peval_mod [symmetric] refl])
  finally have 1: "(l1 c - v) mod m = peval q s * (s - u) mod m" .
  have 2: "l1 w * (s - u) mod m = peval (compressed q) s * (s - u) mod m" by (rule mod_mult_cong [OF w(2) refl])
  show ?thesis using w(1) verify_element_iff [OF E u com(1) refl, of v w] unfolding m(1) 1 2 by blast
qed

end
