(* ===== verification/Da_Encoder.thy ===== *)
theory Da_Encoder
  imports Kzg
begin

text \<open>
  da/common.py, da/kzg_rs/bdfg_proving.py, da/encoder.py, da/verifier.py, da/dispersal.py and
  da/api/common.py: a blob is cut into a matrix of chunks, one row per commitment, every row is
  extended to twice its length, and each column becomes a share with one proof for a random
  combination of the rows.

  A chunk is a list of bytes, a matrix a list of rows. \<open>_send_and_await_response\<close>, which the code
  leaves open, and the abstract \<open>BlobStore\<close> are parameters.
\<close>

section \<open>Matrices\<close>

type_synonym Chunk = bytes
type_synonym ChunksMatrix = "bytes list list"

text \<open>\<open>zip_longest(*self, fillvalue=b"")\<close>.\<close>

definition columns :: "ChunksMatrix \<Rightarrow> ChunksMatrix" where
  "columns M = map (\<lambda>i. map (\<lambda>row. if i < length row then row ! i else []) M) [0..<foldr max (map length M) 0]"

definition transposed :: "ChunksMatrix \<Rightarrow> ChunksMatrix" where
  "transposed M = columns M"

definition as_bytes :: "bytes list \<Rightarrow> bytes" where
  "as_bytes row = concat row"

definition build_blob_id :: "('g, 'h) KzgEnv \<Rightarrow> bytes list \<Rightarrow> bytes" where
  "build_blob_id E row_commitments = blake2b E 32 (concat row_commitments)"

section \<open>Random combinations\<close>

definition DA_DST :: bytes where
  "DA_DST = map of_char ''NOMOS_DA_V1''"

definition derive_challenge :: "('g, 'h) KzgEnv \<Rightarrow> bytes list \<Rightarrow> (exn, int) res" where
  "derive_challenge E row_commitments =
     (let digest31 = blake2b E 31 (DA_DST @ concat row_commitments)
      in field_from_bytes E (digest31 @ [0]))"

fun combine_loop :: "('g, 'h) KzgEnv \<Rightarrow> int \<Rightarrow> bytes list \<Rightarrow> 'g \<Rightarrow> int \<Rightarrow> (exn, 'g) res" where
  "combine_loop E h [] combined pw = Ok combined"
| "combine_loop E h (com # coms) combined pw =
     bind_res (bytes48_to_G1 E com) (\<lambda>c.
       combine_loop E h coms (add1 E combined (multiply1 E c pw)) (pw * h mod BLS_MODULUS E))"

definition combine_commitments :: "('g, 'h) KzgEnv \<Rightarrow> bytes list \<Rightarrow> int \<Rightarrow> (exn, bytes) res" where
  "combine_commitments E row_commitments h =
     bind_res (py_index row_commitments 0) (\<lambda>com.
     bind_res (bytes48_to_G1 E com) (\<lambda>c.
     bind_res (combine_loop E h (drop 1 row_commitments) c (h mod BLS_MODULUS E)) (\<lambda>combined.
       Ok (G1_to_bytes48 E combined))))"

fun combine_polys :: "int \<Rightarrow> int \<Rightarrow> Polynomial list \<Rightarrow> Polynomial \<Rightarrow> int \<Rightarrow> Polynomial" where
  "combine_polys m h [] combined int_pow = combined"
| "combine_polys m h (p # ps) combined int_pow =
     (let int_pow' = int_pow * h mod m
      in combine_polys m h ps
           (poly_add combined \<lparr>coefficients = map (\<lambda>c. int_pow' * c) (coefficients p), poly_modulus = m\<rparr>) int_pow')"

definition compute_combined_polynomial :: "('g, 'h) KzgEnv \<Rightarrow> Polynomial list \<Rightarrow> int \<Rightarrow> (exn, Polynomial) res" where
  "compute_combined_polynomial E polys h =
     bind_res (py_index polys 0) (\<lambda>p. Ok (combine_polys (BLS_MODULUS E) h (drop 1 polys) p 1))"

fun combine_evals :: "int \<Rightarrow> int \<Rightarrow> Chunk list \<Rightarrow> int \<Rightarrow> int \<Rightarrow> int" where
  "combine_evals m h [] combined pw = combined"
| "combine_evals m h (chunk # evals) combined pw =
     combine_evals m h evals ((combined + from_bytes chunk * pw) mod m) (pw * h mod m)"

definition compute_combined_evaluation :: "('g, 'h) KzgEnv \<Rightarrow> Chunk list \<Rightarrow> int \<Rightarrow> int" where
  "compute_combined_evaluation E evals h =
     combine_evals (BLS_MODULUS E) (h mod BLS_MODULUS E) evals 0 1"

section \<open>Encoder\<close>

record DAEncoderParams =
  column_count :: int
  bytes_per_chunk :: int

record EncodedData =
  blob_data :: bytes
  chunked_data :: ChunksMatrix
  extended_matrix :: ChunksMatrix
  row_commitments :: "bytes list"
  combined_column_proofs :: "bytes list"

definition mk_DAEncoder :: "DAEncoderParams \<Rightarrow> (exn, DAEncoderParams) res" where
  "mk_DAEncoder params =
     (if bytes_per_chunk params < BYTES_PER_FIELD_ELEMENT then Ok params else Err AssertionError)"

definition chunkify_data :: "DAEncoderParams \<Rightarrow> bytes \<Rightarrow> (exn, ChunksMatrix) res" where
  "chunkify_data params data =
     bind_res (py_batched data (column_count params * bytes_per_chunk params))
       (map_res (\<lambda>b. bind_res (py_batched b (bytes_per_chunk params))
         (map_res (\<lambda>chunk. to_bytes (nat BYTES_PER_FIELD_ELEMENT) (from_bytes chunk)))))"

definition compute_row_kzg_commitments ::
    "('g, 'h) KzgEnv \<Rightarrow> ChunksMatrix \<Rightarrow> (exn, (Polynomial \<times> bytes) list) res" where
  "compute_row_kzg_commitments E = map_res (\<lambda>row. bytes_to_commitment E (as_bytes row) (GLOBAL_PARAMETERS E))"

definition rs_encode_row :: "('g, 'h) KzgEnv \<Rightarrow> bytes list \<Rightarrow> (exn, bytes list) res" where
  "rs_encode_row E row =
     bind_res (bytes_to_polynomial E (as_bytes row) BYTES_PER_FIELD_ELEMENT) (\<lambda>p.
     bind_res (rs_encode p 2 (ROOTS_OF_UNITY E)) (map_res (to_bytes 32)))"

definition rs_encode_rows :: "('g, 'h) KzgEnv \<Rightarrow> ChunksMatrix \<Rightarrow> (exn, ChunksMatrix) res" where
  "rs_encode_rows E = map_res (rs_encode_row E)"

definition compute_combined_column_proofs ::
    "('g, 'h) KzgEnv \<Rightarrow> DAEncoderParams \<Rightarrow> Polynomial \<Rightarrow> (exn, bytes list) res" where
  "compute_combined_column_proofs E params p =
     (let total_cols = column_count params * 2
      in map_res (\<lambda>i. generate_element_proof E i p (GLOBAL_PARAMETERS E) (ROOTS_OF_UNITY E)) [0..total_cols - 1])"

definition encode :: "('g, 'h) KzgEnv \<Rightarrow> DAEncoderParams \<Rightarrow> bytes \<Rightarrow> (exn, EncodedData) res" where
  "encode E params data =
     bind_res (chunkify_data params data) (\<lambda>chunks_matrix.
     bind_res (compute_row_kzg_commitments E chunks_matrix) (\<lambda>rows.
       if rows = [] then Err ValueError
       else
         let row_polynomials = map fst rows; coms = map snd rows
         in bind_res (rs_encode_rows E chunks_matrix) (\<lambda>extended.
            bind_res (derive_challenge E coms) (\<lambda>h.
            bind_res (compute_combined_polynomial E row_polynomials h) (\<lambda>combined_poly.
            bind_res (compute_combined_column_proofs E params combined_poly) (\<lambda>proofs.
              Ok \<lparr>blob_data = data, chunked_data = chunks_matrix, extended_matrix = extended,
                  row_commitments = coms, combined_column_proofs = proofs\<rparr>))))))"

section \<open>Verifier\<close>

record DAShare =
  column :: "bytes list"
  column_idx :: int
  combined_column_proof :: bytes
  share_commitments :: "bytes list"

definition blob_id :: "('g, 'h) KzgEnv \<Rightarrow> DAShare \<Rightarrow> bytes" where
  "blob_id E share = build_blob_id E (share_commitments share)"

definition verify :: "('g, 'h) KzgEnv \<Rightarrow> DAShare \<Rightarrow> (exn, bool) res" where
  "verify E blob =
     bind_res (derive_challenge E (share_commitments blob)) (\<lambda>h.
     bind_res (combine_commitments E (share_commitments blob) h) (\<lambda>combined_commitment.
       let combined_eval_point = compute_combined_evaluation E (column blob) h
       in verify_element_proof E combined_eval_point combined_commitment (combined_column_proof blob)
            (column_idx blob) (ROOTS_OF_UNITY E)))"

section \<open>Dispersal\<close>

record DispersalSettings =
  nodes_ids :: "bytes list"
  threshold :: int

definition mk_Dispersal :: "DispersalSettings \<Rightarrow> DispersalSettings" where
  "mk_Dispersal settings = settings\<lparr>nodes_ids := sort (nodes_ids settings)\<rparr>"

definition prepare_data :: "EncodedData \<Rightarrow> DAShare list" where
  "prepare_data encoded =
     map (\<lambda>(i, col, prf). \<lparr>column = col, column_idx = i, combined_column_proof = prf, share_commitments = row_commitments encoded\<rparr>)
       (zip [0..int (min (length (columns (extended_matrix encoded))) (length (combined_column_proofs encoded))) - 1]
         (zip (columns (extended_matrix encoded)) (combined_column_proofs encoded)))"

definition disperse ::
    "(bytes \<Rightarrow> DAShare \<Rightarrow> ('w, exn, bool) action) \<Rightarrow> DispersalSettings \<Rightarrow> EncodedData \<Rightarrow> ('w, exn, unit) action" where
  "disperse send settings encoded =
     for_each (\<lambda>(node, blob). bind_act (send node blob) (\<lambda>_. ret ())) (zip (nodes_ids settings) (prepare_data encoded))"

section \<open>API\<close>

record Metadata =
  app_id :: bytes
  meta_index :: int

record BlobMetadata =
  meta_blob_id :: bytes
  metadata :: Metadata

record 's BlobStore =
  store_add :: "bytes \<Rightarrow> Metadata \<Rightarrow> ('s, exn, unit) action"
  store_get_multiple :: "bytes \<Rightarrow> int list \<Rightarrow> ('s, exn, DAShare option list) action"

definition api_write :: "'s BlobStore \<Rightarrow> bytes \<Rightarrow> Metadata \<Rightarrow> ('s, exn, unit) action" where
  "api_write bs i m = store_add bs i m"

definition api_read :: "'s BlobStore \<Rightarrow> bytes \<Rightarrow> int list \<Rightarrow> ('s, exn, DAShare option list) action" where
  "api_read bs a indexes = store_get_multiple bs a indexes"

end
