(* ===== verification/Da_Shares.thy ===== *)
theory Da_Shares
  imports Da_Encoder
begin

text \<open>
  The shares of an encoded blob: what the rows of the matrix encode to, what the random combination
  of the rows is on the sides of the encoder and of the verifier, and when a share is accepted.

  \<open>da_env\<close> collects what is assumed of the libraries: the curve, the interpolation, that
  \<open>bytes_to_bls_field\<close> reads numbers below the modulus, and a modulus that is a prime of at most 32
  bytes for which the roots of unity are different.
\<close>

section \<open>Assumptions\<close>

definition da_env :: "('g, 'h) KzgEnv \<Rightarrow> ('g \<Rightarrow> int) \<Rightarrow> ('h \<Rightarrow> int) \<Rightarrow> int \<Rightarrow> bool" where
  "da_env E l1 l2 s \<longleftrightarrow> setup_ok E l1 l2 s \<and> prime_modulus (BLS_MODULUS E) \<and> BLS_MODULUS E \<le> 256 ^ 32 \<and>
     interpolates (BLS_MODULUS E) (interpolate_coeff E) \<and>
     (\<forall>b. length b = 32 \<longrightarrow> from_bytes b < BLS_MODULUS E \<longrightarrow> bytes_to_bls_field E b = Ok (from_bytes b)) \<and>
     distinct (map (\<lambda>r. r mod BLS_MODULUS E) (ROOTS_OF_UNITY E))"

lemma da_envD:
  assumes "da_env E l1 l2 s"
  shows "setup_ok E l1 l2 s" "prime_modulus (BLS_MODULUS E)" "BLS_MODULUS E \<le> 256 ^ 32" "1 < BLS_MODULUS E"
    "interpolates (BLS_MODULUS E) (interpolate_coeff E)" "discrete_logs E l1 l2"
    "secret_powers E l1 (GLOBAL_PARAMETERS E) s"
    "length b = 32 \<Longrightarrow> from_bytes b < BLS_MODULUS E \<Longrightarrow> bytes_to_bls_field E b = Ok (from_bytes b)"
    "distinct (map (\<lambda>r. r mod BLS_MODULUS E) (ROOTS_OF_UNITY E))"
  using assms unfolding da_env_def setup_ok_def prime_modulus_def by blast+

section \<open>Chunks\<close>

lemma from_bytes_bounds: "0 \<le> from_bytes bs" "from_bytes bs < 256 ^ length bs"
proof -
  have "0 \<le> from_bytes bs \<and> from_bytes bs < 256 ^ length bs"
  proof (induction bs rule: rev_induct)
    case Nil
    then show ?case by (simp add: from_bytes_def)
  next
    case (snoc b bs)
    have "0 \<le> uint b" "uint b < 256" using uint_lt2p [of b] by simp_all
    then show ?case using snoc by (simp add: from_bytes_snoc)
  qed
  then show "0 \<le> from_bytes bs" "from_bytes bs < 256 ^ length bs" by blast+
qed

lemma to_from_bytes: "to_bytes (length bs) (from_bytes bs) = Ok bs"
proof -
  have "be_bytes (length bs) (nat (from_bytes bs)) = bs"
  proof (induction bs rule: rev_induct)
    case (snoc b bs)
    have b: "0 \<le> uint b" "uint b < 256" using uint_lt2p [of b] by simp_all
    have "nat (from_bytes (bs @ [b])) = nat (from_bytes bs) * 256 + nat (uint b)"
      using from_bytes_bounds(1) [of bs] b by (simp add: from_bytes_snoc nat_add_distrib nat_mult_distrib)
    moreover have "nat (uint b) < 256" using b by linarith
    ultimately show ?case using snoc by (simp add: word_of_nat_eq_iff)
  qed simp
  then show ?thesis using from_bytes_bounds [of bs] by (simp add: to_bytes_def)
qed

text \<open>A chunk of a matrix: 32 bytes of a field element.\<close>

definition chunk_ok :: "int \<Rightarrow> bytes \<Rightarrow> bool" where
  "chunk_ok m c \<longleftrightarrow> length c = 32 \<and> from_bytes c < m"

lemma batched_concat: "\<forall>c \<in> set cs. length c = n \<Longrightarrow> 0 < n \<Longrightarrow> batched (concat cs) n = cs"
proof (induction cs)
  case (Cons c cs)
  then show ?case by (subst batched.simps) auto
qed (simp add: batched.simps)

lemma length_concat_const: "\<forall>c \<in> set cs. length c = n \<Longrightarrow> length (concat cs) = n * length cs"
  by (induction cs) simp_all

section \<open>One row\<close>

text \<open>What the encoder makes of a row: coefficients, the committed point, and the extended row.\<close>

definition row_ok :: "('g, 'h) KzgEnv \<Rightarrow> ('g \<Rightarrow> int) \<Rightarrow> int \<Rightarrow> bytes list \<Rightarrow> int list \<Rightarrow> 'g \<Rightarrow> bytes list \<Rightarrow> bool" where
  "row_ok E l1 s row cs x ext \<longleftrightarrow>
     length cs = length row \<and> reduced (BLS_MODULUS E) cs \<and>
     bytes_to_commitment E (as_bytes row) (GLOBAL_PARAMETERS E) =
       Ok (\<lparr>coefficients = cs, poly_modulus = BLS_MODULUS E\<rparr>, G1_to_bytes48 E x) \<and>
     l1 x mod BLS_MODULUS E = peval cs s mod BLS_MODULUS E \<and>
     rs_encode_row E row = Ok ext \<and> length ext = 2 * length row \<and>
     (\<forall>i<length ext. from_bytes (ext ! i) = peval cs (ROOTS_OF_UNITY E ! i) mod BLS_MODULUS E) \<and>
     take (length row) ext = row"

lemma row_polynomial:
  assumes E: "da_env E l1 l2 s" and row: "\<forall>c \<in> set row. chunk_ok (BLS_MODULUS E) c" "length row \<le> length (ROOTS_OF_UNITY E)"
    and ne: "row \<noteq> []"
  shows "\<exists>cs. bytes_to_polynomial E (as_bytes row) BYTES_PER_FIELD_ELEMENT = Ok \<lparr>coefficients = cs, poly_modulus = BLS_MODULUS E\<rparr> \<and>
    length cs = length row \<and> reduced (BLS_MODULUS E) cs \<and>
    (\<forall>i<length row. peval cs (ROOTS_OF_UNITY E ! i) mod BLS_MODULUS E = from_bytes (row ! i))"
proof -
  let ?m = "BLS_MODULUS E" and ?xs = "take (length row) (ROOTS_OF_UNITY E)" and ?ys = "map from_bytes row"
  note D = da_envD [OF E]
  have len: "\<forall>c \<in> set row. length c = 32" using row(1) by (simp add: chunk_ok_def)
  have vals: "map_res (bytes_to_bls_field E) row = Ok ?ys"
    by (rule map_res_Ok) (use row(1) D(8) in \<open>simp add: chunk_ok_def\<close>)
  have "distinct (map (\<lambda>x. x mod ?m) ?xs)" using distinct_take [OF D(9)] by (simp add: take_map)
  moreover have "?xs \<noteq> []" using row(2) ne by auto
  ultimately obtain cs where cs: "interpolate_coeff E ?xs ?ys = Ok cs" "length cs = length ?xs" "reduced ?m cs"
      "\<And>i. i < length ?xs \<Longrightarrow> peval cs (?xs ! i) mod ?m = ?ys ! i mod ?m"
    using interpolatesE [OF D(5), of ?xs ?ys] row(2) by auto
  have "map (\<lambda>x. x mod ?m) cs = cs" using cs(3) by (intro map_idI) (auto simp: reduced_def)
  then have "bytes_to_polynomial E (as_bytes row) BYTES_PER_FIELD_ELEMENT = Ok \<lparr>coefficients = cs, poly_modulus = ?m\<rparr>"
    using cs(1) row(2) vals
    by (simp add: bytes_to_polynomial_def BYTES_PER_FIELD_ELEMENT_def as_bytes_def length_concat_const [OF len] py_batched_def
        batched_concat [OF len] from_evaluations_def interpolate_def py_slice_nonneg)
  moreover have "peval cs (ROOTS_OF_UNITY E ! i) mod ?m = from_bytes (row ! i)" if i: "i < length row" for i
  proof -
    have "0 \<le> from_bytes (row ! i)" "from_bytes (row ! i) < ?m"
      using row(1) nth_mem [OF i] from_bytes_bounds(1) by (auto simp: chunk_ok_def)
    then show ?thesis using cs(4) [of i] i row(2) by simp
  qed
  ultimately show ?thesis using cs(2,3) row(2) by (intro exI [of _ cs]) simp
qed

lemma row_exists:
  assumes E: "da_env E l1 l2 s" and row: "\<forall>c \<in> set row. chunk_ok (BLS_MODULUS E) c" "row \<noteq> []"
    and n: "2 * length row \<le> length (ROOTS_OF_UNITY E)" "length row \<le> length (GLOBAL_PARAMETERS E)"
  shows "\<exists>cs x ext. row_ok E l1 s row cs x ext"
proof -
  let ?m = "BLS_MODULUS E" and ?rs = "ROOTS_OF_UNITY E"
  note D = da_envD [OF E]
  obtain cs where cs: "bytes_to_polynomial E (as_bytes row) BYTES_PER_FIELD_ELEMENT = Ok \<lparr>coefficients = cs, poly_modulus = ?m\<rparr>"
      "length cs = length row" "reduced ?m cs" "\<And>i. i < length row \<Longrightarrow> peval cs (?rs ! i) mod ?m = from_bytes (row ! i)"
    using row_polynomial [OF E row(1) _ row(2)] n(1) by auto
  obtain x where x: "g1_linear_combination E \<lparr>coefficients = cs, poly_modulus = ?m\<rparr> (GLOBAL_PARAMETERS E) = Ok (G1_to_bytes48 E x)"
      "l1 x mod ?m = peval cs s mod ?m"
    using commitment_log [OF D(6,7), of "\<lparr>coefficients = cs, poly_modulus = ?m\<rparr>"] cs(2) n(2) by auto
  define vs where "vs = map (\<lambda>r. peval cs r mod ?m) (take (2 * length row) ?rs)"
  have "coefficients \<lparr>coefficients = cs, poly_modulus = ?m\<rparr> \<noteq> []" using cs(2) row(2) by auto
  then have enc: "rs_encode \<lparr>coefficients = cs, poly_modulus = ?m\<rparr> 2 ?rs = Ok vs"
    using rs_encode_values [of "\<lparr>coefficients = cs, poly_modulus = ?m\<rparr>" 2 ?rs] cs(2) n(1) by (simp add: vs_def mult.commute)
  define ext where "ext = map (\<lambda>v. be_bytes 32 (nat v)) vs"
  have range: "0 \<le> v \<and> v < 256 ^ 32" if "v \<in> set vs" for v
  proof -
    have "0 \<le> v" "v < ?m" using that D(4) by (auto simp: vs_def)
    then show ?thesis using D(3) by simp
  qed
  have "map_res (to_bytes 32) vs = Ok ext"
    unfolding ext_def by (rule map_res_Ok) (use range in \<open>simp add: to_bytes_def\<close>)
  then have ext: "rs_encode_row E row = Ok ext" by (simp add: rs_encode_row_def cs(1) enc)
  have len: "length ext = 2 * length row" "length vs = 2 * length row" using n(1) by (simp_all add: ext_def vs_def)
  have val: "from_bytes (ext ! i) = vs ! i" if "i < length ext" for i
  proof -
    have "0 \<le> vs ! i \<and> vs ! i < 256 ^ 32" using that len by (intro range nth_mem) simp
    then show ?thesis using that len from_be_bytes [of "nat (vs ! i)" 32] by (simp add: ext_def nat_less_iff)
  qed
  have "take (length row) ext = row"
  proof (rule nth_equalityI)
    fix i
    assume "i < length (take (length row) ext)"
    then have i: "i < length row" by simp
    have "vs ! i = from_bytes (row ! i)" using i n(1) cs(4) by (simp add: vs_def)
    moreover have "length (row ! i) = 32" using row(1) nth_mem [OF i] by (simp add: chunk_ok_def)
    then have "be_bytes 32 (nat (from_bytes (row ! i))) = row ! i" using to_from_bytes [of "row ! i"] by (simp add: to_bytes_Ok_iff)
    ultimately show "take (length row) ext ! i = row ! i" using i len by (simp add: ext_def)
  qed (simp add: len)
  moreover have "\<forall>i<length ext. from_bytes (ext ! i) = peval cs (?rs ! i) mod ?m"
    using val len n(1) by (simp add: vs_def)
  ultimately have "row_ok E l1 s row cs x ext"
    using cs(1-3) x ext len by (simp add: row_ok_def bytes_to_commitment_def)
  then show ?thesis by blast
qed

section \<open>Random combinations\<close>

lemma combine_evals_eq:
  "combine_evals m h evals c w mod m = (c + w * peval (map from_bytes evals) h) mod m"
proof (induction evals arbitrary: c w)
  case (Cons e evals)
  have "combine_evals m h (e # evals) c w mod m =
      ((c + from_bytes e * w) mod m + (w * h mod m) * peval (map from_bytes evals) h) mod m" by (simp add: Cons)
  also have "\<dots> = ((c + from_bytes e * w) + (w * h) * peval (map from_bytes evals) h) mod m"
    by (intro mod_add_cong mod_mult_cong) simp_all
  finally show ?case by (simp add: algebra_simps)
qed simp

lemma combined_evaluation: "compute_combined_evaluation E evals h mod BLS_MODULUS E = peval (map from_bytes evals) h mod BLS_MODULUS E"
  using combine_evals_eq [of "BLS_MODULUS E" "h mod BLS_MODULUS E" evals 0 1] peval_cong [of "h mod BLS_MODULUS E" "BLS_MODULUS E" h "map from_bytes evals"]
  by (simp add: compute_combined_evaluation_def)

lemma combine_loop_log:
  assumes "discrete_logs E l1 l2"
  shows "\<exists>x. combine_loop E h (map (G1_to_bytes48 E) xs) acc w = Ok x \<and>
    l1 x mod BLS_MODULUS E = (l1 acc + w * peval (map l1 xs) h) mod BLS_MODULUS E"
proof (induction xs arbitrary: acc w)
  case (Cons x xs)
  let ?m = "BLS_MODULUS E"
  note D = discrete_logsD [OF assms]
  obtain z where z: "bytes48_to_G1 E (G1_to_bytes48 E x) = Ok z" "l1 z mod ?m = l1 x mod ?m" using D(12) by blast
  let ?acc = "add1 E acc (multiply1 E z w)" and ?w = "w * h mod ?m"
  obtain y where y: "combine_loop E h (map (G1_to_bytes48 E) xs) ?acc ?w = Ok y"
      "l1 y mod ?m = (l1 ?acc + ?w * peval (map l1 xs) h) mod ?m" using Cons by blast
  have "l1 (multiply1 E z w) mod ?m = l1 x * w mod ?m" using D(7) [of z w] mod_mult_cong [OF z(2) refl, of w] by simp
  then have "l1 ?acc mod ?m = (l1 acc + l1 x * w) mod ?m" using D(5) [of acc] mod_add_cong [OF refl] by metis
  moreover have "?w * peval (map l1 xs) h mod ?m = (w * h) * peval (map l1 xs) h mod ?m" by (rule mod_mult_cong) simp_all
  ultimately have "(l1 ?acc + ?w * peval (map l1 xs) h) mod ?m = ((l1 acc + l1 x * w) + (w * h) * peval (map l1 xs) h) mod ?m"
    by (rule mod_add_cong)
  then show ?case using z(1) y by (simp add: algebra_simps)
qed simp

lemma combined_commitment:
  assumes "discrete_logs E l1 l2" and "xs \<noteq> []"
  shows "\<exists>x. combine_commitments E (map (G1_to_bytes48 E) xs) h = Ok (G1_to_bytes48 E x) \<and>
    l1 x mod BLS_MODULUS E = peval (map l1 xs) h mod BLS_MODULUS E"
proof -
  let ?m = "BLS_MODULUS E"
  obtain y ys where xs: "xs = y # ys" using assms(2) by (cases xs) auto
  obtain z where z: "bytes48_to_G1 E (G1_to_bytes48 E y) = Ok z" "l1 z mod ?m = l1 y mod ?m"
    using discrete_logsD(12) [OF assms(1)] by blast
  obtain x where x: "combine_loop E h (map (G1_to_bytes48 E) ys) z (h mod ?m) = Ok x"
      "l1 x mod ?m = (l1 z + h mod ?m * peval (map l1 ys) h) mod ?m" using combine_loop_log [OF assms(1)] by blast
  have "l1 x mod ?m = (l1 y + h * peval (map l1 ys) h) mod ?m"
    unfolding x(2) by (intro mod_add_cong mod_mult_cong z(2)) simp_all
  then show ?thesis using z(1) x(1) by (intro exI [of _ x]) (simp add: combine_commitments_def xs py_index_def)
qed

lemma length_zip_longest: "length (zip_longest z xs ys) = max (length xs) (length ys)"
  by (induction z xs ys rule: zip_longest.induct) simp_all

lemma peval_scale: "peval (map (\<lambda>c. k * c) cs) x = k * peval cs x"
  by (induction cs) (simp_all add: distrib_left mult.left_commute)

lemma combine_polys_spec:
  assumes "0 < m" and "poly_modulus acc = m" and "reduced m (coefficients acc)"
  shows "poly_modulus (combine_polys m h ps acc w) = m \<and> reduced m (coefficients (combine_polys m h ps acc w)) \<and>
    length (coefficients (combine_polys m h ps acc w)) = foldr max (map (\<lambda>p. length (coefficients p)) ps) (length (coefficients acc)) \<and>
    peval (coefficients (combine_polys m h ps acc w)) x mod m =
      (peval (coefficients acc) x + w * h * peval (map (\<lambda>p. peval (coefficients p) x) ps) h) mod m"
  using assms(2,3)
proof (induction ps arbitrary: acc w)
  case (Cons p ps)
  let ?w = "w * h mod m"
  let ?acc = "poly_add acc \<lparr>coefficients = map (\<lambda>c. ?w * c) (coefficients p), poly_modulus = m\<rparr>"
  have acc: "poly_modulus ?acc = m" "reduced m (coefficients ?acc)"
      "length (coefficients ?acc) = max (length (coefficients acc)) (length (coefficients p))"
    using Cons.prems assms(1) by (auto simp: poly_add_def length_zip_longest reduced_def)
  have "peval (coefficients ?acc) x mod m = (peval (coefficients acc) x + ?w * peval (coefficients p) x) mod m"
    using Cons.prems(1) peval_zip_longest(1) [of m "coefficients acc"] by (simp add: poly_add_def peval_scale)
  moreover have "?w * peval (coefficients p) x mod m = w * h * peval (coefficients p) x mod m"
    "?w * h * peval (map (\<lambda>p. peval (coefficients p) x) ps) h mod m = w * h * h * peval (map (\<lambda>p. peval (coefficients p) x) ps) h mod m"
    by (intro mod_mult_cong, simp_all)+
  ultimately have "(peval (coefficients ?acc) x + ?w * h * peval (map (\<lambda>p. peval (coefficients p) x) ps) h) mod m =
      (peval (coefficients acc) x + w * h * peval (coefficients p) x + w * h * h * peval (map (\<lambda>p. peval (coefficients p) x) ps) h) mod m"
    by (intro mod_add_cong) (simp only: mod_add_cong [OF refl, of "?w * peval (coefficients p) x" m "w * h * peval (coefficients p) x"])
  moreover have "foldr max (map (\<lambda>p. length (coefficients p)) ps) (max a b) = max b (foldr max (map (\<lambda>p. length (coefficients p)) ps) a)" for a b
    by (induction ps) auto
  ultimately show ?case using Cons.IH [OF acc(1,2), of ?w] acc(3) by (simp add: Let_def distrib_left mult.assoc add.assoc max.commute)
qed simp

lemma combined_polynomial:
  assumes "0 < BLS_MODULUS E" and "css \<noteq> []" and "\<forall>cs \<in> set css. reduced (BLS_MODULUS E) cs"
  shows "\<exists>cc. compute_combined_polynomial E (map (\<lambda>cs. \<lparr>coefficients = cs, poly_modulus = BLS_MODULUS E\<rparr>) css) h =
      Ok \<lparr>coefficients = cc, poly_modulus = BLS_MODULUS E\<rparr> \<and> reduced (BLS_MODULUS E) cc \<and>
    length cc = foldr max (map length css) 0 \<and>
    (\<forall>x. peval cc x mod BLS_MODULUS E = peval (map (\<lambda>cs. peval cs x) css) h mod BLS_MODULUS E)"
proof -
  let ?m = "BLS_MODULUS E"
  let ?P = "\<lambda>cs. \<lparr>coefficients = cs, poly_modulus = ?m\<rparr>"
  obtain cs rest where css: "css = cs # rest" using assms(2) by (cases css) auto
  let ?r = "combine_polys ?m h (map ?P rest) (?P cs) 1"
  have len: "foldr max (map length rest) k = max k (foldr max (map length rest) 0)" for k by (induction rest) auto
  have spec: "poly_modulus ?r = ?m" "reduced ?m (coefficients ?r)"
      "length (coefficients ?r) = foldr max (map (\<lambda>p. length (coefficients p)) (map ?P rest)) (length cs)"
      "peval (coefficients ?r) x mod ?m = (peval cs x + 1 * h * peval (map (\<lambda>p. peval (coefficients p) x) (map ?P rest)) h) mod ?m" for x
    using combine_polys_spec [OF assms(1), of "?P cs" h "map ?P rest" 1 x] assms(3) by (simp_all add: css)
  have "length (coefficients ?r) = foldr max (map length css) 0"
    using spec(3) len [of "length cs"] by (simp add: css o_def)
  moreover have "peval (coefficients ?r) x mod ?m = peval (map (\<lambda>cs. peval cs x) css) h mod ?m" for x
    using spec(4) [of x] by (simp add: css o_def)
  moreover have "compute_combined_polynomial E (map ?P css) h = Ok (?P (coefficients ?r))"
    using spec(1) by (simp add: compute_combined_polynomial_def css py_index_def)
  ultimately show ?thesis using spec(2) by blast
qed

end
