(* ===== verification/Da_Blob.thy ===== *)
theory Da_Blob
  imports Da_Shares
begin

text \<open>
  A whole blob: the matrix its data is cut into, and the verdict on each of its shares. The share of
  column \<open>i\<close> is accepted when the rows that have no chunk in this column contribute nothing to the
  combination (\<open>share_verdict\<close>).
\<close>

section \<open>Cutting the data\<close>

lemma batched_Nil_iff: "0 < n \<Longrightarrow> batched xs n = [] \<longleftrightarrow> xs = []"
  by (subst batched.simps) simp

lemma batched_butlast:
  assumes "0 < n"
  shows "\<forall>b \<in> set (butlast (batched xs n)). length b = n"
  using assms
proof (induction xs n rule: batched.induct)
  case (1 xs n)
  show ?case
  proof (cases "length xs \<le> n")
    case True
    have "batched xs n = (if xs = [] then [] else [xs])" using 1(2) True by (subst batched.simps) (simp add: batched.simps)
    then show ?thesis by simp
  next
    case False
    then have "batched xs n = take n xs # batched (drop n xs) n" using 1(2) by (subst batched.simps) auto
    moreover have "batched (drop n xs) n \<noteq> []" using False 1(2) by (simp add: batched_Nil_iff)
    moreover have "xs \<noteq> []" using False by auto
    then have "\<forall>b \<in> set (butlast (batched (drop n xs) n)). length b = n" using 1 by simp
    ultimately show ?thesis using False by simp
  qed
qed

lemma batched_exact:
  assumes "0 < n" and "n dvd length xs"
  shows "\<forall>b \<in> set (batched xs n). length b = n"
  using assms
proof (induction xs n rule: batched.induct)
  case (1 xs n)
  show ?case
  proof (cases "xs = []")
    case True
    then have "batched xs n = []" using 1(2) by (simp add: batched_Nil_iff)
    then show ?thesis by simp
  next
    case False
    then have "n \<le> length xs" using 1(3) by (intro dvd_imp_le) simp_all
    have "n dvd length (drop n xs)" using 1(3) by (simp add: dvd_diff_nat)
    define bs where "bs = batched (drop n xs) n"
    have "\<forall>b \<in> set bs. length b = n" unfolding bs_def using 1(1,2) False \<open>n dvd length (drop n xs)\<close> by blast
    moreover have "batched xs n = take n xs # bs" unfolding bs_def using 1(2) False by (subst batched.simps) simp
    ultimately show ?thesis using \<open>n \<le> length xs\<close> by simp
  qed
qed

definition row_of :: "nat \<Rightarrow> bytes \<Rightarrow> bytes list" where
  "row_of b data = map (\<lambda>c. be_bytes 32 (nat (from_bytes c))) (batched data b)"

lemma row_of_chunks:
  assumes "0 < b" and "b < 32" and "256 ^ b \<le> m"
  shows "\<forall>c \<in> set (row_of b data). chunk_ok m c"
proof
  fix c
  assume "c \<in> set (row_of b data)"
  then obtain d where d: "d \<in> set (batched data b)" and c: "c = be_bytes 32 (nat (from_bytes d))" by (auto simp: row_of_def)
  have "(256 :: int) ^ length d \<le> 256 ^ b" using batched_pieces [OF d] by (simp add: power_increasing)
  then have lt: "from_bytes d < 256 ^ b" using from_bytes_bounds(2) [of d] by linarith
  moreover have "(256 :: int) ^ b \<le> 256 ^ 32" using assms(2) by (intro power_increasing) simp_all
  ultimately have "from_bytes c = from_bytes d"
    using from_bytes_bounds(1) [of d] from_be_bytes [of "nat (from_bytes d)" 32] by (simp add: c nat_less_iff)
  then show "chunk_ok m c" using lt assms(3) by (simp add: chunk_ok_def c)
qed

lemma length_row_of:
  assumes "0 < b"
  shows "length data = n * b \<Longrightarrow> length (row_of b data) = n" "length data \<le> n * b \<Longrightarrow> length (row_of b data) \<le> n"
proof -
  have len: "length (row_of b data) = (length data + (b - 1)) div b" using assms by (simp add: row_of_def length_batched)
  show "length data = n * b \<Longrightarrow> length (row_of b data) = n"
    using assms div_mult_self3 [of b n "b - 1"] unfolding len by simp
  assume "length data \<le> n * b"
  then have "length data + (b - 1) < Suc n * b" using assms by (simp add: add.commute)
  then show "length (row_of b data) \<le> n" unfolding len using less_mult_imp_div_less by (metis less_Suc_eq_le)
qed

lemma chunkify_eq:
  assumes "0 < n" and "0 < b" and "b < 32" and "column_count params = int n" and "bytes_per_chunk params = int b"
  shows "chunkify_data params data = Ok (map (row_of b) (batched data (n * b)))"
proof -
  have "to_bytes (nat BYTES_PER_FIELD_ELEMENT) (from_bytes c) = Ok (be_bytes 32 (nat (from_bytes c)))" if "c \<in> set (batched d b)" for c d
  proof -
    have "(256 :: int) ^ length c \<le> 256 ^ 32" using batched_pieces [OF that] assms(3) by (intro power_increasing) simp_all
    then show ?thesis using from_bytes_bounds [of c] by (simp add: to_bytes_def BYTES_PER_FIELD_ELEMENT_def)
  qed
  then have "map_res (\<lambda>c. to_bytes (nat BYTES_PER_FIELD_ELEMENT) (from_bytes c)) (batched d b) = Ok (row_of b d)" for d
    unfolding row_of_def by (rule map_res_Ok)
  then have "bind_res (py_batched d (int b)) (map_res (\<lambda>c. to_bytes (nat BYTES_PER_FIELD_ELEMENT) (from_bytes c))) = Ok (row_of b d)" for d
    using assms(2) by (simp add: py_batched_def)
  moreover have "py_batched data (int n * int b) = Ok (batched data (n * b))"
  proof -
    have "0 < int (n * b)" using assms(1,2) by simp
    then show ?thesis unfolding py_batched_def of_nat_mult [symmetric] nat_int by simp
  qed
  ultimately show ?thesis by (simp add: chunkify_data_def assms(4,5)) (rule map_res_Ok, simp)
qed

section \<open>What the encoder returns\<close>

definition combined_poly :: "('g, 'h) KzgEnv \<Rightarrow> DAEncoderParams \<Rightarrow> bytes \<Rightarrow> (exn, int \<times> Polynomial) res" where
  "combined_poly E params data =
     bind_res (chunkify_data params data) (\<lambda>M.
     bind_res (compute_row_kzg_commitments E M) (\<lambda>rows.
     bind_res (derive_challenge E (map snd rows)) (\<lambda>h.
     bind_res (compute_combined_polynomial E (map fst rows) h) (\<lambda>p. Ok (h, p)))))"

lemma peval_map_cong:
  assumes "\<And>x. x \<in> set xs \<Longrightarrow> f x mod m = g x mod (m :: int)"
  shows "peval (map f xs) h mod m = peval (map g xs) h mod m"
  using assms
proof (induction xs)
  case (Cons x xs)
  have "(f x + h * peval (map f xs) h) mod m = (g x + h * peval (map g xs) h) mod m"
    by (intro mod_add_cong mod_mult_cong refl) (use Cons in simp_all)
  then show ?case by simp
qed simp

lemma peval_map_diff: "peval (map f xs) h - peval (map g xs) h = peval (map (\<lambda>x. f x - g x) xs) h"
  by (induction xs) (simp_all flip: right_diff_distrib)

lemma foldr_max_le: "foldr max (map f xs) 0 \<le> (n :: nat) \<longleftrightarrow> (\<forall>x \<in> set xs. f x \<le> n)"
  by (induction xs) simp_all

lemma foldr_max_ge: "x \<in> set xs \<Longrightarrow> f x \<le> foldr max (map f xs) (0 :: nat)"
  by (induction xs) (auto simp: le_max_iff_disj)

text \<open>The rows of a matrix, encoded.\<close>

definition encoded_rows ::
    "('g, 'h) KzgEnv \<Rightarrow> ('g \<Rightarrow> int) \<Rightarrow> int \<Rightarrow> nat \<Rightarrow> ChunksMatrix \<Rightarrow> (bytes list \<Rightarrow> int list) \<Rightarrow> (bytes list \<Rightarrow> 'g) \<Rightarrow> (bytes list \<Rightarrow> bytes list) \<Rightarrow> bool" where
  "encoded_rows E l1 s n M F X T \<longleftrightarrow> M \<noteq> [] \<and>
     (\<forall>row \<in> set M. row \<noteq> [] \<and> length row \<le> n \<and> row_ok E l1 s row (F row) (X row) (T row))"

lemma encoded_rows_exist:
  assumes "da_env E l1 l2 s" and "M \<noteq> []" and "2 * n \<le> length (ROOTS_OF_UNITY E)" and "n \<le> length (GLOBAL_PARAMETERS E)"
    and "\<And>row. row \<in> set M \<Longrightarrow> row \<noteq> [] \<and> length row \<le> n \<and> (\<forall>c \<in> set row. chunk_ok (BLS_MODULUS E) c)"
  shows "\<exists>F X T. encoded_rows E l1 s n M F X T"
proof -
  have "\<forall>row \<in> set M. \<exists>t. row_ok E l1 s row (fst t) (fst (snd t)) (snd (snd t))"
  proof
    fix row
    assume "row \<in> set M"
    then have "\<exists>cs x ext. row_ok E l1 s row cs x ext"
      using assms(3-5) by (intro row_exists [OF assms(1)]) force+
    then show "\<exists>t. row_ok E l1 s row (fst t) (fst (snd t)) (snd (snd t))" by auto
  qed
  then obtain t where "\<forall>row \<in> set M. row_ok E l1 s row (fst (t row)) (fst (snd (t row))) (snd (snd (t row)))" by metis
  then show ?thesis using assms(2,5) unfolding encoded_rows_def
    by (intro exI [of _ "\<lambda>row. fst (t row)"] exI [of _ "\<lambda>row. fst (snd (t row))"] exI [of _ "\<lambda>row. snd (snd (t row))"]) simp
qed

lemma encoded_combined:
  assumes E: "da_env E l1 l2 s" and rows: "encoded_rows E l1 s n M F X T" and M: "chunkify_data params data = Ok M"
    and h: "derive_challenge E (map (\<lambda>row. G1_to_bytes48 E (X row)) M) = Ok h"
  shows "\<exists>cc. combined_poly E params data = Ok (h, \<lparr>coefficients = cc, poly_modulus = BLS_MODULUS E\<rparr>) \<and>
    compute_row_kzg_commitments E M = Ok (map (\<lambda>row. (\<lparr>coefficients = F row, poly_modulus = BLS_MODULUS E\<rparr>, G1_to_bytes48 E (X row))) M) \<and>
    compute_combined_polynomial E (map (\<lambda>row. \<lparr>coefficients = F row, poly_modulus = BLS_MODULUS E\<rparr>) M) h =
      Ok \<lparr>coefficients = cc, poly_modulus = BLS_MODULUS E\<rparr> \<and>
    reduced (BLS_MODULUS E) cc \<and> cc \<noteq> [] \<and> length cc \<le> n \<and>
    (\<forall>x. peval cc x mod BLS_MODULUS E = peval (map (\<lambda>row. peval (F row) x) M) h mod BLS_MODULUS E)"
proof -
  let ?m = "BLS_MODULUS E"
  have m: "0 < ?m" using da_envD(4) [OF E] by simp
  have row: "\<And>row. row \<in> set M \<Longrightarrow> row \<noteq> [] \<and> length row \<le> n \<and> row_ok E l1 s row (F row) (X row) (T row)" and ne: "M \<noteq> []"
    using rows by (auto simp: encoded_rows_def)
  have com: "compute_row_kzg_commitments E M = Ok (map (\<lambda>row. (\<lparr>coefficients = F row, poly_modulus = ?m\<rparr>, G1_to_bytes48 E (X row))) M)"
    unfolding compute_row_kzg_commitments_def by (rule map_res_Ok) (use row in \<open>auto simp: row_ok_def\<close>)
  obtain cc where cc: "compute_combined_polynomial E (map (\<lambda>cs. \<lparr>coefficients = cs, poly_modulus = ?m\<rparr>) (map F M)) h =
        Ok \<lparr>coefficients = cc, poly_modulus = ?m\<rparr>" "reduced ?m cc"
      "length cc = foldr max (map length (map F M)) 0" "\<And>x. peval cc x mod ?m = peval (map (\<lambda>cs. peval cs x) (map F M)) h mod ?m"
    using combined_polynomial [OF m, of "map F M" h] row ne by (auto simp: row_ok_def)
  have len: "length cc = foldr max (map (\<lambda>row. length (F row)) M) 0" using cc(3) by (simp add: o_def)
  have "length cc \<le> n" unfolding len foldr_max_le using row by (auto simp: row_ok_def)
  moreover obtain r where r: "r \<in> set M" using ne by (cases M) auto
  have "0 < length (F r)" using row [OF r] by (auto simp: row_ok_def)
  then have "cc \<noteq> []" using foldr_max_ge [OF r, of "\<lambda>row. length (F row)"] len by auto
  ultimately show ?thesis
    using cc(1,2,4) com h M by (intro exI [of _ cc]) (simp add: combined_poly_def o_def)
qed

lemma encode_eq:
  assumes E: "da_env E l1 l2 s" and rows: "encoded_rows E l1 s n M F X T" and M: "chunkify_data params data = Ok M"
    and h: "derive_challenge E (map (\<lambda>row. G1_to_bytes48 E (X row)) M) = Ok h" and params: "column_count params = int n"
    and n: "2 * n \<le> length (ROOTS_OF_UNITY E)" "n \<le> length (GLOBAL_PARAMETERS E)"
    and cc: "combined_poly E params data = Ok (h, \<lparr>coefficients = cc, poly_modulus = BLS_MODULUS E\<rparr>)"
  shows "\<exists>proofs. encode E params data = Ok \<lparr>blob_data = data, chunked_data = M, extended_matrix = map T M,
      row_commitments = map (\<lambda>row. G1_to_bytes48 E (X row)) M, combined_column_proofs = proofs\<rparr> \<and>
    length proofs = 2 * n \<and>
    (\<forall>i<2 * n. generate_element_proof E (int i) \<lparr>coefficients = cc, poly_modulus = BLS_MODULUS E\<rparr> (GLOBAL_PARAMETERS E) (ROOTS_OF_UNITY E) =
      Ok (proofs ! i))"
proof -
  let ?m = "BLS_MODULUS E" and ?p = "\<lparr>coefficients = cc, poly_modulus = BLS_MODULUS E\<rparr>"
  note D = da_envD [OF E]
  note C = encoded_combined [OF E rows M h]
  have C': "compute_row_kzg_commitments E M = Ok (map (\<lambda>row. (\<lparr>coefficients = F row, poly_modulus = ?m\<rparr>, G1_to_bytes48 E (X row))) M)"
      "compute_combined_polynomial E (map (\<lambda>row. \<lparr>coefficients = F row, poly_modulus = ?m\<rparr>) M) h = Ok ?p"
      "reduced ?m cc" "cc \<noteq> []" "length cc \<le> n"
    using C cc by auto
  have "\<forall>i \<in> {..<2 * n}. \<exists>pf. generate_element_proof E (int i) ?p (GLOBAL_PARAMETERS E) (ROOTS_OF_UNITY E) = Ok pf"
  proof
    fix i
    assume "i \<in> {..<2 * n}"
    then have "py_index (ROOTS_OF_UNITY E) (int i) = Ok (ROOTS_OF_UNITY E ! i)" using n(1) by (simp add: py_index_def)
    then show "\<exists>pf. generate_element_proof E (int i) ?p (GLOBAL_PARAMETERS E) (ROOTS_OF_UNITY E) = Ok pf"
      using element_proof_log [OF D(6,7) refl D(4), of ?p "ROOTS_OF_UNITY E" "int i"] C'(3-5) n(2) by auto
  qed
  then obtain pf where pf: "\<And>i. i < 2 * n \<Longrightarrow> generate_element_proof E (int i) ?p (GLOBAL_PARAMETERS E) (ROOTS_OF_UNITY E) = Ok (pf i)"
    unfolding Ball_def by (metis lessThan_iff)
  let ?proofs = "map pf [0..<2 * n]"
  have "compute_combined_column_proofs E params ?p = Ok (map (\<lambda>i. pf (nat i)) [0..int (2 * n) - 1])"
  proof -
    have "generate_element_proof E i ?p (GLOBAL_PARAMETERS E) (ROOTS_OF_UNITY E) = Ok (pf (nat i))" if "i \<in> set [0..int (2 * n) - 1]" for i
    proof -
      have "0 \<le> i" "nat i < 2 * n" using that by auto
      then show ?thesis using pf [of "nat i"] by simp
    qed
    then have "map_res (\<lambda>i. generate_element_proof E i ?p (GLOBAL_PARAMETERS E) (ROOTS_OF_UNITY E)) [0..int (2 * n) - 1] =
        Ok (map (\<lambda>i. pf (nat i)) [0..int (2 * n) - 1])" by (rule map_res_Ok)
    then show ?thesis unfolding compute_combined_column_proofs_def Let_def params by (simp add: mult.commute)
  qed
  also have "map (\<lambda>i. pf (nat i)) [0..int (2 * n) - 1] = ?proofs" unfolding upto_int by simp
  finally have proofs: "compute_combined_column_proofs E params ?p = Ok ?proofs" .
  have ext: "rs_encode_rows E M = Ok (map T M)"
    unfolding rs_encode_rows_def by (rule map_res_Ok) (use rows in \<open>auto simp: encoded_rows_def row_ok_def\<close>)
  have "encode E params data = Ok \<lparr>blob_data = data, chunked_data = M, extended_matrix = map T M,
      row_commitments = map (\<lambda>row. G1_to_bytes48 E (X row)) M, combined_column_proofs = ?proofs\<rparr>"
    using rows h proofs ext by (simp add: encode_def M C'(1,2) o_def encoded_rows_def)
  then show ?thesis using pf by (intro exI [of _ ?proofs]) simp
qed

section \<open>The verdict\<close>

lemma share_verdict:
  assumes E: "da_env E l1 l2 s" and rows: "encoded_rows E l1 s n M F X T" and M: "chunkify_data params data = Ok M"
    and h: "derive_challenge E (map (\<lambda>row. G1_to_bytes48 E (X row)) M) = Ok h"
    and n: "2 * n \<le> length (ROOTS_OF_UNITY E)" "n \<le> length (GLOBAL_PARAMETERS E)" and i: "i < 2 * n"
    and cc: "combined_poly E params data = Ok (h, \<lparr>coefficients = cc, poly_modulus = BLS_MODULUS E\<rparr>)"
    and pf: "generate_element_proof E (int i) \<lparr>coefficients = cc, poly_modulus = BLS_MODULUS E\<rparr> (GLOBAL_PARAMETERS E) (ROOTS_OF_UNITY E) = Ok pf"
    and full: "quotient_full (BLS_MODULUS E) cc (ROOTS_OF_UNITY E ! i)"
  shows "verify E \<lparr>column = map (\<lambda>row. if i < length (T row) then T row ! i else []) M, column_idx = int i,
      combined_column_proof = pf, share_commitments = map (\<lambda>row. G1_to_bytes48 E (X row)) M\<rparr> =
    Ok (peval (map (\<lambda>row. if i < 2 * length row then 0 else peval (F row) (ROOTS_OF_UNITY E ! i)) M) h mod BLS_MODULUS E = 0)"
proof -
  let ?m = "BLS_MODULUS E" and ?p = "\<lparr>coefficients = cc, poly_modulus = BLS_MODULUS E\<rparr>" and ?u = "ROOTS_OF_UNITY E ! i"
  let ?col = "map (\<lambda>row. if i < length (T row) then T row ! i else []) M"
  note D = da_envD [OF E]
  have row: "\<And>row. row \<in> set M \<Longrightarrow> row_ok E l1 s row (F row) (X row) (T row)" and ne: "M \<noteq> []"
    using rows by (auto simp: encoded_rows_def)
  have C: "reduced ?m cc" "cc \<noteq> []" "length cc \<le> n" "\<And>x. peval cc x mod ?m = peval (map (\<lambda>row. peval (F row) x) M) h mod ?m"
    using encoded_combined [OF E rows M h] cc by auto
  have u: "py_index (ROOTS_OF_UNITY E) (int i) = Ok ?u" using i n(1) by (simp add: py_index_def)
  define q where "q = map (\<lambda>c. c mod ?m) (synthetic cc ?u)"
  obtain w where w: "pf = G1_to_bytes48 E w" "l1 w mod ?m = peval q s mod ?m"
    using element_proof_log [OF D(6,7) refl D(4), of ?p "ROOTS_OF_UNITY E" "int i" ?u] C(1-3) n(2) u pf compressed_full [OF full]
    by (auto simp: q_def)
  obtain c where c: "combine_commitments E (map (G1_to_bytes48 E) (map X M)) h = Ok (G1_to_bytes48 E c)"
      "l1 c mod ?m = peval (map l1 (map X M)) h mod ?m"
    using combined_commitment [OF D(6), of "map X M" h] ne by auto
  have "peval (map l1 (map X M)) h mod ?m = peval (map (\<lambda>row. peval (F row) s) M) h mod ?m"
    unfolding map_map o_def by (rule peval_map_cong) (use row in \<open>simp add: row_ok_def\<close>)
  then have c_log: "l1 c mod ?m = peval cc s mod ?m" using c(2) C(4) by simp
  define v where "v = compute_combined_evaluation E ?col h"
  have "verify E \<lparr>column = ?col, column_idx = int i, combined_column_proof = pf, share_commitments = map (\<lambda>row. G1_to_bytes48 E (X row)) M\<rparr> =
      verify_element_proof E v (G1_to_bytes48 E c) pf (int i) (ROOTS_OF_UNITY E)"
    using c(1) h by (simp add: verify_def v_def Let_def o_def)
  also have "\<dots> = Ok ((l1 c - v) mod ?m = l1 w * (s - ?u) mod ?m)" by (rule verify_element_iff [OF D(1) u refl w(1)])
  also have "((l1 c - v) mod ?m = l1 w * (s - ?u) mod ?m) \<longleftrightarrow> (peval cc s - v) mod ?m = (peval cc s - peval cc ?u) mod ?m"
  proof -
    have "(l1 c - v) mod ?m = (peval cc s - v) mod ?m" by (rule mod_diff_cong [OF c_log refl])
    moreover have "l1 w * (s - ?u) mod ?m = peval (synthetic cc ?u) s * (s - ?u) mod ?m"
      by (rule mod_mult_cong [OF _ refl]) (simp add: w(2) q_def peval_mod)
    moreover have "peval (synthetic cc ?u) s * (s - ?u) = peval cc s - peval cc ?u"
      using synthetic_eval [of cc s ?u] by simp
    ultimately show ?thesis by simp
  qed
  also have "\<dots> \<longleftrightarrow> (peval cc ?u - v) mod ?m = 0"
    by (simp add: mod_eq_dvd_iff mod_eq_0_iff_dvd)
  also have "(peval cc ?u - v) mod ?m =
      peval (map (\<lambda>row. if i < 2 * length row then 0 else peval (F row) ?u) M) h mod ?m"
  proof -
    have "v mod ?m = peval (map (\<lambda>row. from_bytes (if i < length (T row) then T row ! i else [])) M) h mod ?m"
      unfolding v_def combined_evaluation by (simp add: o_def)
    then have "(peval cc ?u - v) mod ?m = (peval (map (\<lambda>row. peval (F row) ?u) M) h -
        peval (map (\<lambda>row. from_bytes (if i < length (T row) then T row ! i else [])) M) h) mod ?m"
      by (rule mod_diff_cong [OF C(4)])
    also have "\<dots> = peval (map (\<lambda>row. peval (F row) ?u - from_bytes (if i < length (T row) then T row ! i else [])) M) h mod ?m"
      by (simp only: peval_map_diff)
    also have "\<dots> = peval (map (\<lambda>row. if i < 2 * length row then 0 else peval (F row) ?u) M) h mod ?m"
    proof (rule peval_map_cong)
      fix row
      assume "row \<in> set M"
      from row [OF this] have T: "length (T row) = 2 * length row" "\<forall>i<length (T row). from_bytes (T row ! i) = peval (F row) (ROOTS_OF_UNITY E ! i) mod ?m"
        by (simp_all add: row_ok_def)
      then show "(peval (F row) ?u - from_bytes (if i < length (T row) then T row ! i else [])) mod ?m =
          (if i < 2 * length row then 0 else peval (F row) ?u) mod ?m"
        by (auto simp: mod_simps from_bytes_def [of "[]"])
    qed
    finally show ?thesis .
  qed
  finally show ?thesis .
qed

section \<open>Shares\<close>

lemma columns_nth:
  assumes "r \<in> set M" and "i < length r"
  shows "i < length (columns M)" "columns M ! i = map (\<lambda>row. if i < length row then row ! i else []) M"
proof -
  show "i < length (columns M)" using foldr_max_ge [OF assms(1), of length] assms(2) by (simp add: columns_def)
  then show "columns M ! i = map (\<lambda>row. if i < length row then row ! i else []) M" by (simp add: columns_def)
qed

lemma prepare_data_nth:
  assumes "i < length (columns (extended_matrix enc))" and "i < length (combined_column_proofs enc)"
  shows "i < length (prepare_data enc)"
    "prepare_data enc ! i = \<lparr>column = columns (extended_matrix enc) ! i, column_idx = int i,
       combined_column_proof = combined_column_proofs enc ! i, share_commitments = row_commitments enc\<rparr>"
  using assms by (simp_all add: prepare_data_def nth_upto)

lemma length_prepare_data:
  "length (prepare_data enc) = min (length (columns (extended_matrix enc))) (length (combined_column_proofs enc))"
  by (simp add: prepare_data_def)

text \<open>The matrix of a blob under parameters that fit the field and the setup.\<close>

definition params_ok :: "('g, 'h) KzgEnv \<Rightarrow> DAEncoderParams \<Rightarrow> nat \<Rightarrow> nat \<Rightarrow> bool" where
  "params_ok E params n b \<longleftrightarrow> column_count params = int n \<and> bytes_per_chunk params = int b \<and> 0 < n \<and> 0 < b \<and> b < 32 \<and>
     256 ^ b \<le> BLS_MODULUS E \<and> 2 * n \<le> length (ROOTS_OF_UNITY E) \<and> n \<le> length (GLOBAL_PARAMETERS E)"

lemma params_okD:
  assumes "params_ok E params n b"
  shows "column_count params = int n" "bytes_per_chunk params = int b" "0 < n" "0 < b" "b < 32" "256 ^ b \<le> BLS_MODULUS E"
    "2 * n \<le> length (ROOTS_OF_UNITY E)" "n \<le> length (GLOBAL_PARAMETERS E)"
  using assms by (simp_all add: params_ok_def)

lemma matrix_rows:
  assumes "params_ok E params n b" and "data \<noteq> []"
  shows "\<exists>M. chunkify_data params data = Ok M \<and> M \<noteq> [] \<and> M = map (row_of b) (batched data (n * b)) \<and>
    (\<forall>row \<in> set M. row \<noteq> [] \<and> length row \<le> n \<and> (\<forall>c \<in> set row. chunk_ok (BLS_MODULUS E) c)) \<and>
    (\<forall>row \<in> set (butlast M). length row = n) \<and> (n * b dvd length data \<longrightarrow> (\<forall>row \<in> set M. length row = n))"
proof -
  note p = params_okD [OF assms(1)]
  let ?bs = "batched data (n * b)"
  have nb: "0 < n * b" using p by simp
  have row: "row_of b d \<noteq> [] \<and> length (row_of b d) \<le> n" if "d \<in> set ?bs" for d
    using batched_pieces [OF that] length_row_of(2) [OF p(4), of d n] p(4) by (simp add: row_of_def batched_Nil_iff)
  have full: "\<forall>d \<in> set (butlast ?bs). length (row_of b d) = n"
    using batched_butlast [OF nb, of data] length_row_of(1) [OF p(4)] by blast
  have exact: "n * b dvd length data \<Longrightarrow> \<forall>d \<in> set ?bs. length (row_of b d) = n"
    using batched_exact [OF nb, of data] length_row_of(1) [OF p(4)] by blast
  show ?thesis
    using chunkify_eq [OF p(3-5,1,2), of data] row full exact assms(2) nb row_of_chunks [OF p(4-6)]
    by (simp add: map_butlast [symmetric] batched_Nil_iff)
qed

text \<open>Encoding a blob, all in one.\<close>

lemma blob_encoded:
  assumes E: "da_env E l1 l2 s" and params: "params_ok E params n b" and data: "data \<noteq> []"
    and cp: "combined_poly E params data = Ok (h, p)"
  obtains M F X T cc proofs where "chunkify_data params data = Ok M" and "encoded_rows E l1 s n M F X T"
    and "p = \<lparr>coefficients = cc, poly_modulus = BLS_MODULUS E\<rparr>"
    and "derive_challenge E (map (\<lambda>row. G1_to_bytes48 E (X row)) M) = Ok h"
    and "encode E params data = Ok \<lparr>blob_data = data, chunked_data = M, extended_matrix = map T M,
      row_commitments = map (\<lambda>row. G1_to_bytes48 E (X row)) M, combined_column_proofs = proofs\<rparr>"
    and "length proofs = 2 * n"
    and "\<And>i. i < 2 * n \<Longrightarrow> generate_element_proof E (int i) p (GLOBAL_PARAMETERS E) (ROOTS_OF_UNITY E) = Ok (proofs ! i)"
    and "\<forall>row \<in> set (butlast M). length row = n" and "n * b dvd length data \<longrightarrow> (\<forall>row \<in> set M. length row = n)"
proof -
  note n = params_okD(7,8,1) [OF params]
  obtain M where M: "chunkify_data params data = Ok M" "M \<noteq> []"
      "\<And>row. row \<in> set M \<Longrightarrow> row \<noteq> [] \<and> length row \<le> n \<and> (\<forall>c \<in> set row. chunk_ok (BLS_MODULUS E) c)"
      "\<forall>row \<in> set (butlast M). length row = n" "n * b dvd length data \<longrightarrow> (\<forall>row \<in> set M. length row = n)"
    using matrix_rows [OF params data] by blast
  obtain F X T where rows: "encoded_rows E l1 s n M F X T" using encoded_rows_exist [OF E M(2) n(1,2) M(3)] by blast
  have "compute_row_kzg_commitments E M = Ok (map (\<lambda>row. (\<lparr>coefficients = F row, poly_modulus = BLS_MODULUS E\<rparr>, G1_to_bytes48 E (X row))) M)"
    unfolding compute_row_kzg_commitments_def by (rule map_res_Ok) (use rows in \<open>auto simp: encoded_rows_def row_ok_def\<close>)
  then have h: "derive_challenge E (map (\<lambda>row. G1_to_bytes48 E (X row)) M) = Ok h"
    using cp M(1) by (auto simp: combined_poly_def o_def bind_res_Ok_iff)
  obtain cc where cc: "combined_poly E params data = Ok (h, \<lparr>coefficients = cc, poly_modulus = BLS_MODULUS E\<rparr>)"
    using encoded_combined [OF E rows M(1) h] by blast
  then have p: "p = \<lparr>coefficients = cc, poly_modulus = BLS_MODULUS E\<rparr>" using cp by simp
  from encode_eq [OF E rows M(1) h n(3,1,2) cc]
  show thesis using that [OF M(1) rows p h _ _ _ M(4,5)] unfolding p by blast
qed

end
