(* ===== verification/Fk20.thy ===== *)
theory Fk20
  imports Kzg
begin

text \<open>
  da/kzg_rs/fk20.py, utils.py and the transforms of group elements of da/kzg_rs/fft.py: the proofs of
  a polynomial at all roots of unity at once.

  The logarithms of a transformed list of points are the transform of the logarithms (\<open>fft_g1_logs\<close>).
  The three steps of the Toeplitz product then compute a cyclic convolution (\<open>cyclic_transform\<close>), whose
  first half holds the values at the secret of the polynomial without its lowest coefficients
  (\<open>toeplitz_values\<close>); its transform evaluates the quotients.
\<close>

section \<open>The code\<close>

definition butterfly_g1 :: "('g, 'h) KzgEnv \<Rightarrow> int list \<Rightarrow> 'g list \<Rightarrow> 'g list \<Rightarrow> (exn, 'g list) res" where
  "butterfly_g1 E roots L R =
     (if length roots < min (length L) (length R) then Err IndexError
      else
        let terms = map2 (multiply1 E) R roots
        in Ok (map2 (add1 E) L terms @ replicate (length L - length R) (Z1 E) @
               map2 (\<lambda>x t. add1 E x (neg1 E t)) L terms))"

function fft_g1 :: "('g, 'h) KzgEnv \<Rightarrow> 'g list \<Rightarrow> int list \<Rightarrow> (exn, 'g list) res" where
  "fft_g1 E vals roots =
     (if length vals = 1 then Ok vals
      else if vals = [] then Err RecursionError
      else bind_res (fft_g1 E (evens vals) (evens roots)) (\<lambda>L.
           bind_res (fft_g1 E (odds vals) (evens roots)) (\<lambda>R. butterfly_g1 E roots L R)))"
  by pat_completeness auto

termination
proof (relation "measure (\<lambda>(E, vals, roots). length vals)", goal_cases)
  case (2 E vals roots)
  then have "2 \<le> length vals" by (cases vals rule: evens.cases) auto
  then show ?case by (simp add: length_evens_odds)
next
  case (3 E vals roots L)
  then have "2 \<le> length vals" by (cases vals rule: evens.cases) auto
  then show ?case by (simp add: length_evens_odds)
qed simp

declare fft_g1.simps [simp del]

definition ifft_g1 :: "('g, 'h) KzgEnv \<Rightarrow> 'g list \<Rightarrow> int list \<Rightarrow> int \<Rightarrow> (exn, 'g list) res" where
  "ifft_g1 E vals roots m =
     (if length vals = length roots
      then
        let invlen = int (length vals) ^ nat (m - 2) mod m
        in bind_res (inverse_roots roots) (\<lambda>rs. bind_res (fft_g1 E vals rs) (\<lambda>out. Ok (map (\<lambda>x. multiply1 E x invlen) out)))
      else Err AssertionError)"

definition POWERS_OF_2 :: "int list" where
  "POWERS_OF_2 = map (\<lambda>i. 2 ^ i) [1..<32]"

definition is_power_of_two :: "int \<Rightarrow> bool" where
  "is_power_of_two n \<longleftrightarrow> n \<in> set POWERS_OF_2"

definition toeplitz1 :: "('g, 'h) KzgEnv \<Rightarrow> 'g list \<Rightarrow> int \<Rightarrow> (exn, 'g list) res" where
  "toeplitz1 E global_parameters polynomial_degree =
     (if int (length global_parameters) = polynomial_degree \<and> is_power_of_two (int (length global_parameters))
      then bind_res (compute_roots_of_unity PRIMITIVE_ROOT (polynomial_degree * 2) (BLS_MODULUS E)) (\<lambda>roots.
           fft_g1 E (global_parameters @ replicate (nat polynomial_degree) (Z1 E)) roots)
      else Err AssertionError)"

definition toeplitz2 :: "('g, 'h) KzgEnv \<Rightarrow> int list \<Rightarrow> 'g list \<Rightarrow> (exn, 'g list) res" where
  "toeplitz2 E coeffs extended_vector =
     (if is_power_of_two (int (length coeffs))
      then bind_res (compute_roots_of_unity PRIMITIVE_ROOT (int (length coeffs)) (BLS_MODULUS E)) (\<lambda>roots.
           bind_res (fft coeffs roots (BLS_MODULUS E)) (\<lambda>cs. Ok (map2 (multiply1 E) extended_vector cs)))
      else Err AssertionError)"

definition toeplitz3 :: "('g, 'h) KzgEnv \<Rightarrow> 'g list \<Rightarrow> int \<Rightarrow> (exn, 'g list) res" where
  "toeplitz3 E h_extended_fft polynomial_degree =
     bind_res (compute_roots_of_unity PRIMITIVE_ROOT (int (length h_extended_fft)) (BLS_MODULUS E)) (\<lambda>roots.
     bind_res (ifft_g1 E h_extended_fft roots (BLS_MODULUS E)) (\<lambda>h. Ok (py_slice 0 polynomial_degree h)))"

definition fk20_generate_proofs :: "('g, 'h) KzgEnv \<Rightarrow> Polynomial \<Rightarrow> 'g list \<Rightarrow> (exn, bytes list) res" where
  "fk20_generate_proofs E p global_parameters =
     (let degree = int (length (coefficients p))
      in if degree \<le> int (length global_parameters) \<and> is_power_of_two degree
         then bind_res (compute_roots_of_unity PRIMITIVE_ROOT degree (BLS_MODULUS E)) (\<lambda>roots.
              bind_res (toeplitz1 E (rev (py_slice 0 degree global_parameters)) degree) (\<lambda>extended_vector.
              bind_res (toeplitz2 E (replicate (nat degree) 0 @ coefficients p) extended_vector) (\<lambda>h_extended.
              bind_res (toeplitz3 E h_extended degree) (\<lambda>h_vector.
              bind_res (fft_g1 E h_vector roots) (\<lambda>proofs. Ok (map (G1_to_bytes48 E) proofs))))))
         else Err AssertionError)"

section \<open>Logarithms of transforms\<close>

abbreviation logs :: "('g \<Rightarrow> int) \<Rightarrow> int \<Rightarrow> 'g list \<Rightarrow> int list" where
  "logs l m xs \<equiv> map (\<lambda>x. l x mod m) xs"

lemma evens_map: "evens (map f xs) = map f (evens xs)" "odds (map f xs) = map f (odds xs)"
  by (induction xs rule: evens.induct) simp_all

lemma butterfly_logs:
  assumes "discrete_logs E l1 l2"
  shows "bind_res (butterfly_g1 E roots L R) (\<lambda>out. Ok (logs l1 (BLS_MODULUS E) out)) =
    butterfly (BLS_MODULUS E) roots (logs l1 (BLS_MODULUS E) L) (logs l1 (BLS_MODULUS E) R)"
proof -
  let ?m = "BLS_MODULUS E"
  note D = discrete_logsD [OF assms]
  have mul: "l1 (multiply1 E y r) mod ?m = (l1 y mod ?m) * r mod ?m" for y r by (simp add: D(7) mod_mult_left_eq)
  have plus: "l1 (add1 E x (multiply1 E y r)) mod ?m = (l1 x mod ?m + (l1 y mod ?m) * r mod ?m) mod ?m" for x y r
    unfolding D(5) mul [symmetric] by (simp add: mod_simps)
  have minus: "l1 (add1 E x (neg1 E (multiply1 E y r))) mod ?m = (l1 x mod ?m - (l1 y mod ?m) * r mod ?m + ?m) mod ?m" for x y r
  proof -
    have "l1 (add1 E x (neg1 E (multiply1 E y r))) mod ?m = (l1 x + - l1 (multiply1 E y r)) mod ?m"
      unfolding D(5) by (rule mod_add_cong [OF refl D(9)])
    also have "\<dots> = (l1 x mod ?m - l1 (multiply1 E y r) mod ?m + ?m) mod ?m" by (simp add: mod_simps)
    finally show ?thesis unfolding mul .
  qed
  show ?thesis
    by (auto simp: butterfly_g1_def butterfly_def Let_def D(1) plus minus map2_map_map intro!: nth_equalityI)
qed

lemma fft_g1_logs:
  assumes "discrete_logs E l1 l2"
  shows "bind_res (fft_g1 E vals roots) (\<lambda>out. Ok (logs l1 (BLS_MODULUS E) out)) =
    fft_rec (logs l1 (BLS_MODULUS E) vals) roots (BLS_MODULUS E)"
proof (induction vals arbitrary: roots rule: length_induct)
  case (1 vals)
  let ?m = "BLS_MODULUS E"
  show ?case
  proof (cases "length vals \<le> 1")
    case True
    then have "vals = [] \<or> length vals = 1" by (cases vals) auto
    then show ?thesis by (subst fft_g1.simps, subst fft_rec.simps) auto
  next
    case False
    then have "length (evens vals) < length vals" "length (odds vals) < length vals" by (simp_all add: length_evens_odds)
    then have IH: "fft_rec (evens (logs l1 ?m vals)) (evens roots) ?m = bind_res (fft_g1 E (evens vals) (evens roots)) (\<lambda>out. Ok (logs l1 ?m out))"
      "fft_rec (odds (logs l1 ?m vals)) (evens roots) ?m = bind_res (fft_g1 E (odds vals) (evens roots)) (\<lambda>out. Ok (logs l1 ?m out))"
      using 1 by (simp_all add: evens_map)
    have "vals \<noteq> []" "length vals \<noteq> 1" using False by auto
    then have "fft_rec (logs l1 ?m vals) roots ?m = bind_res (fft_rec (evens (logs l1 ?m vals)) (evens roots) ?m) (\<lambda>L.
        bind_res (fft_rec (odds (logs l1 ?m vals)) (evens roots) ?m) (\<lambda>R. butterfly ?m roots L R))"
      by (subst fft_rec.simps) simp
    also have "\<dots> = bind_res (fft_g1 E vals roots) (\<lambda>out. Ok (logs l1 ?m out))"
      using \<open>vals \<noteq> []\<close> \<open>length vals \<noteq> 1\<close> unfolding IH
      by (subst fft_g1.simps) (simp add: bind_res_assoc butterfly_logs [OF assms])
    finally show ?thesis ..
  qed
qed

lemma fft_g1_Ok:
  assumes "discrete_logs E l1 l2" and "fft_rec (logs l1 (BLS_MODULUS E) vals) roots (BLS_MODULUS E) = Ok out"
  shows "\<exists>xs. fft_g1 E vals roots = Ok xs \<and> logs l1 (BLS_MODULUS E) xs = out"
  using fft_g1_logs [OF assms(1), of vals roots] assms(2) by (auto simp: bind_res_Ok_iff)

lemma ifft_g1_Ok:
  assumes "discrete_logs E l1 l2" and "ifft (logs l1 (BLS_MODULUS E) vals) roots (BLS_MODULUS E) = Ok out"
  shows "\<exists>xs. ifft_g1 E vals roots (BLS_MODULUS E) = Ok xs \<and> logs l1 (BLS_MODULUS E) xs = out"
proof -
  let ?m = "BLS_MODULUS E"
  let ?invlen = "int (length vals) ^ nat (?m - 2) mod ?m"
  obtain rs F where rs: "length vals = length roots" "inverse_roots roots = Ok rs" "fft_rec (logs l1 ?m vals) rs ?m = Ok F"
      "out = map (\<lambda>x. x * ?invlen mod ?m) F"
    using assms(2) by (auto simp: ifft_def Let_def bind_res_Ok_iff split: if_splits)
  obtain xs where xs: "fft_g1 E vals rs = Ok xs" "logs l1 ?m xs = F" using fft_g1_Ok [OF assms(1) rs(3)] by blast
  have "logs l1 ?m (map (\<lambda>x. multiply1 E x ?invlen) xs) = out"
    using discrete_logsD(7) [OF assms(1)] by (simp add: rs(4) xs(2) [symmetric] mod_mult_left_eq)
  then show ?thesis using rs(1,2) xs(1) by (simp add: ifft_g1_def Let_def)
qed

section \<open>Cyclic convolution\<close>

definition cyclic :: "int \<Rightarrow> int list \<Rightarrow> int list \<Rightarrow> int list" where
  "cyclic m a c = map (\<lambda>i. (\<Sum>j<length a. \<Sum>l<length a. if (j + l) mod length a = i then a ! j * c ! l else 0) mod m) [0..<length a]"

lemma power_cycle: "r ^ n mod m = 1 mod m \<Longrightarrow> r ^ (k mod n) mod m = r ^ k mod (m :: int)"
proof -
  assume one: "r ^ n mod m = 1 mod m"
  have "r ^ k = r ^ (n * (k div n)) * r ^ (k mod n)" by (simp add: power_add [symmetric])
  also have "\<dots> mod m = 1 * r ^ (k mod n) mod m" by (rule mod_mult_cong [OF power_one [OF one] refl])
  finally show ?thesis by simp
qed

lemma cyclic_eval:
  assumes "length c = length a" and "r ^ length a mod m = 1 mod m" and "0 < length a"
  shows "peval (cyclic m a c) r mod m = peval a r * peval c r mod m"
proof -
  let ?n = "length a"
  have "peval (cyclic m a c) r mod m = (\<Sum>i<?n. (\<Sum>j<?n. \<Sum>l<?n. if (j + l) mod ?n = i then a ! j * c ! l else 0) * r ^ i) mod m"
  proof -
    have "length (cyclic m a c) = ?n" by (simp add: cyclic_def)
    then show ?thesis unfolding peval_sum by (simp only:) (rule sum_mod_cong, simp add: cyclic_def mod_mult_left_eq)
  qed
  also have "(\<Sum>i<?n. (\<Sum>j<?n. \<Sum>l<?n. if (j + l) mod ?n = i then a ! j * c ! l else 0) * r ^ i) =
      (\<Sum>i<?n. \<Sum>j<?n. \<Sum>l<?n. if (j + l) mod ?n = i then a ! j * c ! l * r ^ i else 0)"
    by (simp add: sum_distrib_right if_distrib [of "\<lambda>x. x * _"] cong: if_cong)
  also have "\<dots> = (\<Sum>j<?n. \<Sum>l<?n. \<Sum>i<?n. if (j + l) mod ?n = i then a ! j * c ! l * r ^ i else 0)"
    by (subst sum.swap) (rule sum.cong [OF refl], subst sum.swap, rule refl)
  also have "\<dots> = (\<Sum>j<?n. \<Sum>l<?n. a ! j * c ! l * r ^ ((j + l) mod ?n))" using assms(3) by simp
  also have "\<dots> mod m = (\<Sum>j<?n. \<Sum>l<?n. a ! j * c ! l * r ^ (j + l)) mod m"
    by (intro sum_mod_cong mod_mult_cong refl power_cycle assms(2))
  also have "(\<Sum>j<?n. \<Sum>l<?n. a ! j * c ! l * r ^ (j + l)) = (\<Sum>j<?n. a ! j * r ^ j) * (\<Sum>l<?n. c ! l * r ^ l)"
    by (simp add: sum_product power_add mult_ac)
  finally show ?thesis using assms(1) by (simp add: peval_sum)
qed

lemma cyclic_transform:
  assumes "prime_modulus p" and "2 < p" and "root_of_order p w k" and "length roots = 2 ^ k" and "powers p w roots"
    and "length a = 2 ^ k" and "length c = 2 ^ k"
    and "P = map (\<lambda>r. (peval a r mod p) * (peval c r mod p) mod p) roots"
  shows "ifft P roots p = Ok (cyclic p a c)"
proof -
  have "peval (cyclic p a c) r mod p = (peval a r mod p) * (peval c r mod p) mod p" if r: "r \<in> set roots" for r
  proof -
    obtain i where i: "i < 2 ^ k" "r = roots ! i" using r assms(4) unfolding in_set_conv_nth by metis
    have "r ^ 2 ^ k mod p = (w ^ i) ^ 2 ^ k mod p" by (rule mod_power_cong) (use i assms(4,5) in \<open>simp add: powers_def\<close>)
    also have "(w ^ i) ^ 2 ^ k = w ^ (2 ^ k * i)" by (simp add: power_mult [symmetric] mult.commute)
    also have "\<dots> mod p = 1 mod p" by (rule power_one) (use assms(3) in \<open>simp add: root_of_order_def\<close>)
    finally show ?thesis using cyclic_eval [of c a r p] assms(6,7) by (simp add: mod_mult_eq)
  qed
  then have P: "P = map (\<lambda>r. peval (cyclic p a c) r mod p) roots" by (simp add: assms(8))
  have "length (cyclic p a c) = 2 ^ k" "reduced p (cyclic p a c)" using assms(2,6) by (simp_all add: cyclic_def)
  then show ?thesis using ifft_fft [OF assms(1-3) _ _ assms(4,5)] P by blast
qed

section \<open>The Toeplitz product\<close>

text \<open>The first half of the convolution of the reversed powers of the secret with the coefficients.\<close>

lemma toeplitz_values:
  assumes "length a = 2 * n" and "length cs = n" and "i < n"
    and "\<And>j. j < n \<Longrightarrow> a ! j mod m = s ^ (n - 1 - j) mod m" and "\<And>j. n \<le> j \<Longrightarrow> j < 2 * n \<Longrightarrow> a ! j mod m = 0"
  shows "cyclic m a (replicate n 0 @ cs) ! i mod m = peval (drop (Suc i) cs) s mod m"
proof -
  let ?c = "replicate n 0 @ cs"
  let ?f = "\<lambda>j l. if (j + l) mod (2 * n) = i then a ! j * ?c ! l else 0"
  have "cyclic m a ?c ! i mod m = (\<Sum>j<2 * n. \<Sum>l<2 * n. ?f j l) mod m"
    using assms(1,3) by (simp add: cyclic_def)
  also have "(\<Sum>j<2 * n. \<Sum>l<2 * n. ?f j l) = (\<Sum>l<2 * n. \<Sum>j<2 * n. ?f j l)" by (rule sum.swap)
  also have "\<dots> mod m = (\<Sum>l<2 * n. if n + i < l then s ^ (l - n - 1 - i) * cs ! (l - n) else 0) mod m"
  proof (rule sum_mod_cong)
    fix l
    assume "l \<in> {..<2 * n}"
    then have l: "l < 2 * n" by simp
    show "(\<Sum>j<2 * n. ?f j l) mod m = (if n + i < l then s ^ (l - n - 1 - i) * cs ! (l - n) else 0) mod m"
    proof (cases "l < n")
      case True
      then have "(\<Sum>j<2 * n. ?f j l) = 0" by (intro sum.neutral) (simp add: nth_append)
      then show ?thesis using True by simp
    next
      case False
      define J where "J = (if i < l then 2 * n + i - l else i - l)"
      have J: "J < 2 * n" "(j + l) mod (2 * n) = i \<longleftrightarrow> j = J" if "j < 2 * n" for j
      proof -
        show "J < 2 * n" using l assms(3) by (auto simp: J_def)
        have "(j + l) mod (2 * n) = (if j + l < 2 * n then j + l else j + l - 2 * n)"
          using that l by (simp add: mod_if)
        then show "(j + l) mod (2 * n) = i \<longleftrightarrow> j = J" using that l assms(3) False by (auto simp: J_def)
      qed
      have J2: "J < 2 * n" using J(1) [of 0] l by simp
      have "(\<Sum>j<2 * n. ?f j l) = (\<Sum>j<2 * n. if j = J then a ! J * ?c ! l else 0)"
        by (rule sum.cong) (use J(2) in auto)
      also have "\<dots> = a ! J * ?c ! l" using J2 by simp
      finally have eq: "(\<Sum>j<2 * n. ?f j l) mod m = a ! J * cs ! (l - n) mod m" using False by (simp add: nth_append)
      have "a ! J * cs ! (l - n) mod m = (if n + i < l then s ^ (l - n - 1 - i) else 0) * cs ! (l - n) mod m"
      proof (rule mod_mult_cong [OF _ refl], cases "n + i < l")
        case True
        then have "J < n" "n - 1 - J = l - n - 1 - i" using l by (auto simp: J_def)
        then show "a ! J mod m = (if n + i < l then s ^ (l - n - 1 - i) else 0) mod m" using assms(4) [of J] True by simp
      next
        case False
        then have "n \<le> J" using \<open>\<not> l < n\<close> assms(3) by (auto simp: J_def)
        then show "a ! J mod m = (if n + i < l then s ^ (l - n - 1 - i) else 0) mod m" using assms(5) [of J] J2 False by simp
      qed
      then show ?thesis using eq by simp
    qed
  qed
  also have "(\<Sum>l<2 * n. if n + i < l then s ^ (l - n - 1 - i) * cs ! (l - n) else 0) =
      (\<Sum>t<n - Suc i. cs ! (Suc i + t) * s ^ t)"
  proof -
    have "(\<Sum>l<2 * n. if n + i < l then s ^ (l - n - 1 - i) * cs ! (l - n) else 0) =
        (\<Sum>l \<in> {n + i + 1..<2 * n}. s ^ (l - n - 1 - i) * cs ! (l - n))"
      by (rule sum.mono_neutral_cong_right) auto
    also have "{n + i + 1..<2 * n} = (\<lambda>t. n + i + 1 + t) ` {..<n - Suc i}"
    proof (intro set_eqI iffI)
      fix l
      assume "l \<in> {n + i + 1..<2 * n}"
      then have "l = n + i + 1 + (l - (n + i + 1))" "l - (n + i + 1) < n - Suc i" by auto
      then show "l \<in> (\<lambda>t. n + i + 1 + t) ` {..<n - Suc i}" by blast
    qed (use assms(3) in auto)
    also have "(\<Sum>l \<in> (\<lambda>t. n + i + 1 + t) ` {..<n - Suc i}. s ^ (l - n - 1 - i) * cs ! (l - n)) =
        (\<Sum>t<n - Suc i. cs ! (Suc i + t) * s ^ t)"
      by (subst sum.reindex) (auto intro!: inj_onI sum.cong simp: mult.commute add.assoc)
    finally show ?thesis .
  qed
  also have "\<dots> = peval (drop (Suc i) cs) s" using assms(2) by (simp add: peval_sum)
  finally show ?thesis .
qed

text \<open>The quotients at \<open>u\<close> and at the secret are symmetric.\<close>

lemma synthetic_symmetric: "peval (synthetic cs u) s = peval (synthetic cs s) (u :: int)"
proof (cases "s = u")
  case False
  have "peval cs s - peval cs u = (s - u) * peval (synthetic cs u) s" using synthetic_eval [of cs s u] by simp
  moreover have "peval cs s - peval cs u = (s - u) * peval (synthetic cs s) u"
    using synthetic_eval [of cs u s] by (simp add: algebra_simps)
  ultimately show ?thesis using False by (metis mult_cancel_left right_minus_eq)
qed simp

lemma quotient_sum:
  assumes "cs \<noteq> []"
  shows "peval (map (\<lambda>i. peval (drop (Suc i) cs) s) [0..<length cs]) u = peval (synthetic cs u) s"
proof -
  have "map (\<lambda>i. peval (drop (Suc i) cs) s) [0..<length cs] = synthetic cs s @ [0]"
    using assms by (intro nth_equalityI) (auto simp: nth_append synthetic_nth less_Suc_eq_le not_less)
  then have "peval (map (\<lambda>i. peval (drop (Suc i) cs) s) [0..<length cs]) u = peval (synthetic cs s) u" by (simp add: peval_append)
  then show ?thesis by (simp add: synthetic_symmetric)
qed

section \<open>The proofs\<close>

lemma proper_root_Suc: "proper_root p g (Suc k) \<Longrightarrow> proper_root p g k"
  by (auto simp: proper_root_def mod_eq_0_iff_dvd dest: dvd_mult_right)

lemma power_of_two: "1 \<le> k \<Longrightarrow> k < 32 \<Longrightarrow> is_power_of_two (2 ^ k)"
  by (auto simp: is_power_of_two_def POWERS_OF_2_def intro!: image_eqI [of _ _ k])

lemma fft_at_roots:
  assumes "0 < m" and "length roots = 2 ^ k" and "powers m w roots" and "root_of_order m w k" and "length vals = 2 ^ k" and "reduced m vals"
  shows "fft_rec vals roots m = Ok (map (\<lambda>r. peval vals r mod m) roots)"
  using fft_evaluates [OF assms(1,5,2,6,3)] assms(4) by (simp add: root_of_order_def)

text \<open>The three Toeplitz steps: the \<open>i\<close>-th point commits to the polynomial without its lowest
  \<open>i + 1\<close> coefficients.\<close>

lemma toeplitz_steps:
  assumes E: "discrete_logs E l1 l2" and sp: "secret_powers E l1 gs s" and m: "BLS_MODULUS E = m"
    and root: "proper_root m PRIMITIVE_ROOT (Suc k)" and k: "1 \<le> k" "Suc k < 32"
    and cs: "length cs = 2 ^ k" "reduced m cs" and gs: "length gs = 2 ^ k"
  shows "\<exists>x h v. toeplitz1 E (rev gs) (2 ^ k) = Ok x \<and> toeplitz2 E (replicate (2 ^ k) 0 @ cs) x = Ok h \<and>
    toeplitz3 E h (2 ^ k) = Ok v \<and> length v = 2 ^ k \<and> (\<forall>i<2 ^ k. l1 (v ! i) mod m = peval (drop (Suc i) cs) s mod m)"
proof -
  let ?n = "2 ^ k :: nat" and ?N = "2 ^ Suc k :: nat"
  have p: "prime_modulus m" "2 < m" "0 < m" using root by (simp_all add: proper_root_def)
  obtain w roots where r: "compute_roots_of_unity PRIMITIVE_ROOT (2 ^ Suc k) m = Ok roots" "length roots = ?N" "powers m w roots"
      "root_of_order m w (Suc k)" using compute_roots_ok [OF root] by blast
  note fft_r = fft_at_roots [OF p(3) r(2-4)]
  let ?X = "rev gs @ replicate ?n (Z1 E)"
  define a where "a = logs l1 m ?X"
  have a: "length a = ?N" "reduced m a" using gs p(3) by (simp_all add: a_def reduced_def)
  obtain x where x: "fft_g1 E ?X roots = Ok x" "logs l1 m x = map (\<lambda>r. peval a r mod m) roots"
    using fft_g1_Ok [OF E, unfolded m] fft_r [OF a] unfolding a_def by blast
  have "map length [x] = map length [logs l1 m x]" by simp
  then have lx: "length x = ?N" using x(2) r(2) by simp
  have t1: "toeplitz1 E (rev gs) (2 ^ k) = Ok x"
    using x(1) r(1) gs power_of_two [of k] k by (simp add: toeplitz1_def m nat_power_eq mult.commute)
  let ?c = "replicate ?n 0 @ cs"
  have c: "length ?c = ?N" "reduced m ?c" using cs p(3) by (auto simp: reduced_def)
  define h where "h = map2 (multiply1 E) x (map (\<lambda>r. peval ?c r mod m) roots)"
  have t2: "toeplitz2 E ?c x = Ok h"
    using r(1,2) fft_r [OF c] c(1) power_of_two [of "Suc k"] k cs(1) by (simp add: toeplitz2_def fft_def m h_def)
  have lh: "length h = ?N" using lx r(2) by (simp add: h_def)
  have "logs l1 m h = map (\<lambda>r. (peval a r mod m) * (peval ?c r mod m) mod m) roots"
  proof (rule nth_equalityI)
    fix i
    assume "i < length (logs l1 m h)"
    then have i: "i < ?N" using lh by simp
    have "l1 (x ! i) mod m = peval a (roots ! i) mod m" using arg_cong [OF x(2), of "\<lambda>xs. xs ! i"] i lx r(2) by simp
    then have "l1 (x ! i) * (peval ?c (roots ! i) mod m) mod m = (peval a (roots ! i) mod m) * (peval ?c (roots ! i) mod m) mod m"
      by (intro mod_mult_cong) simp_all
    then show "logs l1 m h ! i = map (\<lambda>r. (peval a r mod m) * (peval ?c r mod m) mod m) roots ! i"
      using i lx r(2) discrete_logsD(7) [OF E, unfolded m] by (simp add: h_def)
  qed (simp add: lh r(2))
  then have "ifft (logs l1 m h) roots m = Ok (cyclic m a ?c)" by (intro cyclic_transform [OF p(1,2) r(4,2,3) a(1) c(1)])
  then obtain y where y: "ifft_g1 E h roots m = Ok y" "logs l1 m y = cyclic m a ?c" using ifft_g1_Ok [OF E, unfolded m] by blast
  have "length (logs l1 m y) = ?N" unfolding y(2) by (simp add: cyclic_def a(1))
  then have ly: "length y = ?N" by simp
  have t3: "toeplitz3 E h (2 ^ k) = Ok (take ?n y)"
    using r(1) lh y(1) by (simp add: toeplitz3_def m py_slice_nonneg nat_power_eq)
  have "l1 (take ?n y ! i) mod m = peval (drop (Suc i) cs) s mod m" if i: "i < ?n" for i
  proof -
    have "l1 (take ?n y ! i) mod m = cyclic m a ?c ! i mod m" using arg_cong [OF y(2), of "\<lambda>xs. xs ! i"] i ly by (simp add: cyclic_def a(1))
    also have "\<dots> = peval (drop (Suc i) cs) s mod m"
    proof (rule toeplitz_values [OF _ cs(1) i])
      show "length a = 2 * ?n" by (simp add: a(1))
      show "a ! j mod m = s ^ (?n - 1 - j) mod m" if j: "j < ?n" for j
        using sp j gs by (simp add: a_def nth_append rev_nth secret_powers_def m)
      show "a ! j mod m = 0" if "?n \<le> j" "j < 2 * ?n" for j
        using that gs discrete_logsD(1) [OF E, unfolded m] by (simp add: a_def nth_append)
    qed
    finally show ?thesis .
  qed
  then show ?thesis using t1 t2 t3 ly by (intro exI [of _ x] exI [of _ h] exI [of _ "take ?n y"]) simp
qed

lemma fk20_logs:
  assumes E: "discrete_logs E l1 l2" and sp: "secret_powers E l1 gs s" and m: "BLS_MODULUS E = m"
    and root: "proper_root m PRIMITIVE_ROOT (Suc k)" and k: "1 \<le> k" "Suc k < 32"
    and p: "poly_modulus p = m" "length (coefficients p) = 2 ^ k" "reduced m (coefficients p)" "2 ^ k \<le> length gs"
    and roots: "compute_roots_of_unity PRIMITIVE_ROOT (2 ^ k) m = Ok roots"
  shows "\<exists>ys. fk20_generate_proofs E p gs = Ok (map (G1_to_bytes48 E) ys) \<and> length ys = 2 ^ k \<and> length roots = 2 ^ k \<and>
    (\<forall>i<2 ^ k. l1 (ys ! i) mod m = peval (synthetic (coefficients p) (roots ! i)) s mod m)"
proof -
  let ?n = "2 ^ k :: nat" and ?cs = "coefficients p"
  have m0: "0 < m" using root by (simp add: proper_root_def)
  obtain w where r: "length roots = ?n" "powers m w roots" "root_of_order m w k"
    using compute_roots_ok [OF proper_root_Suc [OF root]] roots by auto
  have "secret_powers E l1 (take ?n gs) s" using sp by (simp add: secret_powers_def)
  from toeplitz_steps [OF E this m root k p(2,3)] obtain x h v where
    t: "toeplitz1 E (rev (take ?n gs)) (2 ^ k) = Ok x" "toeplitz2 E (replicate ?n 0 @ ?cs) x = Ok h" "toeplitz3 E h (2 ^ k) = Ok v"
      and v: "length v = ?n" "\<And>i. i < ?n \<Longrightarrow> l1 (v ! i) mod m = peval (drop (Suc i) ?cs) s mod m"
    using p(4) by auto
  have "length (logs l1 m v) = ?n" "reduced m (logs l1 m v)" using v(1) m0 by simp_all
  from fft_at_roots [OF m0 r this] obtain ys where
    ys: "fft_g1 E v roots = Ok ys" "logs l1 m ys = map (\<lambda>r. peval (logs l1 m v) r mod m) roots"
    using fft_g1_Ok [OF E, unfolded m] by blast
  have "length (logs l1 m ys) = ?n" unfolding ys(2) using r(1) by simp
  then have ly: "length ys = ?n" by simp
  have "l1 (ys ! i) mod m = peval (synthetic ?cs (roots ! i)) s mod m" if i: "i < ?n" for i
  proof -
    have "l1 (ys ! i) mod m = peval (logs l1 m v) (roots ! i) mod m" using arg_cong [OF ys(2), of "\<lambda>xs. xs ! i"] i ly r(1) by simp
    also have "logs l1 m v = map (\<lambda>c. c mod m) (map (\<lambda>i. peval (drop (Suc i) ?cs) s) [0..<length ?cs])"
      using v p(2) by (intro nth_equalityI) simp_all
    also have "peval \<dots> (roots ! i) mod m = peval (map (\<lambda>i. peval (drop (Suc i) ?cs) s) [0..<length ?cs]) (roots ! i) mod m"
      by (rule peval_mod)
    also have "\<dots> = peval (synthetic ?cs (roots ! i)) s mod m"
    proof -
      have "?cs \<noteq> []" using p(2) by auto
      then show ?thesis using quotient_sum [of ?cs s "roots ! i"] by metis
    qed
    finally show ?thesis .
  qed
  moreover have "fk20_generate_proofs E p gs = Ok (map (G1_to_bytes48 E) ys)"
    using t ys(1) roots p(2,4) power_of_two [of k] k
    by (simp add: fk20_generate_proofs_def Let_def m py_slice_nonneg nat_power_eq)
  ultimately show ?thesis using ly r(1) by blast
qed

end
