(* ===== verification/Da_Demo.thy ===== *)
theory Da_Demo
  imports Da_Blob Fk20
begin

text \<open>
  A small instance of the libraries: the field of 257 elements with \<open>3\<close> as primitive root, the group
  of integers in place of the curve (a point is its own logarithm, and encoded modulo 257), the
  interpolation \<open>lagrange\<close>, and a checksum in place of the hash.
\<close>

definition demo_hash :: "nat \<Rightarrow> bytes \<Rightarrow> bytes" where
  "demo_hash n bs = be_bytes n (nat (1 + sum_list (map uint bs) mod 2))"

definition demo_env :: "(int, int) KzgEnv" where
  "demo_env = \<lparr>Z1 = 0, Z2 = 0, G1 = 1, G2 = 1, add1 = (+), add2 = (+), multiply1 = (*), multiply2 = (*),
     neg1 = uminus, neg2 = uminus, pairing_check = (\<lambda>ps. sum_list (map (\<lambda>(x, y). x * y) ps) mod 257 = 0),
     G1_to_bytes48 = (\<lambda>x. be_bytes 48 (nat (x mod 257))), bytes48_to_G1 = (\<lambda>b. Ok (from_bytes b)),
     interpolate_coeff = lagrange 257,
     bytes_to_bls_field = (\<lambda>b. if from_bytes b < 257 then Ok (from_bytes b) else Err AssertionError),
     field_from_bytes = (\<lambda>b. Ok (from_bytes b)), blake2b = demo_hash, BLS_MODULUS = 257,
     GLOBAL_PARAMETERS = accumulate (*) 1987 1 8, GLOBAL_PARAMETERS_G2 = accumulate (*) 1987 1 2,
     ROOTS_OF_UNITY = root_loop 8 257 (3 ^ 32 mod 257) 1\<rparr>"

lemma demo_prime: "prime_modulus 257"
  unfolding prime_modulus_code by code_simp

lemma demo_root: "proper_root 257 3 k" if "k \<le> 3"
proof -
  have "k = 0 \<or> k = 1 \<or> k = 2 \<or> k = 3" using that by auto
  then show ?thesis using demo_prime by (auto simp: proper_root_def)
qed

lemma demo_root_7: "proper_root 257 PRIMITIVE_ROOT 3"
  using demo_prime by (simp add: proper_root_def PRIMITIVE_ROOT_def)

lemma demo_bytes: "from_bytes (be_bytes 48 (nat (x mod 257))) = x mod 257"
proof -
  have "nat (x mod 257) < 257" by (simp add: nat_less_iff)
  then show ?thesis by (subst from_be_bytes) simp_all
qed

lemma demo_logs: "discrete_logs demo_env (\<lambda>x. x) (\<lambda>x. x)"
proof -
  have "be_bytes 48 (nat (x mod 257)) = be_bytes 48 (nat (y mod 257)) \<longleftrightarrow> x mod 257 = y mod 257" for x y
    by (metis demo_bytes)
  then show ?thesis by (simp add: discrete_logs_def demo_env_def demo_bytes)
qed

lemma demo_setup: "setup_ok demo_env (\<lambda>x. x) (\<lambda>x. x) 1987"
proof -
  have acc: "accumulate (*) s x n ! i = x * s ^ i" if "i < n" for x s :: int and n i
    using that
  proof (induction n arbitrary: x i)
    case (Suc n)
    then show ?case by (cases i) simp_all
  qed simp
  have len: "length (accumulate (*) s x n) = n" for x s :: int and n by (induction n arbitrary: x) simp_all
  show ?thesis using demo_logs acc len by (simp add: setup_ok_def secret_powers_def demo_env_def)
qed

lemma demo_ok: "da_env demo_env (\<lambda>x. x) (\<lambda>x. x) 1987"
proof -
  have "distinct (map (\<lambda>r. r mod 257) (root_loop 8 257 (3 ^ 32 mod 257) 1 :: int list))" by code_simp
  then have "distinct (map (\<lambda>r. r mod 257) (ROOTS_OF_UNITY demo_env))" by (simp add: demo_env_def)
  then show ?thesis
    using demo_setup demo_prime lagrange_interpolates [OF demo_prime]
    by (simp add: da_env_def) (simp add: demo_env_def)
qed

lemma demo_challenge: "derive_challenge demo_env coms = Ok (256 * (1 + sum_list (map uint (DA_DST @ concat coms)) mod 2))"
proof -
  define c where "c = 1 + sum_list (map uint (DA_DST @ concat coms)) mod 2"
  have c: "0 < c" "c < 3" by (simp_all add: c_def)
  then have "nat c < 256 ^ 31" by simp
  then have "from_bytes (be_bytes 31 (nat c)) = c" using c by (simp add: from_be_bytes)
  then show ?thesis by (simp add: derive_challenge_def demo_env_def demo_hash_def from_bytes_snoc c_def Let_def)
qed

lemma demo_challenge_nonzero: "derive_challenge demo_env coms = Ok h \<Longrightarrow> h mod 257 \<noteq> 0"
  unfolding demo_challenge by (cases "sum_list (map uint (DA_DST @ concat coms)) mod 2 = 0") auto

definition demo_params :: DAEncoderParams where
  "demo_params = \<lparr>column_count = 2, bytes_per_chunk = 1\<rparr>"

lemma demo_globals: "length (GLOBAL_PARAMETERS demo_env) = 8" "length (ROOTS_OF_UNITY demo_env) = 8"
proof -
  have "length (accumulate (*) s x n) = n" for s x :: int and n by (induction n arbitrary: x) simp_all
  then show "length (GLOBAL_PARAMETERS demo_env) = 8" by (simp add: demo_env_def)
  show "length (ROOTS_OF_UNITY demo_env) = 8" by (simp add: demo_env_def root_loop_powers(1))
qed

lemma demo_params_ok: "params_ok demo_env demo_params 2 1"
  using demo_globals by (simp add: params_ok_def demo_params_def) (simp add: demo_env_def)

lemma demo_modulus: "BLS_MODULUS demo_env = 257"
  by (simp add: demo_env_def)

lemma demo_combined:
  assumes "data \<noteq> []"
  obtains h p where "combined_poly demo_env demo_params data = Ok (h, p)" and "h mod 257 \<noteq> 0" and "\<And>u. quotient_full 257 (coefficients p) u"
proof -
  obtain M where M: "chunkify_data demo_params data = Ok M" "M \<noteq> []"
      "\<And>row. row \<in> set M \<Longrightarrow> row \<noteq> [] \<and> length row \<le> 2 \<and> (\<forall>c \<in> set row. chunk_ok (BLS_MODULUS demo_env) c)"
    using matrix_rows [OF demo_params_ok assms] by blast
  have "2 * 2 \<le> length (ROOTS_OF_UNITY demo_env)" "2 \<le> length (GLOBAL_PARAMETERS demo_env)"
    using demo_params_ok by (simp_all add: params_ok_def)
  then obtain F X T where rows: "encoded_rows demo_env (\<lambda>x. x) 1987 2 M F X T"
    using encoded_rows_exist [OF demo_ok M(2) _ _ M(3)] by blast
  obtain h where h: "derive_challenge demo_env (map (\<lambda>row. G1_to_bytes48 demo_env (X row)) M) = Ok h" using demo_challenge by blast
  obtain cc where "combined_poly demo_env demo_params data = Ok (h, \<lparr>coefficients = cc, poly_modulus = BLS_MODULUS demo_env\<rparr>)"
      "length cc \<le> 2" using encoded_combined [OF demo_ok rows M(1) h] by blast
  then show thesis using that demo_challenge_nonzero [OF h] by (auto simp: quotient_full_def)
qed

end
