(* ===== verification/Da_Properties.thy ===== *)
theory Da_Properties
  imports Da_Demo
begin

text \<open>
  The properties of data availability sampling, with witnesses over the libraries of \<open>Da_Demo\<close>.
\<close>

section \<open>Encoding\<close>

text \<open>C27: Encoding returns whenever the challenge does, and is systematic: every row of the extended
  matrix is twice as long as the row of chunks it extends and begins with it, and the chunks are the
  data.\<close>

theorem encode_systematic:
  assumes "da_env E l1 l2 s" and "params_ok E params n b" and "data \<noteq> []"
    and "\<And>coms. \<exists>h. derive_challenge E coms = Ok h"
  shows "\<exists>enc. encode E params data = Ok enc \<and> blob_data enc = data \<and>
    chunked_data enc = map (row_of b) (batched data (n * b)) \<and>
    list_all2 (\<lambda>row ext. length ext = 2 * length row \<and> take (length row) ext = row) (chunked_data enc) (extended_matrix enc) \<and>
    length (row_commitments enc) = length (chunked_data enc) \<and> length (combined_column_proofs enc) = 2 * n"
proof -
  note n = params_okD(7,8) [OF assms(2)]
  obtain M where M: "chunkify_data params data = Ok M" "M \<noteq> []" "M = map (row_of b) (batched data (n * b))"
      "\<And>row. row \<in> set M \<Longrightarrow> row \<noteq> [] \<and> length row \<le> n \<and> (\<forall>c \<in> set row. chunk_ok (BLS_MODULUS E) c)"
    using matrix_rows [OF assms(2,3)] by blast
  obtain F X T where rows: "encoded_rows E l1 s n M F X T" using encoded_rows_exist [OF assms(1) M(2) n M(4)] by blast
  obtain h where h: "derive_challenge E (map (\<lambda>row. G1_to_bytes48 E (X row)) M) = Ok h" using assms(4) by blast
  obtain cc where cc: "combined_poly E params data = Ok (h, \<lparr>coefficients = cc, poly_modulus = BLS_MODULUS E\<rparr>)"
    using encoded_combined [OF assms(1) rows M(1) h] by blast
  have "list_all2 (\<lambda>row ext. length ext = 2 * length row \<and> take (length row) ext = row) M (map T M)"
    using rows by (auto simp: encoded_rows_def row_ok_def list_all2_conv_all_nth)
  then show ?thesis using encode_eq [OF assms(1) rows M(1) h params_okD(1) [OF assms(2)] n cc] M(3) by fastforce
qed

theorem encode_systematic_witness:
  "\<exists>enc. encode demo_env demo_params [1, 2, 3] = Ok enc \<and> chunked_data enc = map (row_of 1) [[1, 2], [3]] \<and>
    map length (extended_matrix enc) = [4, 2]"
proof -
  obtain enc where enc: "encode demo_env demo_params [1, 2, 3] = Ok enc" "chunked_data enc = map (row_of 1) (batched [1, 2, 3] (2 * 1))"
      "list_all2 (\<lambda>row ext. length ext = 2 * length row \<and> take (length row) ext = row) (chunked_data enc) (extended_matrix enc)"
    using encode_systematic [OF demo_ok demo_params_ok, of "[1, 2, 3]"] demo_challenge by auto
  have "batched [1, 2, 3 :: byte] (2 * 1) = [[1, 2], [3]]" by (simp add: batched.simps)
  moreover have "length (row_of 1 [1, 2]) = 2" "length (row_of 1 [3]) = 1" by (simp_all add: row_of_def length_batched)
  ultimately show ?thesis using enc by (auto simp: list_all2_Cons1)
qed

section \<open>Shares\<close>

text \<open>Every share of an encoded blob verifies: when the data fills whole rows and no coefficient
  of the quotient below the leading one vanishes, the verifier accepts the share of every column.\<close>

theorem shares_accepted:
  assumes "da_env E l1 l2 s" and "params_ok E params n b" and "data \<noteq> []" and "n * b dvd length data"
    and "combined_poly E params data = Ok (h, p)" and "i < 2 * n"
    and "quotient_full (BLS_MODULUS E) (coefficients p) (ROOTS_OF_UNITY E ! i)"
  shows "\<exists>enc. encode E params data = Ok enc \<and> length (prepare_data enc) = 2 * n \<and>
    column_idx (prepare_data enc ! i) = int i \<and> verify E (prepare_data enc ! i) = Ok True"
proof -
  note n = params_okD(7,8) [OF assms(2)]
  obtain M F X T cc proofs where M: "chunkify_data params data = Ok M" and rows: "encoded_rows E l1 s n M F X T"
    and p: "p = \<lparr>coefficients = cc, poly_modulus = BLS_MODULUS E\<rparr>"
    and h: "derive_challenge E (map (\<lambda>row. G1_to_bytes48 E (X row)) M) = Ok h"
    and enc: "encode E params data = Ok \<lparr>blob_data = data, chunked_data = M, extended_matrix = map T M,
      row_commitments = map (\<lambda>row. G1_to_bytes48 E (X row)) M, combined_column_proofs = proofs\<rparr>" (is "_ = Ok ?enc")
    and len: "length proofs = 2 * n"
    and pf: "\<And>i. i < 2 * n \<Longrightarrow> generate_element_proof E (int i) p (GLOBAL_PARAMETERS E) (ROOTS_OF_UNITY E) = Ok (proofs ! i)"
    and exact: "n * b dvd length data \<longrightarrow> (\<forall>row \<in> set M. length row = n)"
    by (rule blob_encoded [OF assms(1-3,5)]) blast
  have T: "\<forall>row \<in> set M. length (T row) = 2 * n" and ne: "M \<noteq> []"
    using rows exact assms(4) by (auto simp: encoded_rows_def row_ok_def)
  then have cols: "i < length (columns (map T M))"
      "columns (map T M) ! i = map (\<lambda>row. if i < length (T row) then T row ! i else []) M"
    using columns_nth [of "T (hd M)" "map T M" i] assms(6) by (simp_all add: o_def)
  have "length (columns (map T M)) = 2 * n"
    using T ne foldr_max_le [of length "map T M" "2 * n"] foldr_max_ge [of "T (hd M)" "map T M" length]
    by (auto simp: columns_def intro!: antisym)
  moreover have "peval (map (\<lambda>row. if i < 2 * length row then 0 else peval (F row) (ROOTS_OF_UNITY E ! i)) M) h = 0"
  proof -
    have "map (\<lambda>row. if i < 2 * length row then 0 else peval (F row) (ROOTS_OF_UNITY E ! i)) M = replicate (length M) 0"
      using exact assms(4,6) by (auto simp: list_eq_iff_nth_eq)
    then show ?thesis by simp
  qed
  ultimately have "verify E (prepare_data ?enc ! i) = Ok True"
    using share_verdict [OF assms(1) rows M h n assms(6) assms(5) [unfolded p] pf [OF assms(6), unfolded p]] assms(7) cols
      prepare_data_nth [of i ?enc] len assms(6) by (simp add: p)
  then show ?thesis
    using enc len \<open>length (columns (map T M)) = 2 * n\<close> prepare_data_nth [of i ?enc] assms(6)
    by (intro exI [of _ ?enc]) (simp add: length_prepare_data)
qed

theorem shares_accepted_witness:
  "\<exists>enc. encode demo_env demo_params [1, 2, 3, 4] = Ok enc \<and> length (prepare_data enc) = 4 \<and>
    verify demo_env (prepare_data enc ! 3) = Ok True"
proof -
  obtain h p where "combined_poly demo_env demo_params [1, 2, 3, 4] = Ok (h, p)"
      "quotient_full 257 (coefficients p) (ROOTS_OF_UNITY demo_env ! 3)"
    by (rule demo_combined [of "[1, 2, 3, 4]"]) simp_all
  then show ?thesis using shares_accepted [OF demo_ok demo_params_ok, of "[1, 2, 3, 4]" h p 3] demo_modulus by auto
qed

text \<open>A node that verifies the share it is sent, and a record of the answers.\<close>

definition answer :: "('g, 'h) KzgEnv \<Rightarrow> bytes \<Rightarrow> DAShare \<Rightarrow> ((bytes \<times> int \<times> bool) list, exn, bool) action" where
  "answer E nd blob answers =
     (case verify E blob of
        Ok b \<Rightarrow> (Ok b, answers @ [(nd, column_idx blob, b)])
      | Err e \<Rightarrow> (Err e, answers) | Diverge \<Rightarrow> (Diverge, answers))"

lemma answers_collected:
  assumes "\<And>nd blob. (nd, blob) \<in> set xs \<Longrightarrow> verify E blob = Ok True"
  shows "for_each (\<lambda>(nd, blob). bind_act (answer E nd blob) (\<lambda>_. ret ())) xs answers =
    (Ok (), answers @ map (\<lambda>(nd, blob). (nd, column_idx blob, True)) xs)"
  using assms
proof (induction xs arbitrary: answers)
  case (Cons x xs)
  obtain nd blob where x: "x = (nd, blob)" by (cases x)
  have "verify E blob = Ok True" using Cons.prems [of nd blob] by (simp add: x)
  then have step: "bind_act (answer E nd blob) (\<lambda>_. ret ()) answers = (Ok (), answers @ [(nd, column_idx blob, True)])"
    by (simp add: bind_act_def answer_def)
  have IH: "for_each (\<lambda>(nd, blob). bind_act (answer E nd blob) (\<lambda>_. ret ())) xs ans =
      (Ok (), ans @ map (\<lambda>(nd, blob). (nd, column_idx blob, True)) xs)" for ans
    by (rule Cons.IH) (use Cons.prems in auto)
  show ?case
    unfolding x for_each.simps prod.case
    by (subst bind_act_Ok, rule step) (subst IH, simp)
qed simp

text \<open>C25: Encoder, dispersal and verifier fit together: a blob of whole rows is encoded, its shares
  are sent column by column to the nodes in the order of their identifiers, as far as both last, and
  every node that verifies the share it is sent accepts it. No coefficient of the quotients below the
  leading one may vanish, since \<open>divide\<close> loses those.\<close>

theorem dispersal_accepted:
  assumes "da_env E l1 l2 s" and "params_ok E params n b" and "data \<noteq> []" and "n * b dvd length data"
    and "combined_poly E params data = Ok (h, p)"
    and "\<And>i. i < 2 * n \<Longrightarrow> quotient_full (BLS_MODULUS E) (coefficients p) (ROOTS_OF_UNITY E ! i)"
  shows "\<exists>enc. encode E params data = Ok enc \<and>
    disperse (answer E) (mk_Dispersal \<lparr>nodes_ids = ids, threshold = t\<rparr>) enc [] =
      (Ok (), map (\<lambda>j. (sort ids ! j, int j, True)) [0..<min (length ids) (2 * n)])"
proof -
  have "0 < n" using params_okD(3) [OF assms(2)] .
  then obtain enc where enc: "encode E params data = Ok enc" "length (prepare_data enc) = 2 * n"
    using shares_accepted [OF assms(1-5), of 0] assms(6) by auto
  have share: "column_idx (prepare_data enc ! i) = int i" "verify E (prepare_data enc ! i) = Ok True" if "i < 2 * n" for i
    using shares_accepted [OF assms(1-5) that assms(6) [OF that]] enc(1) by auto
  let ?xs = "zip (sort ids) (prepare_data enc)"
  have "verify E blob = Ok True" if "(nd, blob) \<in> set ?xs" for nd blob
    using that share(2) enc(2) by (auto simp: in_set_zip)
  then have "for_each (\<lambda>(nd, blob). bind_act (answer E nd blob) (\<lambda>_. ret ())) ?xs [] =
      (Ok (), [] @ map (\<lambda>(nd, blob). (nd, column_idx blob, True)) ?xs)"
    by (rule answers_collected)
  moreover have "map (\<lambda>(nd, blob). (nd, column_idx blob, True)) ?xs = map (\<lambda>j. (sort ids ! j, int j, True)) [0..<min (length ids) (2 * n)]"
    using share(1) enc(2) by (intro nth_equalityI) simp_all
  ultimately show ?thesis using enc(1) by (simp add: disperse_def mk_Dispersal_def)
qed

theorem dispersal_accepted_witness:
  "\<exists>enc. encode demo_env demo_params [1, 2, 3, 4] = Ok enc \<and>
    disperse (answer demo_env) (mk_Dispersal \<lparr>nodes_ids = [[7], [5], [6]], threshold = 2\<rparr>) enc [] =
      (Ok (), [([5], 0, True), ([6], 1, True), ([7], 2, True)])"
proof -
  obtain h p where p: "combined_poly demo_env demo_params [1, 2, 3, 4] = Ok (h, p)"
      "\<And>u. quotient_full 257 (coefficients p) u"
    by (rule demo_combined [of "[1, 2, 3, 4]"]) simp_all
  have "sort [[7], [5], [6 :: byte]] = [[5], [6], [7]]" by code_simp
  moreover have "[0..<3] = [0, 1, 2 :: nat]" by code_simp
  ultimately show ?thesis
    using dispersal_accepted [OF demo_ok demo_params_ok _ _ p(1), of "[[7], [5], [6]]" 2] p(2) demo_modulus by simp
qed

text \<open>C26: A blob whose data ends within a row is encoded, but the verdict on its shares past the end of the
  extended last row is not about the data: where the quotient lost no coefficient and there are rows
  before it, such a share, prepared from the blob's own encoding, is accepted exactly when the
  polynomial of the last row vanishes at the root of that column or the challenge is zero. So it is
  refused for almost every blob, and accepted for one whose last bytes are zeros.\<close>

theorem uneven_blob_refused:
  assumes "da_env E l1 l2 s" and "params_ok E params n b" and "data \<noteq> []"
    and "combined_poly E params data = Ok (h, p)" and "i < 2 * n"
    and "quotient_full (BLS_MODULUS E) (coefficients p) (ROOTS_OF_UNITY E ! i)"
    and "chunkify_data params data = Ok (rows @ [row])" and "rows \<noteq> []" and "2 * length row \<le> i"
    and "bytes_to_polynomial E (as_bytes row) BYTES_PER_FIELD_ELEMENT = Ok r"
  shows "\<exists>enc. encode E params data = Ok enc \<and> column_idx (prepare_data enc ! i) = int i \<and>
    verify E (prepare_data enc ! i) =
      Ok (peval (coefficients r) (ROOTS_OF_UNITY E ! i) mod BLS_MODULUS E = 0 \<or> h mod BLS_MODULUS E = 0)"
proof -
  let ?m = "BLS_MODULUS E" and ?u = "ROOTS_OF_UNITY E ! i"
  note n = params_okD(7,8) [OF assms(2)]
  obtain M F X T cc proofs where M: "chunkify_data params data = Ok M" and er: "encoded_rows E l1 s n M F X T"
    and p: "p = \<lparr>coefficients = cc, poly_modulus = BLS_MODULUS E\<rparr>"
    and h: "derive_challenge E (map (\<lambda>row. G1_to_bytes48 E (X row)) M) = Ok h"
    and enc: "encode E params data = Ok \<lparr>blob_data = data, chunked_data = M, extended_matrix = map T M,
      row_commitments = map (\<lambda>row. G1_to_bytes48 E (X row)) M, combined_column_proofs = proofs\<rparr>" (is "_ = Ok ?enc")
    and len: "length proofs = 2 * n"
    and pf: "\<And>i. i < 2 * n \<Longrightarrow> generate_element_proof E (int i) p (GLOBAL_PARAMETERS E) (ROOTS_OF_UNITY E) = Ok (proofs ! i)"
    and full: "\<forall>row \<in> set (butlast M). length row = n"
    by (rule blob_encoded [OF assms(1-4)]) blast
  have M': "M = rows @ [row]" using M assms(7) by simp
  have T: "\<forall>row \<in> set rows. length (T row) = 2 * n \<and> length row = n"
    using er full by (auto simp: encoded_rows_def row_ok_def M')
  then have cols: "i < length (columns (map T M))"
      "columns (map T M) ! i = map (\<lambda>row. if i < length (T row) then T row ! i else []) M"
    using columns_nth [of "T (hd rows)" "map T M" i] assms(5,8) by (simp_all add: M' o_def)
  have "coefficients r = F row" using er assms(10) by (auto simp: encoded_rows_def row_ok_def M' bytes_to_commitment_def bind_res_Ok_iff)
  moreover have "map (\<lambda>row. if i < 2 * length row then 0 else peval (F row) ?u) M = replicate (length rows) 0 @ [peval (F row) ?u]"
    using T assms(5,9) by (auto simp: M' list_eq_iff_nth_eq nth_append)
  ultimately have "peval (map (\<lambda>row. if i < 2 * length row then 0 else peval (F row) ?u) M) h = h ^ length rows * peval (coefficients r) ?u"
    by (simp add: peval_append)
  moreover have "?m dvd h ^ length rows * peval (coefficients r) ?u \<longleftrightarrow> ?m dvd peval (coefficients r) ?u \<or> ?m dvd h"
  proof
    assume "?m dvd h ^ length rows * peval (coefficients r) ?u"
    then show "?m dvd peval (coefficients r) ?u \<or> ?m dvd h"
      using da_envD(2) [OF assms(1)] prime_dvd_mult prime_dvd_power by metis
  next
    have "h dvd h ^ length rows" using assms(8) by (intro dvd_power) simp
    then show "?m dvd peval (coefficients r) ?u \<or> ?m dvd h \<Longrightarrow> ?m dvd h ^ length rows * peval (coefficients r) ?u"
      by (meson dvd_mult dvd_mult2 dvd_trans)
  qed
  ultimately have "verify E (prepare_data ?enc ! i) = Ok (peval (coefficients r) ?u mod ?m = 0 \<or> h mod ?m = 0)"
    using share_verdict [OF assms(1) er M h n assms(5) assms(4) [unfolded p] pf [OF assms(5), unfolded p]] assms(6) cols
      prepare_data_nth [of i ?enc] len assms(5) by (simp add: p mod_eq_0_iff_dvd)
  then show ?thesis using enc cols(1) prepare_data_nth [of i ?enc] len assms(5) by (intro exI [of _ ?enc]) simp
qed

theorem uneven_blob_refused_witness:
  "\<exists>enc. encode demo_env demo_params [1, 2, 3] = Ok enc \<and> verify demo_env (prepare_data enc ! 2) = Ok False"
proof -
  obtain h p where cp: "combined_poly demo_env demo_params [1, 2, 3] = Ok (h, p)" "h mod 257 \<noteq> 0"
      "quotient_full 257 (coefficients p) (ROOTS_OF_UNITY demo_env ! 2)"
    by (rule demo_combined [of "[1, 2, 3]"]) simp_all
  have "chunkify_data demo_params [1, 2, 3] = Ok ([row_of 1 [1, 2]] @ [row_of 1 [3]])"
    using chunkify_eq [of 2 1 demo_params "[1, 2, 3]"] by (simp add: demo_params_def batched.simps)
  moreover have "length (row_of 1 [3]) = 1" by (simp add: row_of_def length_batched)
  moreover have "bytes_to_polynomial demo_env (as_bytes (row_of 1 [3])) BYTES_PER_FIELD_ELEMENT =
      Ok \<lparr>coefficients = [3], poly_modulus = 257\<rparr>"
  proof -
    have row: "row_of 1 [3] = [be_bytes 32 3]" by (simp add: row_of_def batched.simps from_bytes_def)
    have three: "from_bytes (be_bytes 32 3) = 3" by (simp add: from_be_bytes)
    obtain cs where cs: "bytes_to_polynomial demo_env (as_bytes [be_bytes 32 3]) BYTES_PER_FIELD_ELEMENT =
        Ok \<lparr>coefficients = cs, poly_modulus = 257\<rparr>" "length cs = 1" "reduced 257 cs" "peval cs (ROOTS_OF_UNITY demo_env ! 0) mod 257 = 3"
      using row_polynomial [OF demo_ok, of "[be_bytes 32 3]"] params_okD(7) [OF demo_params_ok] three
      by (auto simp: chunk_ok_def demo_modulus)
    then obtain c where "cs = [c]" by (auto simp: length_Suc_conv)
    then show ?thesis unfolding row using cs by simp
  qed
  ultimately show ?thesis
    using uneven_blob_refused [OF demo_ok demo_params_ok _ cp(1), of 2 "[row_of 1 [1, 2]]" "row_of 1 [3]"] cp(2,3) demo_modulus by auto
qed

section \<open>Proofs of values\<close>

text \<open>C28: The proof generated for the right value of a committed polynomial is accepted exactly when
  the quotient \<open>divide\<close> computes agrees with the true quotient at the secret. The two differ by the
  zeros below the leading coefficient, which \<open>divide\<close> leaves out: without such zeros the proof is
  accepted.\<close>

theorem element_proof_check:
  assumes "setup_ok E l1 l2 s" and "BLS_MODULUS E = m" and "1 < m"
    and "poly_modulus p = m" and "reduced m (coefficients p)" and "coefficients p \<noteq> []"
    and "length (coefficients p) \<le> length (GLOBAL_PARAMETERS E)"
    and "py_index roots idx = Ok u" and "poly_eval p u = Ok v"
    and "g1_linear_combination E p (GLOBAL_PARAMETERS E) = Ok com"
    and "q = map (\<lambda>c. c mod m) (synthetic (coefficients p) u)"
  shows "\<exists>pf. generate_element_proof E idx p (GLOBAL_PARAMETERS E) roots = Ok pf \<and>
    verify_element_proof E v com pf idx roots = Ok (peval q s * (s - u) mod m = peval (compressed q) s * (s - u) mod m) \<and>
    (quotient_full m (coefficients p) u \<longrightarrow> verify_element_proof E v com pf idx roots = Ok True)"
proof -
  have logs: "discrete_logs E l1 l2" "secret_powers E l1 (GLOBAL_PARAMETERS E) s" using assms(1) by (simp_all add: setup_ok_def)
  obtain x where x: "com = G1_to_bytes48 E x" "l1 x mod m = peval (coefficients p) s mod m"
    using commitment_log [OF logs assms(7)] assms(2,10) by auto
  have "v mod m = peval (coefficients p) u mod m" using assms(4,9) by (simp add: poly_eval_eq [OF assms(6)]) (metis mod_mod_trivial)
  from element_proof_accepted [OF assms(1-8) x this assms(11)] show ?thesis
    using compressed_full [of m "coefficients p" u] assms(11) by auto
qed

theorem element_proof_check_witness:
  "\<exists>com pf. g1_linear_combination demo_env \<lparr>coefficients = [0, 256, 1], poly_modulus = 257\<rparr> (GLOBAL_PARAMETERS demo_env) = Ok com \<and>
    poly_eval \<lparr>coefficients = [0, 256, 1], poly_modulus = 257\<rparr> 1 = Ok 0 \<and>
    generate_element_proof demo_env 0 \<lparr>coefficients = [0, 256, 1], poly_modulus = 257\<rparr> (GLOBAL_PARAMETERS demo_env) [1] = Ok pf \<and>
    verify_element_proof demo_env 0 com pf 0 [1] = Ok False"
proof -
  let ?p = "\<lparr>coefficients = [0, 256, 1], poly_modulus = 257\<rparr>"
  have len: "3 \<le> length (GLOBAL_PARAMETERS demo_env)" using demo_globals by simp
  then obtain com where com: "g1_linear_combination demo_env ?p (GLOBAL_PARAMETERS demo_env) = Ok com"
    by (auto simp: g1_linear_combination_def)
  have v: "poly_eval ?p 1 = Ok 0" by (simp add: poly_eval_eq)
  have q: "map (\<lambda>c. c mod 257) (synthetic (coefficients ?p) 1) = [0, 1]" by simp
  have "peval [0, 1] 1987 * (1987 - 1) mod 257 \<noteq> peval (compressed [0, 1]) 1987 * (1987 - 1) mod (257 :: int)"
    by (simp add: compressed_def)
  then show ?thesis
    using element_proof_check [OF demo_setup demo_modulus, of ?p "[1]" 0 1 0 com "[0, 1]"] len com v q by (auto simp: py_index_def)
qed

text \<open>C29: The batch proofs of fk20 are proofs of the values of the polynomial at all roots of unity:
  each is accepted, and is the proof \<open>generate_element_proof\<close> gives where the latter loses no zero of
  the quotient.\<close>

theorem fk20_agrees:
  assumes "setup_ok E l1 l2 s" and "BLS_MODULUS E = m" and "proper_root m PRIMITIVE_ROOT (Suc k)" and "1 \<le> k" and "Suc k < 32"
    and "poly_modulus p = m" and "length (coefficients p) = 2 ^ k" and "reduced m (coefficients p)"
    and "2 ^ k \<le> length (GLOBAL_PARAMETERS E)" and "g1_linear_combination E p (GLOBAL_PARAMETERS E) = Ok com"
  shows "\<exists>roots proofs. compute_roots_of_unity PRIMITIVE_ROOT (2 ^ k) m = Ok roots \<and>
    fk20_generate_proofs E p (GLOBAL_PARAMETERS E) = Ok proofs \<and> length proofs = 2 ^ k \<and>
    (\<forall>i<2 ^ k. verify_element_proof E (peval (coefficients p) (roots ! i) mod m) com (proofs ! i) (int i) roots = Ok True \<and>
      (quotient_full m (coefficients p) (roots ! i) \<longrightarrow>
        generate_element_proof E (int i) p (GLOBAL_PARAMETERS E) roots = Ok (proofs ! i)))"
proof -
  have logs: "discrete_logs E l1 l2" "secret_powers E l1 (GLOBAL_PARAMETERS E) s" using assms(1) by (simp_all add: setup_ok_def)
  have m: "1 < m" and ne: "coefficients p \<noteq> []" using assms(3,7) by (auto simp: proper_root_def)
  obtain roots where roots: "compute_roots_of_unity PRIMITIVE_ROOT (2 ^ k) m = Ok roots"
    using compute_roots_ok [OF proper_root_Suc [OF assms(3)]] by blast
  obtain ys where ys: "fk20_generate_proofs E p (GLOBAL_PARAMETERS E) = Ok (map (G1_to_bytes48 E) ys)" "length ys = 2 ^ k" "length roots = 2 ^ k"
      "\<And>i. i < 2 ^ k \<Longrightarrow> l1 (ys ! i) mod m = peval (synthetic (coefficients p) (roots ! i)) s mod m"
    using fk20_logs [OF logs assms(2-9) roots] by blast
  obtain x where x: "com = G1_to_bytes48 E x" "l1 x mod m = peval (coefficients p) s mod m"
    using commitment_log [OF logs, of p] assms(2,7,9,10) by auto
  have "verify_element_proof E (peval (coefficients p) (roots ! i) mod m) com (G1_to_bytes48 E (ys ! i)) (int i) roots = Ok True"
    if i: "i < 2 ^ k" for i
  proof -
    have "(l1 x - peval (coefficients p) (roots ! i) mod m) mod m = (peval (coefficients p) s - peval (coefficients p) (roots ! i)) mod m"
      by (rule mod_diff_cong [OF x(2)]) simp
    also have "peval (coefficients p) s - peval (coefficients p) (roots ! i) = peval (synthetic (coefficients p) (roots ! i)) s * (s - roots ! i)"
      using synthetic_eval [of "coefficients p" s "roots ! i"] by simp
    also have "\<dots> mod m = l1 (ys ! i) * (s - roots ! i) mod m" by (rule mod_mult_cong [OF ys(4) [OF i, symmetric] refl])
    finally show ?thesis
      using verify_element_iff [OF assms(1) _ x(1) refl, of roots "int i" "roots ! i"] i ys(3) assms(2) by (simp add: py_index_def)
  qed
  moreover have "generate_element_proof E (int i) p (GLOBAL_PARAMETERS E) roots = Ok (G1_to_bytes48 E (ys ! i))"
    if i: "i < 2 ^ k" and full: "quotient_full m (coefficients p) (roots ! i)" for i
  proof -
    have "py_index roots (int i) = Ok (roots ! i)" using i ys(3) by (simp add: py_index_def)
    from element_proof_log [OF logs assms(2) m assms(6,8) ne _ this] assms(7,9) obtain z where
      z: "generate_element_proof E (int i) p (GLOBAL_PARAMETERS E) roots = Ok (G1_to_bytes48 E z)"
        "l1 z mod m = peval (synthetic (coefficients p) (roots ! i)) s mod m"
      by (auto simp: compressed_full [OF full] peval_mod)
    then show ?thesis using discrete_logsD(13) [OF logs(1)] ys(4) [OF i] assms(2) by simp
  qed
  ultimately show ?thesis using roots ys(1,2) by (intro exI [of _ roots] exI [of _ "map (G1_to_bytes48 E) ys"]) simp
qed

theorem fk20_agrees_witness:
  "\<exists>com roots proofs. g1_linear_combination demo_env \<lparr>coefficients = [1, 2, 3, 4], poly_modulus = 257\<rparr> (GLOBAL_PARAMETERS demo_env) = Ok com \<and>
    compute_roots_of_unity PRIMITIVE_ROOT 4 257 = Ok roots \<and>
    fk20_generate_proofs demo_env \<lparr>coefficients = [1, 2, 3, 4], poly_modulus = 257\<rparr> (GLOBAL_PARAMETERS demo_env) = Ok proofs \<and>
    verify_element_proof demo_env (peval [1, 2, 3, 4] (roots ! 3) mod 257) com (proofs ! 3) 3 roots = Ok True"
proof -
  let ?p = "\<lparr>coefficients = [1, 2, 3, 4], poly_modulus = 257\<rparr>"
  have len: "length (coefficients ?p) \<le> length (GLOBAL_PARAMETERS demo_env)" using demo_globals by simp
  then obtain com where com: "g1_linear_combination demo_env ?p (GLOBAL_PARAMETERS demo_env) = Ok com"
    by (auto simp: g1_linear_combination_def)
  have "proper_root 257 PRIMITIVE_ROOT (Suc 2)" using demo_root_7 by (simp add: eval_nat_numeral)
  from fk20_agrees [OF demo_setup demo_modulus this _ _ _ _ _ _ com] len obtain roots proofs where
    "compute_roots_of_unity PRIMITIVE_ROOT (2 ^ 2) 257 = Ok roots" "fk20_generate_proofs demo_env ?p (GLOBAL_PARAMETERS demo_env) = Ok proofs"
    "\<forall>i<2 ^ 2. verify_element_proof demo_env (peval (coefficients ?p) (roots ! i) mod 257) com (proofs ! i) (int i) roots = Ok True"
    by auto
  then show ?thesis using com by (intro exI [of _ com] exI [of _ roots] exI [of _ proofs]) (auto dest: spec [of _ 3])
qed

section \<open>Transforms and erasure coding\<close>

text \<open>C31: For the roots of unity that \<open>compute_roots_of_unity\<close> computes from a primitive root, the
  transform of a sequence evaluates its polynomial at every root, and the inverse transform gives the
  sequence back.\<close>

theorem fft_roundtrip:
  assumes "proper_root m g k" and "length vals = 2 ^ k" and "reduced m vals"
  shows "\<exists>roots out. compute_roots_of_unity g (2 ^ k) m = Ok roots \<and> fft vals roots m = Ok out \<and>
    out = map (\<lambda>r. peval vals r mod m) roots \<and> ifft out roots m = Ok vals"
proof -
  obtain w roots where r: "compute_roots_of_unity g (2 ^ k) m = Ok roots" "length roots = 2 ^ k" "powers m w roots"
      "root_of_order m w k" using compute_roots_ok [OF assms(1)] by blast
  have "prime_modulus m" "2 < m" using assms(1) by (simp_all add: proper_root_def)
  from ifft_fft [OF this r(4) assms(2,3) r(2,3)] show ?thesis using r(1) by blast
qed

theorem fft_roundtrip_witness:
  "\<exists>roots out. compute_roots_of_unity 3 4 257 = Ok roots \<and> fft [1, 2, 3, 4] roots 257 = Ok out \<and>
    ifft out roots 257 = Ok [1, 2, 3, 4]"
  using fft_roundtrip [OF demo_root [of 2], of "[1, 2, 3, 4]"] by auto

text \<open>C30: A polynomial encoded at roots that differ is recovered from any of its values, as long as
  as many are left as it has coefficients.\<close>

theorem rs_recovers:
  assumes "prime_modulus m" and "interpolates m interp" and "distinct (map (\<lambda>x. x mod m) roots)"
    and "poly_modulus p = m" and "reduced m (coefficients p)" and "coefficients p \<noteq> []"
    and "rs_encode p factor roots = Ok sent" and "erased sent received"
    and "length (coefficients p) \<le> length (filter (\<lambda>e. e \<noteq> None) received)"
  shows "rs_decode interp m received roots (int (length (coefficients p))) = Ok p"
  by (rule rs_erasure [OF assms])

theorem rs_recovers_witness:
  "rs_decode (lagrange 257) 257 [None, Some 196, None, Some 33] (ROOTS_OF_UNITY demo_env) 2 =
    Ok \<lparr>coefficients = [5, 7], poly_modulus = 257\<rparr>"
proof -
  have "rs_encode \<lparr>coefficients = [5, 7], poly_modulus = 257\<rparr> 2 (ROOTS_OF_UNITY demo_env) = Ok [12, 196, 150, 33]"
  proof -
    have "root_loop 8 257 (3 ^ 32 mod 257) 1 = [1, 64, 241, 4, 256, 193, 16, 253 :: int]" by code_simp
    then show ?thesis by (subst rs_encode_values) (simp_all add: demo_env_def)
  qed
  then show ?thesis
    using rs_recovers [OF demo_prime lagrange_interpolates [OF demo_prime] da_envD(9) [OF demo_ok, unfolded demo_modulus],
        of "\<lparr>coefficients = [5, 7], poly_modulus = 257\<rparr>" 2 "[12, 196, 150, 33]" "[None, Some 196, None, Some 33]"]
    by (simp add: erased_def)
qed

text \<open>The division of polynomials computes the right remainder; its quotient is the true one
  without the zeros below the leading coefficient.\<close>

theorem divide_compresses:
  assumes "mod_inverse (last (coefficients q)) (poly_modulus p) = Ok di" and "coefficients q \<noteq> []"
    and "reduced (poly_modulus p) (coefficients p)" and "length (coefficients q) \<le> length (coefficients p)"
  shows "\<exists>g s. (\<forall>x. peval (coefficients p) x mod poly_modulus p = (peval g x * peval (coefficients q) x + peval s x) mod poly_modulus p) \<and>
    length s < length (coefficients q) \<and>
    divide p q = Ok (\<lparr>coefficients = compressed g, poly_modulus = poly_modulus p\<rparr>,
      \<lparr>coefficients = pop_zeros s, poly_modulus = poly_modulus p\<rparr>)"
proof -
  obtain g s where gs: "long_division (poly_modulus p) (coefficients q) di (coefficients p) = (g, s)" by (cases "long_division (poly_modulus p) (coefficients q) di (coefficients p)")
  note S = long_division_spec [OF assms(1-3) gs]
  have "g \<noteq> []" using S(2) assms(2,4) by (cases g) auto
  then show ?thesis using S divide_eq [OF assms gs] by (intro exI [of _ g] exI [of _ s]) (simp add: compressed_def)
qed

theorem divide_compresses_witness:
  "\<exists>g s. divide \<lparr>coefficients = [0, 256, 1], poly_modulus = 257\<rparr> \<lparr>coefficients = [256, 1], poly_modulus = 257\<rparr> =
      Ok (\<lparr>coefficients = compressed g, poly_modulus = 257\<rparr>, \<lparr>coefficients = pop_zeros s, poly_modulus = 257\<rparr>) \<and>
    compressed g = [1] \<and> peval [1] 2 * peval [256, 1] 2 mod 257 \<noteq> peval [0, 256, 1] 2 mod (257 :: int)"
proof -
  obtain g s where gs: "divide \<lparr>coefficients = [0, 256, 1], poly_modulus = 257\<rparr> \<lparr>coefficients = [256, 1], poly_modulus = 257\<rparr> =
        Ok (\<lparr>coefficients = compressed g, poly_modulus = 257\<rparr>, \<lparr>coefficients = pop_zeros s, poly_modulus = 257\<rparr>)"
    using divide_compresses [of "\<lparr>coefficients = [256, 1], poly_modulus = 257\<rparr>" "\<lparr>coefficients = [0, 256, 1], poly_modulus = 257\<rparr>" 1]
      mod_inverse_one [of 257] by auto
  have "divide \<lparr>coefficients = [0, 256, 1], poly_modulus = 257\<rparr> \<lparr>coefficients = [256, 1], poly_modulus = 257\<rparr> =
      Ok (\<lparr>coefficients = [1], poly_modulus = 257\<rparr>, \<lparr>coefficients = [], poly_modulus = 257\<rparr>)" by code_simp
  then have "compressed g = [1]" using gs by simp
  then show ?thesis using gs by (intro exI [of _ g] exI [of _ s]) simp
qed

end
