(* ===== verification/Spec2Isabelle.thy ===== *)
theory Spec2Isabelle
  imports Sync_Properties Refill_Properties Mixnet_Properties Carnot_Properties
    Da_Properties Mix_Helpers
begin

text \<open>
  A verification library for the Nomos specifications: executable Python models of a proof-of-stake
  chain (src/cryptarchia), of data availability (src/da), of a mix network (src/deprecated/mixnet_v1)
  and of an earlier consensus protocol (src/deprecated/carnot).

  \<^bold>\<open>Parts of the program and where they are modelled\<close>

  Cryptarchia (cryptarchia.py, sync.py). A \<open>Follower\<close> keeps a tree of blocks with the ledger state after
  each, its local chain, its forks and the last immutable block. \<open>on_block\<close> validates a header (known
  parent, not below the last immutable block, leader proof against the epoch state of its slot), adds
  the block, switches chains by the fork choice rule and prunes. \<open>sync\<close> fetches blocks from peers by
  slot and backfills orphan forks.
  \<^item> \<open>Prelude\<close>: results, methods that change state, Python lists and bytes, runs of step relations;
    \<open>Py_Float\<close>: rounding to double precision, which the stake inference uses.
  \<^item> \<open>Ledger\<close>: time, configuration, notes, leader proofs, headers, ledger and epoch states.
  \<^item> \<open>Block_Tree\<close>, \<open>Chain_Queries\<close>: the functions on the tree (height, iter_chain, is_ancestor,
    common_prefix_depth, chain_density); \<open>Fork_Choice\<close>: maxvalid_bg and maxvalid_mc.
  \<^item> \<open>Follower\<close>: the class \<open>Follower\<close>, all operations; \<open>Tree_Updates\<close>, \<open>Follower_Inv\<close>,
    \<open>Follower_Safety\<close>, \<open>Follower_Ledger\<close>, \<open>Follower_Blocks\<close>, \<open>Epoch_States\<close>: what they preserve.
  \<^item> \<open>Leader\<close>: the slot lottery; \<open>Sync\<close>, \<open>Sync_Safety\<close>, \<open>Sync_Backfill\<close>: initial block download.
  \<^item> \<open>Demo\<close>: a configuration on which properties are instantiated; \<open>Follower_Properties\<close>,
    \<open>Chain_Properties\<close>, \<open>Epoch_Properties\<close>, \<open>Sync_Properties\<close>: the properties.

  Subnetwork assignation (da/assignations/refill.py). Nodes are assigned to subnetworks: leavers are
  removed, the subnetworks balanced (\<open>shrink\<close>) or thinned (\<open>grow\<close>), and then filled up to the
  replication factor by repeatedly joining the least assigned node to the smallest subnetwork.
  \<^item> \<open>Refill\<close>: the definitions; \<open>Refill_Queue\<close>: the heaps; \<open>Refill_Fill\<close>: the filling loop;
    \<open>Refill_Balance\<close>: the two balancing loops; \<open>Refill_Properties\<close>: the properties.

  Data availability (da/kzg_rs, da/encoder.py, da/verifier.py, da/dispersal.py, da/common.py,
  da/api/common.py). A blob is cut into rows of chunks; each row is interpolated to a polynomial,
  committed to and extended to twice its length; the verifier of a column checks one proof for a
  random combination of the rows.
  \<^item> \<open>Modular\<close>: arithmetic modulo a prime, values of coefficient lists; \<open>Field_Poly\<close>: the class
    Polynomial, with its division against division by hand; \<open>Roots_Fft\<close>: roots of unity and the
    transforms; \<open>Reed_Solomon\<close>: coding, and an interpolation for the examples.
  \<^item> \<open>Kzg\<close>: trusted setup, commitments and element proofs; \<open>Da_Encoder\<close>: matrices, random combinations,
    encoder, verifier, dispersal, API.
  \<^item> \<open>Fk20\<close>: the transforms of group elements and the proofs of all values at once (fft.py, fk20.py).
  \<^item> \<open>Da_Shares\<close>: rows and combinations; \<open>Da_Blob\<close>: the verdict on each share of a blob; \<open>Da_Demo\<close>: an
    instance over 257 elements; \<open>Da_Properties\<close>: the properties.

  Mix network (packet.py, config.py, fisheryates.py, client.py, node.py, mixnet.py). A client cuts a
  message into fragments, wraps each into a Sphinx packet along a random route that ends in one
  destination, and emits packets, redundant copies and cover traffic from its queues; nodes unwrap and
  forward packets; the destination reassembles.
  \<^item> \<open>Fragments\<close>: headers, fragments and the reconstructors; \<open>Reassembly\<close>: the abstract collection of
    fragment sets that they refine; \<open>Packet\<close>: building and parsing packets.
  \<^item> \<open>Topology\<close>: the layers of mix nodes, routes and destinations.
  \<^item> \<open>Mix_Helpers\<close>: random bytes and intervals (poisson.py, utils.py, bls.py), tasks and how they are
    cancelled; \<open>Mix_Client\<close>, \<open>Mix_Node\<close>: client and node as step relations over their queues and tasks;
    \<open>Mix_Process\<close>: the process that owns both, its tasks interleaved, and what cancelling it leaves.
  \<^item> \<open>Mix_Network\<close>: nodes joined by a transport that moves packets to the address they are sent to: no
    packet is lost or doubled, and every packet can get through; \<open>Mixnet_Properties\<close>: the properties.

  Carnot (carnot.py, overlay.py, tree_overlay.py, beacon.py, beaconized_carnot.py). A node keeps the
  blocks it considers safe, its current and its highest voted view, the highest certificate and the last
  timeout certificate; handlers receive blocks, votes, timeouts and new views and return the message to
  send. Whom to send to, and how many messages to wait for, is the overlay's business.
  \<^item> \<open>Carnot\<close>: the node, with the overlay as an interface (\<open>OverlayOps\<close>); \<open>Carnot_Inv\<close>: all handlers as
    one transition, and the types of certificates; \<open>Carnot_Commit\<close>: the tree of safe blocks and the
    commits; \<open>Carnot_Votes\<close>: the votes of a run.
  \<^item> \<open>Committee_Sizes\<close>: the search for the number of committees (committee_sizes.py).
  \<^item> \<open>Overlays\<close>: the flat overlay and the committee tree; \<open>Beacon\<close>: random beacons and the node that uses
    them; \<open>Carnot_Demo\<close>: a network of three nodes; \<open>Carnot_Properties\<close>: the properties.

  \<^bold>\<open>Conventions\<close>

  A call that may raise returns \<open>('e, 'a) res\<close>; a method is an \<open>action\<close>, which keeps what it changed
  before an exception. Python integers are \<open>int\<close>, bytes are lists of \<open>8 word\<close>, dictionaries are
  association lists in insertion order or maps, sets are sets. Loops that may not end take fuel and
  return \<open>Diverge\<close> without it; the theorems that a call returns say which fuel is enough: the call depth
  of the block tree and of the epoch recursion, the number of missing participations for the filling
  loop (one round more when it ends in an exception), the sum of squared sizes for the shrinking loop.
  A mix node needs no fuel: its steps do a part of its \<open>work\<close> each, so without arrivals it comes to rest. \<open>sync\<close> has no such bound:
  \<open>sync_never_returns\<close> exhibits peers with which it runs forever.

  \<^bold>\<open>What the groups of lemmas show\<close>

  Invariants are proved for every operation and lifted to runs by the locales \<open>invariant_system\<close> and
  \<open>monotone_system\<close> of \<open>Prelude\<close>, interpreted on the follower, the mixnet process, and the Carnot
  node. The functional lemmas describe every branch of an operation. The properties speak of whole runs,
  of the fork choice, of messages that arrive in any order, and of the errors.

  \<^bold>\<open>Parameters\<close>

  Hash functions (blake2b, sha256), the module \<open>random\<close>, pysphinx, blspy, the floating point power and
  the generators of identifiers are arguments. What is assumed of them, where a property needs it, is a
  hypothesis: injectivity of a hash on the values at hand, that a shuffle permutes, that the payload of
  a Sphinx packet is what was put in, that a signature verifies under its public key. The pairing curve
  of \<open>eth2spec.utils.bls\<close> is a record of operations with discrete logarithms (\<open>discrete_logs\<close>), and
  \<open>interpolate_polynomialcoeff\<close> returns the polynomial through the given points, of which there is at least one (\<open>interpolates\<close>).

  \<^bold>\<open>Not modelled\<close>

  Times and delays of the mix network appear as the order of steps only: the interval that poisson.py
  draws is modelled, with the exceptions of drawing it, the sleeping is not. The queue that
  subscribe_messages returns is fed by nobody in the repository; the transport between mix nodes is the
  assumption of \<open>Mix_Network\<close>. The
  abstract blob store of the API and the sending of shares are parameters. Copies of objects and hash
  methods have no counterpart in a functional model.
\<close>

end
